(* ===== verification/Prelude.thy ===== *)
theory Prelude
  imports Main "HOL-Library.Monad_Syntax"
begin

section \<open>Go slices, panics and quorums\<close>

text \<open>
  What the components of the development share.

  A Go function that may panic (an index out of range, a negative length given to
  \<^verbatim>\<open>make\<close>) is a HOL function into \<open>option\<close>: \<open>None\<close> is the run-time panic, and the
  \<open>do\<close> notation of \<open>Monad_Syntax\<close> passes it on. Go's \<^verbatim>\<open>int\<close> is modelled by the
  mathematical \<open>int\<close>: the indices and terms of the program are counters that start at 0
  and grow by one, so a 64-bit counter does not overflow in a run of any realistic length.
  A slice is a list; \<open>slice_get\<close>, \<open>slice_set\<close>, \<open>slice_from\<close>, \<open>slice_upto\<close> are
  \<^verbatim>\<open>xs[i]\<close>, \<^verbatim>\<open>xs[i] = v\<close>, \<^verbatim>\<open>xs[i:]\<close> and \<^verbatim>\<open>xs[:i]\<close>
  with their bounds checks.

  The second half is the interface every quorum argument of the development goes through
  (the locale \<open>quorum_system\<close>, interpreted on the majorities of a set of peers) and the
  reachable states of a transition system (\<open>reaches\<close>) with the rule for their invariants.
\<close>

named_theorems go_slice \<open>the laws of slice expressions inside their bounds\<close>

subsection \<open>Slices\<close>

definition slice_get :: "'a list \<Rightarrow> int \<Rightarrow> 'a option" where
  "slice_get xs i = (if 0 \<le> i \<and> i < int (length xs) then Some (xs ! nat i) else None)"

definition slice_set :: "'a list \<Rightarrow> int \<Rightarrow> 'a \<Rightarrow> 'a list option" where
  "slice_set xs i v = (if 0 \<le> i \<and> i < int (length xs) then Some (xs[nat i := v]) else None)"

definition slice_from :: "'a list \<Rightarrow> int \<Rightarrow> 'a list option" where
  "slice_from xs i = (if 0 \<le> i \<and> i \<le> int (length xs) then Some (drop (nat i) xs) else None)"

definition slice_upto :: "'a list \<Rightarrow> int \<Rightarrow> 'a list option" where
  "slice_upto xs i = (if 0 \<le> i \<and> i \<le> int (length xs) then Some (take (nat i) xs) else None)"

lemma slice_get_Some [go_slice]:
  "0 \<le> i \<Longrightarrow> i < int (length xs) \<Longrightarrow> slice_get xs i = Some (xs ! nat i)"
  by (simp add: slice_get_def)

lemma slice_get_eq_Some:
  "slice_get xs i = Some x \<longleftrightarrow> 0 \<le> i \<and> i < int (length xs) \<and> x = xs ! nat i"
  by (auto simp: slice_get_def)

lemma slice_set_Some [go_slice]:
  "0 \<le> i \<Longrightarrow> i < int (length xs) \<Longrightarrow> slice_set xs i v = Some (xs[nat i := v])"
  by (simp add: slice_set_def)

lemma slice_set_eq_Some:
  "slice_set xs i v = Some ys \<longleftrightarrow> 0 \<le> i \<and> i < int (length xs) \<and> ys = xs[nat i := v]"
  by (auto simp: slice_set_def)

lemma slice_from_Some [go_slice]:
  "0 \<le> i \<Longrightarrow> i \<le> int (length xs) \<Longrightarrow> slice_from xs i = Some (drop (nat i) xs)"
  by (simp add: slice_from_def)

lemma slice_upto_Some [go_slice]:
  "0 \<le> i \<Longrightarrow> i \<le> int (length xs) \<Longrightarrow> slice_upto xs i = Some (take (nat i) xs)"
  by (simp add: slice_upto_def)

lemma slice_from_upto:
  assumes "slice_upto xs i = Some a" and "slice_from xs i = Some b"
  shows "a @ b = xs"
  using assms by (auto simp: slice_from_def slice_upto_def split: if_splits)

subsection \<open>Common prefixes of lists\<close>

lemma take_eq_mono: "take n xs = take n ys \<Longrightarrow> m \<le> n \<Longrightarrow> take m xs = take m ys"
  by (metis min.absorb1 take_take)

lemma take_eq_nth: "take n xs = take n ys \<Longrightarrow> i < n \<Longrightarrow> i < length xs \<Longrightarrow> xs ! i = ys ! i"
  by (metis nth_take)

lemma take_eq_length:
  "take n xs = take n ys \<Longrightarrow> n \<le> length xs \<Longrightarrow> n \<le> length ys"
  by (metis length_take min.absorb2 min.cobounded1)

lemma take_append_take: "n \<le> length xs \<Longrightarrow> take n (xs @ ys) = take n xs"
  by simp

subsection \<open>Quorums\<close>

text \<open>
  Leader election and commitment both count peers against \<^verbatim>\<open>len(rf.peers)/2\<close>. All
  that the safety arguments use is that two quorums share a member.
\<close>

locale quorum_system =
  fixes quorum :: "nat \<Rightarrow> nat set \<Rightarrow> bool"
  assumes quorum_meet: "quorum n Q \<Longrightarrow> quorum n R \<Longrightarrow> \<exists>p. p \<in> Q \<and> p \<in> R"
    and quorum_member: "quorum n Q \<Longrightarrow> p \<in> Q \<Longrightarrow> p < n"
    and quorum_mono: "quorum n Q \<Longrightarrow> Q \<subseteq> R \<Longrightarrow> R \<subseteq> {..<n} \<Longrightarrow> quorum n R"
begin

lemma quorum_nonempty: "quorum n Q \<Longrightarrow> Q \<noteq> {}"
  using quorum_meet by blast

text \<open>Two choices that each have a quorum of supporters, one choice per supporter, are equal.\<close>

lemma quorum_agree:
  assumes "quorum n Q" and "quorum n R"
    and "\<And>p. p \<in> Q \<Longrightarrow> f p = a" and "\<And>p. p \<in> R \<Longrightarrow> f p = b"
  shows "a = b"
  using quorum_meet [OF assms(1,2)] assms(3,4) by metis

end

definition majority :: "nat \<Rightarrow> nat set \<Rightarrow> bool" where
  "majority n Q \<longleftrightarrow> Q \<subseteq> {..<n} \<and> n div 2 < card Q"

lemma majorities_share_member:
  assumes "majority n Q" and "majority n R"
  shows "\<exists>p. p \<in> Q \<and> p \<in> R"
proof (rule ccontr)
  assume "\<not> (\<exists>p. p \<in> Q \<and> p \<in> R)"
  then have disj: "Q \<inter> R = {}" by blast
  have fin: "finite Q" "finite R"
    using assms by (auto simp: majority_def intro: finite_subset)
  have "card Q + card R = card (Q \<union> R)"
    using fin disj by (simp add: card_Un_disjoint)
  also have "\<dots> \<le> card {..<n}"
    using assms by (intro card_mono) (auto simp: majority_def)
  finally have "card Q + card R \<le> n" by simp
  with assms show False by (auto simp: majority_def)
qed

interpretation maj: quorum_system majority
proof
  show "\<exists>p. p \<in> Q \<and> p \<in> R" if "majority n Q" "majority n R" for n Q R
    using that by (rule majorities_share_member)
next
  show "p < n" if "majority n Q" "p \<in> Q" for n Q p
    using that by (auto simp: majority_def)
next
  show "majority n R" if "majority n Q" "Q \<subseteq> R" "R \<subseteq> {..<n}" for n Q R
  proof -
    have "card Q \<le> card R"
      using that by (intro card_mono finite_subset [of R "{..<n}"]) auto
    with that show ?thesis by (auto simp: majority_def)
  qed
qed

subsection \<open>Transition systems\<close>

text \<open>
  A component that runs beside others is a set of start states and a step relation; a
  safety property is an invariant of the reachable states. \<open>reaches\<close> is the reachability
  every system of the development is an instance of.
\<close>

inductive reaches :: "('s \<Rightarrow> bool) \<Rightarrow> ('s \<Rightarrow> 's \<Rightarrow> bool) \<Rightarrow> 's \<Rightarrow> bool"
  for init :: "'s \<Rightarrow> bool" and step :: "'s \<Rightarrow> 's \<Rightarrow> bool" where
  reaches_init: "init s \<Longrightarrow> reaches init step s"
| reaches_step: "reaches init step s \<Longrightarrow> step s t \<Longrightarrow> reaches init step t"

lemma reaches_invariant [consumes 1, case_names init step]:
  assumes "reaches init step s"
    and "\<And>s. init s \<Longrightarrow> I s"
    and "\<And>s t. reaches init step s \<Longrightarrow> I s \<Longrightarrow> step s t \<Longrightarrow> I t"
  shows "I s"
  using assms by (induction rule: reaches.induct) blast+

end
