(* ===== verification/Dedup.thy ===== *)
theory Dedup
  imports Prelude
begin

section \<open>Requests that are carried out at most once\<close>

text \<open>
  Every service of the repository keeps, for each client, the sequence number of the last
  request it has carried out, and skips a request whose number is not larger. The locale
  \<open>exactly_once\<close> is that contract: \<open>step\<close> is the service's own operation on its state, \<open>seen\<close>
  the table of the numbers, \<open>effect\<close> what the request means for the data alone, and \<open>tracked\<close>
  tells the requests that the table covers (a read is not tracked). Inside it: what a sequence
  of requests with repetitions does to the data (\<open>data_fold\<close>), that a repetition has no effect
  (\<open>repeat_ignored\<close>), and that when the clients number their requests in the order they first
  arrive, the sequence does what the sequence without repetitions does (\<open>exactly_once\<close>).
\<close>

type_synonym 'k seqs = "'k \<rightharpoonup> int"

definition duplicate :: "'k seqs \<Rightarrow> 'k \<Rightarrow> int \<Rightarrow> bool" where
  "duplicate m c q \<longleftrightarrow> (case m c of Some l \<Rightarrow> q \<le> l | None \<Rightarrow> False)"

text \<open>The requests of a sequence that are carried out, when \<open>m\<close> is the table at its start.\<close>

fun fresh_only :: "('o \<Rightarrow> bool) \<Rightarrow> ('o \<Rightarrow> 'k) \<Rightarrow> ('o \<Rightarrow> int) \<Rightarrow> 'k seqs \<Rightarrow> 'o list \<Rightarrow> 'o list" where
  "fresh_only tracked client sq m [] = []"
| "fresh_only tracked client sq m (x # xs) =
     (if \<not> tracked x then x # fresh_only tracked client sq m xs
      else if duplicate m (client x) (sq x) then fresh_only tracked client sq m xs
      else x # fresh_only tracked client sq (m(client x \<mapsto> sq x)) xs)"

text \<open>A sequence without the repetitions: of each request the first occurrence.\<close>

fun first_of :: "'o set \<Rightarrow> 'o list \<Rightarrow> 'o list" where
  "first_of A [] = []"
| "first_of A (x # xs) = (if x \<in> A then first_of A xs else x # first_of (insert x A) xs)"

text \<open>
  The clients number their requests in the order of their first arrival: a request that has
  not arrived before is newer than every request of the same client that has.
\<close>

fun in_order :: "('o \<Rightarrow> 'k) \<Rightarrow> ('o \<Rightarrow> int) \<Rightarrow> 'o set \<Rightarrow> 'o list \<Rightarrow> bool" where
  "in_order client sq A [] = True"
| "in_order client sq A (x # xs) =
     ((x \<in> A \<or> (\<forall>y \<in> A. client y = client x \<longrightarrow> sq y < sq x)) \<and> in_order client sq (insert x A) xs)"

lemma set_first_of: "set (first_of A xs) = set xs - A"
  by (induction xs arbitrary: A) auto

lemma distinct_first_of: "distinct (first_of A xs)"
  by (induction xs arbitrary: A) (auto simp: set_first_of)

text \<open>The table agrees with the requests \<open>A\<close> that have arrived.\<close>

definition table_of :: "('o \<Rightarrow> 'k) \<Rightarrow> ('o \<Rightarrow> int) \<Rightarrow> 'o set \<Rightarrow> 'k seqs \<Rightarrow> bool" where
  "table_of client sq A m \<longleftrightarrow>
     (\<forall>y \<in> A. \<exists>l. m (client y) = Some l \<and> sq y \<le> l) \<and>
     (\<forall>c l. m c = Some l \<longrightarrow> (\<exists>y \<in> A. client y = c \<and> sq y = l))"

lemma table_of_duplicate:
  assumes t: "table_of client sq A m" and o: "x \<in> A \<or> (\<forall>y \<in> A. client y = client x \<longrightarrow> sq y < sq x)"
  shows "duplicate m (client x) (sq x) \<longleftrightarrow> x \<in> A"
proof
  assume "duplicate m (client x) (sq x)"
  then obtain l where l: "m (client x) = Some l" "sq x \<le> l"
    by (auto simp: duplicate_def split: option.splits)
  then obtain y where "y \<in> A" "client y = client x" "sq y = l" using t unfolding table_of_def by blast
  with l(2) o show "x \<in> A" by auto
next
  assume "x \<in> A"
  with t show "duplicate m (client x) (sq x)" by (auto simp: table_of_def duplicate_def split: option.splits)
qed

lemma table_of_insert:
  assumes t: "table_of client sq A m" and o: "\<forall>y \<in> A. client y = client x \<longrightarrow> sq y < sq x"
  shows "table_of client sq (insert x A) (m(client x \<mapsto> sq x))"
  using assms unfolding table_of_def by (auto split: if_splits)

lemma fresh_only_first_of:
  assumes "list_all tracked xs" and "in_order client sq A xs" and "table_of client sq A m"
  shows "fresh_only tracked client sq m xs = first_of A xs"
  using assms
proof (induction xs arbitrary: A m)
  case (Cons x xs)
  have ord: "x \<in> A \<or> (\<forall>y \<in> A. client y = client x \<longrightarrow> sq y < sq x)" using Cons.prems(2) by simp
  show ?case
  proof (cases "x \<in> A")
    case True
    then have "insert x A = A" by auto
    with True Cons table_of_duplicate [OF Cons.prems(3) ord] show ?thesis by simp
  next
    case False
    with ord have "\<forall>y \<in> A. client y = client x \<longrightarrow> sq y < sq x" by blast
    from table_of_insert [OF Cons.prems(3) this] False Cons table_of_duplicate [OF Cons.prems(3) ord]
    show ?thesis by simp
  qed
qed simp

locale exactly_once =
  fixes step :: "'o \<Rightarrow> 's \<Rightarrow> 's" and content :: "'s \<Rightarrow> 'd" and seen :: "'s \<Rightarrow> 'k seqs"
    and effect :: "'o \<Rightarrow> 'd \<Rightarrow> 'd" and tracked :: "'o \<Rightarrow> bool"
    and client :: "'o \<Rightarrow> 'k" and sq :: "'o \<Rightarrow> int"
  assumes fresh_step: "tracked x \<Longrightarrow> \<not> duplicate (seen s) (client x) (sq x) \<Longrightarrow>
      content (step x s) = effect x (content s) \<and> seen (step x s) = (seen s)(client x \<mapsto> sq x)"
    and duplicate_step: "tracked x \<Longrightarrow> duplicate (seen s) (client x) (sq x) \<Longrightarrow>
      content (step x s) = content s \<and> seen (step x s) = seen s"
    and untracked_step: "\<not> tracked x \<Longrightarrow>
      content (step x s) = effect x (content s) \<and> seen (step x s) = seen s"
begin

lemma data_fold:
  "content (fold step xs s) = fold effect (fresh_only tracked client sq (seen s) xs) (content s)"
proof (induction xs arbitrary: s)
  case (Cons x xs)
  show ?case
    using Cons [of "step x s"] fresh_step [of x s] duplicate_step [of x s] untracked_step [of x s] by simp
qed simp

lemma seen_after: "tracked x \<Longrightarrow> duplicate (seen (step x s)) (client x) (sq x)"
  using fresh_step [of x s] duplicate_step [of x s]
  by (cases "duplicate (seen s) (client x) (sq x)") (auto simp: duplicate_def)

lemma seen_mono:
  assumes "duplicate (seen s) c q"
  shows "duplicate (seen (step x s)) c q"
  using assms fresh_step [of x s] duplicate_step [of x s] untracked_step [of x s]
  by (cases "tracked x"; cases "duplicate (seen s) (client x) (sq x)")
    (auto simp: duplicate_def split: option.splits)

lemma seen_fold_mono: "duplicate (seen s) c q \<Longrightarrow> duplicate (seen (fold step xs s)) c q"
  by (induction xs arbitrary: s) (auto intro: seen_mono)

lemma repeat_ignored:
  assumes "tracked x"
  shows "content (step x (fold step xs (step x s))) = content (fold step xs (step x s))"
    and "seen (step x (fold step xs (step x s))) = seen (fold step xs (step x s))"
  using duplicate_step [OF assms seen_fold_mono [OF seen_after [OF assms]]] by blast+

lemma once:
  assumes "list_all tracked xs" and "in_order client sq {} xs" and "seen s = Map.empty"
  shows "content (fold step xs s) = fold effect (first_of {} xs) (content s)"
proof -
  have "table_of client sq {} (seen s)" using assms(3) by (simp add: table_of_def)
  then show ?thesis using data_fold [of xs s] fresh_only_first_of [OF assms(1,2)] by simp
qed

end

end
