(* ===== verification/KvSrv.thy ===== *)
theory KvSrv
  imports Dedup
begin

section \<open>The key/value server of one machine\<close>

text \<open>
  \<^verbatim>\<open>kvsrv/server.go\<close>, \<^verbatim>\<open>kvsrv/client.go\<close> and \<^verbatim>\<open>kvsrv/common.go\<close>: a handler runs under the
  server's lock and is one function on the server's state. A Go map is a HOL map; reading an
  absent key gives the empty string. A clerk that retries over a network that loses messages
  is \<open>clerkPutAppend\<close> on a list of what happens to its attempts.
\<close>

record PutAppendArgs =
  pa_Key :: string
  pa_Value :: string
  pa_ClientId :: int
  pa_Seq :: int

record PutAppendReply =
  par_Value :: string

record GetArgs =
  ga_Key :: string

record GetReply =
  gr_Value :: string

record lastOp =
  lo_seq :: int
  lo_reply :: string

record KVServer =
  data :: "string \<rightharpoonup> string"
  dedup :: "int \<rightharpoonup> lastOp"

text \<open>Go's \<^verbatim>\<open>m[k]\<close> on a map of strings.\<close>

definition readMap :: "(string \<rightharpoonup> string) \<Rightarrow> string \<Rightarrow> string" where
  "readMap m k = (case m k of None \<Rightarrow> '''' | Some v \<Rightarrow> v)"

definition Get :: "KVServer \<Rightarrow> GetArgs \<Rightarrow> KVServer \<times> GetReply" where
  "Get kv args = (kv, \<lparr>gr_Value = readMap (data kv) (ga_Key args)\<rparr>)"

definition Put :: "KVServer \<Rightarrow> PutAppendArgs \<Rightarrow> KVServer \<times> PutAppendReply" where
  "Put kv args =
     (let fresh = (kv\<lparr>data := (data kv)(pa_Key args \<mapsto> pa_Value args),
                      dedup := (dedup kv)(pa_ClientId args \<mapsto> \<lparr>lo_seq = pa_Seq args, lo_reply = ''''\<rparr>)\<rparr>,
                   \<lparr>par_Value = ''''\<rparr>)
      in case dedup kv (pa_ClientId args) of
           Some lst \<Rightarrow> if lo_seq lst \<ge> pa_Seq args then (kv, \<lparr>par_Value = ''''\<rparr>) else fresh
         | None \<Rightarrow> fresh)"

definition Append :: "KVServer \<Rightarrow> PutAppendArgs \<Rightarrow> KVServer \<times> PutAppendReply" where
  "Append kv args =
     (let old = readMap (data kv) (pa_Key args);
          fresh = (kv\<lparr>data := (data kv)(pa_Key args \<mapsto> old @ pa_Value args),
                      dedup := (dedup kv)(pa_ClientId args \<mapsto> \<lparr>lo_seq = pa_Seq args, lo_reply = old\<rparr>)\<rparr>,
                   \<lparr>par_Value = old\<rparr>)
      in case dedup kv (pa_ClientId args) of
           Some lst \<Rightarrow>
             if lo_seq lst \<ge> pa_Seq args then (kv, \<lparr>par_Value = lo_reply lst\<rparr>) else fresh
         | None \<Rightarrow> fresh)"

definition StartKVServer :: KVServer where
  "StartKVServer = \<lparr>data = Map.empty, dedup = Map.empty\<rparr>"

subsection \<open>The clerk\<close>

record Clerk =
  ck_clientId :: int
  ck_seq :: int

definition MakeClerk :: "int \<Rightarrow> Clerk" where
  "MakeClerk rand = \<lparr>ck_clientId = rand, ck_seq = 0\<rparr>"

definition nextSeq :: "Clerk \<Rightarrow> Clerk \<times> int" where
  "nextSeq ck = (ck\<lparr>ck_seq := ck_seq ck + 1\<rparr>, ck_seq ck + 1)"

text \<open>
  An attempt to call the server: the requests of other clerks that the server handles before
  it, and whether the request is lost, the reply is lost, or the call returns true. \<open>isPut\<close>
  chooses the method \<^verbatim>\<open>"KVServer."+op\<close>.
\<close>

datatype call = DropRequest | DropReply | Delivered

type_synonym request = "bool \<times> PutAppendArgs"

definition serve :: "request \<Rightarrow> KVServer \<Rightarrow> KVServer \<times> PutAppendReply" where
  "serve r kv = (if fst r then Put kv (snd r) else Append kv (snd r))"

definition serveAll :: "request list \<Rightarrow> KVServer \<Rightarrow> KVServer" where
  "serveAll rs kv = fold (\<lambda>r kv. fst (serve r kv)) rs kv"

fun callLoop :: "request \<Rightarrow> (request list \<times> call) list \<Rightarrow> KVServer \<Rightarrow> KVServer \<times> string option" where
  "callLoop r [] kv = (kv, None)"
| "callLoop r ((others, c) # cs) kv =
     (let kv1 = serveAll others kv
      in case c of
           DropRequest \<Rightarrow> callLoop r cs kv1
         | DropReply \<Rightarrow> callLoop r cs (fst (serve r kv1))
         | Delivered \<Rightarrow> (fst (serve r kv1), Some (par_Value (snd (serve r kv1)))))"

definition clerkPutAppend ::
  "Clerk \<Rightarrow> string \<Rightarrow> string \<Rightarrow> bool \<Rightarrow> (request list \<times> call) list \<Rightarrow> KVServer \<Rightarrow>
   Clerk \<times> KVServer \<times> string option" where
  "clerkPutAppend ck key value isPut cs kv =
     (let (ck', s) = nextSeq ck;
          args = \<lparr>pa_Key = key, pa_Value = value, pa_ClientId = ck_clientId ck, pa_Seq = s\<rparr>
      in (ck', callLoop (isPut, args) cs kv))"

fun clerkGet :: "string \<Rightarrow> (request list \<times> call) list \<Rightarrow> KVServer \<Rightarrow> KVServer \<times> string option" where
  "clerkGet key [] kv = (kv, None)"
| "clerkGet key ((others, c) # cs) kv =
     (let kv1 = serveAll others kv
      in case c of
           Delivered \<Rightarrow> (kv1, Some (gr_Value (snd (Get kv1 \<lparr>ga_Key = key\<rparr>))))
         | _ \<Rightarrow> clerkGet key cs (fst (Get kv1 \<lparr>ga_Key = key\<rparr>)))"

subsection \<open>Every request takes effect once\<close>

text \<open>The table of sequence numbers and the effect of a request on the data alone.\<close>

definition seqTable :: "KVServer \<Rightarrow> int seqs" where
  "seqTable kv = (\<lambda>c. map_option lo_seq (dedup kv c))"

definition requestEffect :: "request \<Rightarrow> (string \<rightharpoonup> string) \<Rightarrow> (string \<rightharpoonup> string)" where
  "requestEffect r d = d(pa_Key (snd r) \<mapsto>
     (if fst r then pa_Value (snd r) else readMap d (pa_Key (snd r)) @ pa_Value (snd r)))"

lemma serve_cases:
  assumes "duplicate (seqTable kv) (pa_ClientId (snd r)) (pa_Seq (snd r)) = b"
  shows "data (fst (serve r kv)) = (if b then data kv else requestEffect r (data kv))"
    and "dedup (fst (serve r kv)) = (if b then dedup kv else (dedup kv)(pa_ClientId (snd r) \<mapsto>
           \<lparr>lo_seq = pa_Seq (snd r), lo_reply = (if fst r then '''' else readMap (data kv) (pa_Key (snd r)))\<rparr>))"
    and "b \<Longrightarrow> fst (serve r kv) = kv"
  using assms by (auto simp: duplicate_def seqTable_def serve_def Put_def Append_def requestEffect_def Let_def
      split: option.splits if_splits)

interpretation srv: exactly_once "\<lambda>r kv. fst (serve r kv)" data seqTable requestEffect "\<lambda>_. True"
  "\<lambda>r. pa_ClientId (snd r)" "\<lambda>r. pa_Seq (snd r)"
proof
  fix r :: request and kv
  show "data (fst (serve r kv)) = requestEffect r (data kv) \<and>
      seqTable (fst (serve r kv)) = (seqTable kv)(pa_ClientId (snd r) \<mapsto> pa_Seq (snd r))"
    if "\<not> duplicate (seqTable kv) (pa_ClientId (snd r)) (pa_Seq (snd r))"
    using serve_cases(1,2) [of kv r False] that by (auto simp: seqTable_def fun_eq_iff)
  show "data (fst (serve r kv)) = data kv \<and> seqTable (fst (serve r kv)) = seqTable kv"
    if "duplicate (seqTable kv) (pa_ClientId (snd r)) (pa_Seq (snd r))"
    using serve_cases(3) [of kv r True] that by simp
qed simp

lemma serveAll_fold: "data (serveAll rs kv) = data (fold (\<lambda>r kv. fst (serve r kv)) rs kv)"
  by (simp add: serveAll_def)

text \<open>Requests of other clerks leave a clerk's entry of the table alone.\<close>

lemma serveAll_dedup_other:
  "list_all (\<lambda>r. pa_ClientId (snd r) \<noteq> c) rs \<Longrightarrow> dedup (serveAll rs kv) c = dedup kv c"
proof (induction rs arbitrary: kv)
  case (Cons r rs)
  then have "dedup (fst (serve r kv)) c = dedup kv c" using serve_cases(2) [of kv r] by simp
  with Cons show ?case by (simp add: serveAll_def)
qed (simp add: serveAll_def)

text \<open>What the clerk's request is answered once it has been carried out.\<close>

definition answered :: "request \<Rightarrow> string \<Rightarrow> KVServer \<Rightarrow> bool" where
  "answered r v kv \<longleftrightarrow> dedup kv (pa_ClientId (snd r)) = Some \<lparr>lo_seq = pa_Seq (snd r), lo_reply = v\<rparr>"

lemma serve_answered:
  assumes "answered r v kv"
  shows "fst (serve r kv) = kv" and "par_Value (snd (serve r kv)) = (if fst r then '''' else v)"
  using assms by (auto simp: answered_def serve_def Put_def Append_def Let_def)

lemma serve_fresh:
  assumes "\<not> duplicate (seqTable kv) (pa_ClientId (snd r)) (pa_Seq (snd r))"
  shows "data (fst (serve r kv)) = requestEffect r (data kv)"
    and "answered r (if fst r then '''' else readMap (data kv) (pa_Key (snd r))) (fst (serve r kv))"
    and "par_Value (snd (serve r kv)) = (if fst r then '''' else readMap (data kv) (pa_Key (snd r)))"
  using assms by (auto simp: duplicate_def seqTable_def serve_def Put_def Append_def requestEffect_def
      answered_def Let_def split: option.splits)

definition othersOnly :: "int \<Rightarrow> (request list \<times> call) list \<Rightarrow> bool" where
  "othersOnly c cs \<longleftrightarrow> list_all (\<lambda>(rs, _). list_all (\<lambda>r. pa_ClientId (snd r) \<noteq> c) rs) cs"

text \<open>
  The schedule up to the first attempt that reaches the server, the attempt, and the requests
  of the others after it, up to the attempt that returns.
\<close>

fun before_first :: "(request list \<times> call) list \<Rightarrow> request list" where
  "before_first [] = []"
| "before_first ((rs, c) # cs) = rs @ (if c = DropRequest then before_first cs else [])"

fun after_first :: "(request list \<times> call) list \<Rightarrow> request list" where
  "after_first [] = []"
| "after_first ((rs, c) # cs) =
     (case c of DropRequest \<Rightarrow> after_first cs
      | DropReply \<Rightarrow> concat (map fst (takeWhile (\<lambda>(_, c). c \<noteq> Delivered) cs @
                      (case dropWhile (\<lambda>(_, c). c \<noteq> Delivered) cs of [] \<Rightarrow> [] | x # _ \<Rightarrow> [x])))
      | Delivered \<Rightarrow> [])"

lemma serveAll_append: "serveAll (xs @ ys) kv = serveAll ys (serveAll xs kv)"
  by (simp add: serveAll_def)

lemma answered_others:
  "list_all (\<lambda>r'. pa_ClientId (snd r') \<noteq> pa_ClientId (snd r)) rs \<Longrightarrow> answered r v kv \<Longrightarrow> answered r v (serveAll rs kv)"
  by (simp add: answered_def serveAll_dedup_other)

lemma callLoop_answered:
  assumes "answered r v kv" and "othersOnly (pa_ClientId (snd r)) cs" and "\<exists>x \<in> set cs. snd x = Delivered"
  shows "callLoop r cs kv = (serveAll (concat (map fst (takeWhile (\<lambda>(_, c). c \<noteq> Delivered) cs @
      (case dropWhile (\<lambda>(_, c). c \<noteq> Delivered) cs of [] \<Rightarrow> [] | x # _ \<Rightarrow> [x])))) kv,
      Some (if fst r then '''' else v))"
  using assms
proof (induction cs arbitrary: kv)
  case (Cons x cs)
  obtain rs c where x: "x = (rs, c)" by (cases x)
  have ans: "answered r v (serveAll rs kv)" using Cons.prems(1,2) x by (simp add: answered_others othersOnly_def)
  show ?case
  proof (cases "c = Delivered")
    case True
    then show ?thesis using serve_answered [OF ans] x by (simp add: Let_def)
  next
    case False
    have "callLoop r (x # cs) kv = callLoop r cs (serveAll rs kv)"
      using False serve_answered(1) [OF ans] x by (cases c) (simp_all add: Let_def)
    with Cons.IH [OF ans] Cons.prems(2,3) False x show ?thesis by (simp add: serveAll_append othersOnly_def)
  qed
qed simp

lemma callLoop_once:
  assumes "\<not> duplicate (seqTable kv) (pa_ClientId (snd r)) (pa_Seq (snd r))"
    and "othersOnly (pa_ClientId (snd r)) cs" and "\<exists>x \<in> set cs. snd x = Delivered"
  shows "callLoop r cs kv =
    (let kv1 = serveAll (before_first cs) kv
     in (serveAll (after_first cs) (fst (serve r kv1)),
         Some (if fst r then '''' else readMap (data kv1) (pa_Key (snd r)))))"
  using assms
proof (induction cs arbitrary: kv)
  case (Cons x cs)
  obtain rs c where x: "x = (rs, c)" by (cases x)
  let ?kv1 = "serveAll rs kv"
  have nd: "\<not> duplicate (seqTable ?kv1) (pa_ClientId (snd r)) (pa_Seq (snd r))"
    using Cons.prems(1,2) x serveAll_dedup_other [of "pa_ClientId (snd r)" rs kv]
    by (simp add: duplicate_def seqTable_def othersOnly_def)
  note f = serve_fresh [OF nd]
  have oth: "othersOnly (pa_ClientId (snd r)) cs" using Cons.prems(2) by (simp add: othersOnly_def)
  show ?case
  proof (cases c)
    case DropRequest
    then show ?thesis using Cons.IH [OF nd oth] Cons.prems(3) x by (simp add: Let_def serveAll_append)
  next
    case DropReply
    then show ?thesis
      using callLoop_answered [OF f(2) oth] Cons.prems(3) x by (simp add: Let_def)
  next
    case Delivered
    then show ?thesis using f(3) x by (simp add: Let_def serveAll_def)
  qed
qed simp

subsection \<open>Properties\<close>

text \<open>
  (C10) Each Put and Append takes effect once. Whatever repetitions the network makes of the
  requests, if every clerk numbers its requests in the order of their first arrival, the store
  is the one that results from the requests without their repetitions.
\<close>

theorem kvsrv_exactly_once:
  assumes "in_order (\<lambda>r. pa_ClientId (snd r)) (\<lambda>r. pa_Seq (snd r)) {} rs"
  shows "data (serveAll rs StartKVServer) = fold requestEffect (first_of {} rs) Map.empty"
proof -
  have "seqTable StartKVServer = Map.empty" by (simp add: seqTable_def StartKVServer_def)
  then show ?thesis
    using srv.once [of rs StartKVServer] assms by (simp add: serveAll_def list_all_iff StartKVServer_def)
qed

definition appendReq :: "int \<Rightarrow> int \<Rightarrow> string \<Rightarrow> request" where
  "appendReq c s v = (False, \<lparr>pa_Key = ''k'', pa_Value = v, pa_ClientId = c, pa_Seq = s\<rparr>)"

theorem kvsrv_exactly_once_witness:
  "data (serveAll [appendReq 1 1 ''a'', appendReq 2 1 ''b'', appendReq 1 1 ''a'', appendReq 1 2 ''c'',
     appendReq 2 1 ''b''] StartKVServer) ''k'' = Some ''abc''"
proof -
  have "in_order (\<lambda>r. pa_ClientId (snd r)) (\<lambda>r. pa_Seq (snd r)) {} [appendReq 1 1 ''a'', appendReq 2 1 ''b'',
     appendReq 1 1 ''a'', appendReq 1 2 ''c'', appendReq 2 1 ''b'']"
    by (simp add: appendReq_def)
  from kvsrv_exactly_once [OF this] show ?thesis
    by (simp add: appendReq_def requestEffect_def readMap_def)
qed

text \<open>
  (C11) A clerk's Append over a network that loses requests and replies. If some attempt of the
  clerk returns, the operation has been carried out exactly once, at the first attempt that
  reached the server: the store is the one that the requests of the other clerks before that
  attempt, the operation, and their requests after it give, and the clerk returns the value the
  key had just before the operation, no matter which later attempt is answered.
\<close>

theorem clerk_append_once:
  assumes "\<forall>l. dedup kv (ck_clientId ck) = Some l \<longrightarrow> lo_seq l \<le> ck_seq ck"
    and "othersOnly (ck_clientId ck) cs" and "Delivered \<in> set (map snd cs)"
    and "kv1 = serveAll (before_first cs) kv"
    and "r = (isPut, \<lparr>pa_Key = key, pa_Value = value, pa_ClientId = ck_clientId ck, pa_Seq = ck_seq ck + 1\<rparr>)"
  shows "clerkPutAppend ck key value isPut cs kv =
    (ck\<lparr>ck_seq := ck_seq ck + 1\<rparr>, serveAll (after_first cs) (fst (serve r kv1)),
     Some (if isPut then '''' else readMap (data kv1) key)) \<and>
    data (fst (serve r kv1)) = requestEffect r (data kv1)"
proof -
  have nd: "\<not> duplicate (seqTable kv) (pa_ClientId (snd r)) (pa_Seq (snd r))"
    using assms(1,5) by (auto simp: duplicate_def seqTable_def split: option.splits)
  have "list_all (\<lambda>r. pa_ClientId (snd r) \<noteq> ck_clientId ck) (before_first cs)"
    using assms(2) by (induction cs rule: before_first.induct) (auto simp: othersOnly_def)
  then have nd1: "\<not> duplicate (seqTable kv1) (pa_ClientId (snd r)) (pa_Seq (snd r))"
    using nd serveAll_dedup_other assms(4,5) by (simp add: duplicate_def seqTable_def)
  have del: "\<exists>x \<in> set cs. snd x = Delivered" using assms(3) by force
  show ?thesis
    using callLoop_once [OF nd _ del] assms(2,4,5) serve_fresh(1) [OF nd1]
    by (simp add: clerkPutAppend_def nextSeq_def Let_def)
qed

definition lossy :: "(request list \<times> call) list" where
  "lossy = [([], DropRequest), ([appendReq 2 1 ''b''], DropReply), ([appendReq 2 2 ''d''], DropReply), ([], Delivered)]"

theorem clerk_append_once_witness:
  "snd (snd (clerkPutAppend (MakeClerk 1) ''k'' ''a'' False lossy StartKVServer)) = Some ''b'' \<and>
   data (fst (snd (clerkPutAppend (MakeClerk 1) ''k'' ''a'' False lossy StartKVServer))) ''k'' = Some ''bad''"
proof -
  let ?r = "(False, \<lparr>pa_Key = ''k'', pa_Value = ''a'', pa_ClientId = 1, pa_Seq = 1\<rparr>)"
  have l: "before_first lossy = [appendReq 2 1 ''b'']" "after_first lossy = [appendReq 2 2 ''d'']"
    by (simp_all add: lossy_def)
  have "othersOnly 1 lossy" "Delivered \<in> set (map snd lossy)"
    by (simp_all add: lossy_def othersOnly_def appendReq_def)
  then show ?thesis
    using clerk_append_once [of StartKVServer "MakeClerk 1" lossy _ ?r False "''k''" "''a''", OF _ _ _ refl]
    by (simp add: MakeClerk_def StartKVServer_def l serveAll_def serve_def Append_def appendReq_def readMap_def
        Let_def requestEffect_def)
qed

end
