(* ===== verification/Persister.thy ===== *)
theory Persister
  imports Prelude
begin

section \<open>Stable storage and encoded buffers\<close>

text \<open>
  \<^verbatim>\<open>raft/persister.go\<close>: the object that survives a crash, with its two byte slices, and
  the buffers that \<^verbatim>\<open>labgob\<close> encoders write and decoders read.

  A buffer is the sequence of the values encoded into it: \<^verbatim>\<open>Encode\<close> appends one value,
  \<^verbatim>\<open>Decode\<close> takes the first one and fails if the buffer is empty or the value is not
  of the type of the variable decoded into. The type of a value in a buffer is a parameter
  of each component. How many bytes a value takes on the wire is the parameter \<open>sz\<close> of
  \<open>RaftStateSize\<close> and \<open>SnapshotSize\<close>; nothing else depends on the bytes.

  The mutex of the Go type makes each method atomic; \<^verbatim>\<open>clone\<close> copies a slice, which is
  the identity on values.
\<close>

record ('r, 'd) Persister =
  raftstate :: "'r list"
  snapshot :: "'d list"

definition MakePersister :: "('r, 'd) Persister" where
  "MakePersister = \<lparr>raftstate = [], snapshot = []\<rparr>"

definition Copy :: "('r, 'd) Persister \<Rightarrow> ('r, 'd) Persister" where
  "Copy ps = MakePersister\<lparr>raftstate := raftstate ps, snapshot := snapshot ps\<rparr>"

definition ReadRaftState :: "('r, 'd) Persister \<Rightarrow> 'r list" where
  "ReadRaftState ps = raftstate ps"

definition RaftStateSize :: "('r \<Rightarrow> nat) \<Rightarrow> ('r, 'd) Persister \<Rightarrow> int" where
  "RaftStateSize sz ps = int (sum_list (map sz (raftstate ps)))"

definition Save :: "('r, 'd) Persister \<Rightarrow> 'r list \<Rightarrow> 'd list \<Rightarrow> ('r, 'd) Persister" where
  "Save ps rs sn = ps\<lparr>raftstate := rs, snapshot := sn\<rparr>"

definition ReadSnapshot :: "('r, 'd) Persister \<Rightarrow> 'd list" where
  "ReadSnapshot ps = snapshot ps"

definition SnapshotSize :: "('d \<Rightarrow> nat) \<Rightarrow> ('r, 'd) Persister \<Rightarrow> int" where
  "SnapshotSize sz ps = int (sum_list (map sz (snapshot ps)))"

text \<open>
  What a client of stable storage relies on: both halves are written by one atomic action
  and read back unchanged, also through the copy that a restarted instance is given.
\<close>

locale stable_store =
  fixes save :: "'p \<Rightarrow> 'r list \<Rightarrow> 'd list \<Rightarrow> 'p"
    and read_state :: "'p \<Rightarrow> 'r list" and read_snap :: "'p \<Rightarrow> 'd list"
    and copy_store :: "'p \<Rightarrow> 'p"
  assumes read_state_save: "read_state (save p r d) = r"
    and read_snap_save: "read_snap (save p r d) = d"
    and read_state_copy: "read_state (copy_store p) = read_state p"
    and read_snap_copy: "read_snap (copy_store p) = read_snap p"
begin

lemmas store_laws = read_state_save read_snap_save read_state_copy read_snap_copy

text \<open>Writing back the stored snapshot beside a new state changes the state only.\<close>

lemma save_keeps_snap: "read_snap (save p r (read_snap p)) = read_snap p"
  by (simp add: store_laws)

lemma last_save_wins: "read_state (copy_store (save (save p r d) r' d')) = r'"
  by (simp add: store_laws)

end

interpretation ps: stable_store Save ReadRaftState ReadSnapshot Copy
  by unfold_locales
    (simp_all add: Save_def ReadRaftState_def ReadSnapshot_def Copy_def MakePersister_def)

declare ps.store_laws [simp]

end
