(* ===== verification/RaftNode.thy ===== *)
theory RaftNode
  imports Persister
begin

section \<open>One Raft peer\<close>

text \<open>
  \<^verbatim>\<open>raft/raft.go\<close>, function by function. \<open>'c\<close> is the type of commands and
  \<open>'d\<close> the type of the values of a service's snapshot, which Raft only passes on.

  Every function of the source that holds \<^verbatim>\<open>rf.mu\<close> from its first to its last
  statement is one function on the state of the peer; a function that releases the lock
  around a remote call or a channel send is cut there, and its parts are put together again
  as the steps of the cluster in the theory \<open>RaftCluster\<close>. What a function starts with
  \<^verbatim>\<open>go\<close> is part of its result. A function with an index expression returns an
  \<open>option\<close>, with \<open>None\<close> for the panic of an index out of range.

  A time is a number of nanoseconds; \<open>clock\<close> is the pair of what \<^verbatim>\<open>time.Now()\<close> and
  \<^verbatim>\<open>rand.Int63\<close> return where the function reads them. \<open>applyCond\<close> records that
  the condition variable has been signalled since the applier last began to wait.
\<close>

subsection \<open>Types\<close>

record ('c, 'd) ApplyMsg =
  CommandValid :: bool
  Command :: "'c option"
  CommandIndex :: int
  SnapshotValid :: bool
  Snapshot_data :: "'d list"
  SnapshotTerm :: int
  SnapshotIndex :: int

datatype Role = Follower | Candidate | Leader

type_synonym clock = "int \<times> int"

definition millisecond :: int where
  "millisecond = 1000000"

definition electionTimeoutLo :: int where
  "electionTimeoutLo = 300 * millisecond"

definition electionTimeoutHi :: int where
  "electionTimeoutHi = 600 * millisecond"

record 'c LogEntry =
  le_Term :: int
  le_Command :: "'c option"

text \<open>The values that \<^verbatim>\<open>encodeState\<close> writes: integers and the log.\<close>

datatype 'c gobval = GobInt int | GobLog "'c LogEntry list"

record ('c, 'd) Raft =
  peers :: nat
  persister :: "('c gobval, 'd) Persister"
  me :: nat
  dead :: bool
  currentTerm :: int
  votedFor :: int
  log :: "'c LogEntry list"
  lastIncludedIndex :: int
  lastIncludedTerm :: int
  commitIndex :: int
  lastApplied :: int
  role :: Role
  nextIndex :: "int list"
  matchIndex :: "int list"
  electionResetAt :: int
  electionTimeout :: int
  applyCond :: bool

definition dummyEntry :: "int \<Rightarrow> 'c LogEntry" where
  "dummyEntry t = \<lparr>le_Term = t, le_Command = None\<rparr>"

subsection \<open>Log index helpers\<close>

definition lastLogIndex :: "('c, 'd) Raft \<Rightarrow> int" where
  "lastLogIndex rf = lastIncludedIndex rf + int (length (log rf)) - 1"

definition entryAt :: "('c, 'd) Raft \<Rightarrow> int \<Rightarrow> 'c LogEntry option" where
  "entryAt rf idx = slice_get (log rf) (idx - lastIncludedIndex rf)"

definition termAt :: "('c, 'd) Raft \<Rightarrow> int \<Rightarrow> int option" where
  "termAt rf idx = map_option le_Term (slice_get (log rf) (idx - lastIncludedIndex rf))"

definition GetState :: "('c, 'd) Raft \<Rightarrow> int \<times> bool" where
  "GetState rf = (currentTerm rf, role rf = Leader)"

definition HasCurrentTermLog :: "('c, 'd) Raft \<Rightarrow> bool option" where
  "HasCurrentTermLog rf = do {
     t \<leftarrow> termAt rf (lastLogIndex rf);
     Some (t = currentTerm rf)
   }"

subsection \<open>Persistence\<close>

definition encodeState :: "('c, 'd) Raft \<Rightarrow> 'c gobval list" where
  "encodeState rf =
     [GobInt (currentTerm rf), GobInt (votedFor rf), GobLog (log rf),
      GobInt (lastIncludedIndex rf), GobInt (lastIncludedTerm rf)]"

definition persist :: "('c, 'd) Raft \<Rightarrow> ('c, 'd) Raft" where
  "persist rf =
     rf\<lparr>persister := Save (persister rf) (encodeState rf) (ReadSnapshot (persister rf))\<rparr>"

fun decodeInt :: "'c gobval list \<Rightarrow> (int \<times> 'c gobval list) option" where
  "decodeInt (GobInt i # d) = Some (i, d)"
| "decodeInt _ = None"

fun decodeLog :: "'c gobval list \<Rightarrow> ('c LogEntry list \<times> 'c gobval list) option" where
  "decodeLog (GobLog l # d) = Some (l, d)"
| "decodeLog _ = None"

definition decodeState ::
  "'c gobval list \<Rightarrow> (int \<times> int \<times> 'c LogEntry list \<times> int \<times> int) option" where
  "decodeState d0 = do {
     (ct, d1) \<leftarrow> decodeInt d0;
     (vf, d2) \<leftarrow> decodeInt d1;
     (l, d3) \<leftarrow> decodeLog d2;
     (lii, d4) \<leftarrow> decodeInt d3;
     (lit, d5) \<leftarrow> decodeInt d4;
     Some (ct, vf, l, lii, lit)
   }"

definition readPersist :: "('c, 'd) Raft \<Rightarrow> 'c gobval list \<Rightarrow> ('c, 'd) Raft" where
  "readPersist rf data =
     (if length data < 1 then rf\<lparr>log := [dummyEntry 0]\<rparr>
      else (case decodeState data of
              None \<Rightarrow> rf\<lparr>log := [dummyEntry 0]\<rparr>
            | Some (ct, vf, l, lii, lit) \<Rightarrow>
                rf\<lparr>currentTerm := ct, votedFor := vf, log := l,
                   lastIncludedIndex := lii, lastIncludedTerm := lit,
                   commitIndex := lii, lastApplied := lii\<rparr>))"

definition Snapshot :: "('c, 'd) Raft \<Rightarrow> int \<Rightarrow> 'd list \<Rightarrow> ('c, 'd) Raft option" where
  "Snapshot rf index snap =
     (if index \<le> lastIncludedIndex rf \<or> index > commitIndex rf then Some rf
      else do {
        t \<leftarrow> termAt rf index;
        rest \<leftarrow> slice_from (log rf) (index - lastIncludedIndex rf + 1);
        let rf1 = rf\<lparr>log := dummyEntry t # rest, lastIncludedTerm := t,
                      lastIncludedIndex := index\<rparr>;
        Some (rf1\<lparr>persister := Save (persister rf1) (encodeState rf1) snap\<rparr>)
      })"

subsection \<open>Role transitions and timers\<close>

definition becomeFollower :: "int \<Rightarrow> ('c, 'd) Raft \<Rightarrow> ('c, 'd) Raft" where
  "becomeFollower t rf = persist (rf\<lparr>currentTerm := t, votedFor := -1, role := Follower\<rparr>)"

definition resetElectionTimer :: "clock \<Rightarrow> ('c, 'd) Raft \<Rightarrow> ('c, 'd) Raft" where
  "resetElectionTimer clk rf =
     rf\<lparr>electionResetAt := fst clk,
        electionTimeout := electionTimeoutLo + snd clk mod (electionTimeoutHi - electionTimeoutLo)\<rparr>"

subsection \<open>RequestVote\<close>

record RequestVoteArgs =
  rv_Term :: int
  CandidateId :: int
  LastLogIndex :: int
  LastLogTerm :: int

record RequestVoteReply =
  rvr_Term :: int
  VoteGranted :: bool

definition candidateUpToDate :: "('c, 'd) Raft \<Rightarrow> int \<Rightarrow> int \<Rightarrow> bool option" where
  "candidateUpToDate rf lastIndex lastTerm = do {
     let myIndex = lastLogIndex rf;
     myTerm \<leftarrow> termAt rf myIndex;
     Some (if lastTerm \<noteq> myTerm then lastTerm > myTerm else lastIndex \<ge> myIndex)
   }"

definition RequestVote ::
  "clock \<Rightarrow> ('c, 'd) Raft \<Rightarrow> RequestVoteArgs \<Rightarrow> (('c, 'd) Raft \<times> RequestVoteReply) option" where
  "RequestVote clk rf args =
     (if rv_Term args < currentTerm rf
      then Some (rf, \<lparr>rvr_Term = currentTerm rf, VoteGranted = False\<rparr>)
      else do {
        let rf1 = (if rv_Term args > currentTerm rf then becomeFollower (rv_Term args) rf else rf);
        upToDate \<leftarrow> candidateUpToDate rf1 (LastLogIndex args) (LastLogTerm args);
        if (votedFor rf1 = -1 \<or> votedFor rf1 = CandidateId args) \<and> upToDate
        then Some (persist (resetElectionTimer clk (rf1\<lparr>votedFor := CandidateId args\<rparr>)),
                   \<lparr>rvr_Term = currentTerm rf1, VoteGranted = True\<rparr>)
        else Some (rf1, \<lparr>rvr_Term = currentTerm rf1, VoteGranted = False\<rparr>)
      })"

subsection \<open>AppendEntries\<close>

record 'c AppendEntriesArgs =
  ae_Term :: int
  ae_LeaderId :: int
  PrevLogIndex :: int
  PrevLogTerm :: int
  Entries :: "'c LogEntry list"
  LeaderCommit :: int

record AppendEntriesReply =
  aer_Term :: int
  Success :: bool
  ConflictTerm :: int
  ConflictIndex :: int

text \<open>
  The loop \<^verbatim>\<open>for i > rf.lastIncludedIndex && rf.termAt(i-1) == t { i-- }\<close>.
\<close>

function conflictStart :: "('c, 'd) Raft \<Rightarrow> int \<Rightarrow> int \<Rightarrow> int option" where
  "conflictStart rf t i =
     (if i > lastIncludedIndex rf
      then do {
        u \<leftarrow> termAt rf (i - 1);
        if u = t then conflictStart rf t (i - 1) else Some i
      }
      else Some i)"
  by pat_completeness auto
termination
  by (relation "measure (\<lambda>(rf, t, i). nat (i - lastIncludedIndex rf))") auto

text \<open>
  The loop over \<^verbatim>\<open>args.Entries\<close>: \<open>idx\<close> is the absolute index of the first entry
  of the rest. Entries that are there already are skipped; at the first one that is not,
  the log is cut and everything from there is appended.
\<close>

fun appendLoop :: "('c, 'd) Raft \<Rightarrow> int \<Rightarrow> 'c LogEntry list \<Rightarrow> ('c, 'd) Raft option" where
  "appendLoop rf idx [] = Some rf"
| "appendLoop rf idx (e # es) =
     (if idx \<le> lastLogIndex rf
      then do {
        t \<leftarrow> termAt rf idx;
        if t = le_Term e then appendLoop rf (idx + 1) es
        else do {
          l \<leftarrow> slice_upto (log rf) (idx - lastIncludedIndex rf);
          Some (rf\<lparr>log := l @ e # es\<rparr>)
        }
      }
      else Some (rf\<lparr>log := log rf @ e # es\<rparr>))"

definition AppendEntries_accept ::
  "('c, 'd) Raft \<Rightarrow> 'c AppendEntriesArgs \<Rightarrow> AppendEntriesReply \<Rightarrow>
   (('c, 'd) Raft \<times> AppendEntriesReply) option" where
  "AppendEntries_accept rf args reply = do {
     rf1 \<leftarrow> appendLoop rf (PrevLogIndex args + 1) (Entries args);
     let rf2 = persist rf1;
     let rf3 = (if LeaderCommit args > commitIndex rf2
                then rf2\<lparr>commitIndex := min (LeaderCommit args) (lastLogIndex rf2),
                         applyCond := True\<rparr>
                else rf2);
     Some (rf3, reply\<lparr>Success := True\<rparr>)
   }"

definition AppendEntries_check ::
  "('c, 'd) Raft \<Rightarrow> 'c AppendEntriesArgs \<Rightarrow> AppendEntriesReply \<Rightarrow>
   (('c, 'd) Raft \<times> AppendEntriesReply) option" where
  "AppendEntries_check rf args reply =
     (if PrevLogIndex args > lastLogIndex rf
      then Some (rf, reply\<lparr>ConflictIndex := lastLogIndex rf + 1, ConflictTerm := -1\<rparr>)
      else do {
        t \<leftarrow> termAt rf (PrevLogIndex args);
        if t \<noteq> PrevLogTerm args
        then do {
          i \<leftarrow> conflictStart rf t (PrevLogIndex args);
          Some (rf, reply\<lparr>ConflictTerm := t, ConflictIndex := i\<rparr>)
        }
        else AppendEntries_accept rf args reply
      })"

text \<open>A request that begins inside the snapshot is cut so that it begins at its end.\<close>

definition trimArgs :: "('c, 'd) Raft \<Rightarrow> 'c AppendEntriesArgs \<Rightarrow> 'c AppendEntriesArgs" where
  "trimArgs rf args =
     (let offset = lastIncludedIndex rf - PrevLogIndex args
      in args\<lparr>PrevLogIndex := lastIncludedIndex rf, PrevLogTerm := lastIncludedTerm rf,
              Entries := (if offset \<le> int (length (Entries args))
                          then drop (nat offset) (Entries args) else [])\<rparr>)"

definition AppendEntries ::
  "clock \<Rightarrow> ('c, 'd) Raft \<Rightarrow> 'c AppendEntriesArgs \<Rightarrow>
   (('c, 'd) Raft \<times> AppendEntriesReply) option" where
  "AppendEntries clk rf args =
     (let reply0 = \<lparr>aer_Term = currentTerm rf, Success = False,
                    ConflictTerm = -1, ConflictIndex = -1\<rparr>
      in if ae_Term args < currentTerm rf then Some (rf, reply0)
         else
           let rf1 = (if ae_Term args > currentTerm rf
                      then becomeFollower (ae_Term args) rf else rf);
               reply1 = reply0\<lparr>aer_Term := currentTerm rf1\<rparr>;
               rf2 = resetElectionTimer clk (rf1\<lparr>role := Follower\<rparr>)
           in if PrevLogIndex args < lastIncludedIndex rf2
              then
                let reply2 = reply1\<lparr>ConflictIndex := lastIncludedIndex rf2 + 1, ConflictTerm := -1\<rparr>
                in if PrevLogIndex args + int (length (Entries args)) \<le> lastIncludedIndex rf2
                   then Some (rf2, reply2)
                   else AppendEntries_check rf2 (trimArgs rf2 args) reply2
              else AppendEntries_check rf2 args reply1)"

subsection \<open>InstallSnapshot\<close>

record 'd InstallSnapshotArgs =
  is_Term :: int
  is_LeaderId :: int
  is_LastIncludedIndex :: int
  is_LastIncludedTerm :: int
  is_Data :: "'d list"

record InstallSnapshotReply =
  isr_Term :: int

definition installLog ::
  "('c, 'd) Raft \<Rightarrow> 'd InstallSnapshotArgs \<Rightarrow> 'c LogEntry list option" where
  "installLog rf args =
     (if is_LastIncludedIndex args < lastLogIndex rf
      then do {
        t \<leftarrow> termAt rf (is_LastIncludedIndex args);
        if t = is_LastIncludedTerm args
        then do {
          rest \<leftarrow> slice_from (log rf) (is_LastIncludedIndex args - lastIncludedIndex rf + 1);
          Some (dummyEntry (is_LastIncludedTerm args) # rest)
        }
        else Some [dummyEntry (is_LastIncludedTerm args)]
      }
      else Some [dummyEntry (is_LastIncludedTerm args)])"

definition snapshotMsg :: "'d InstallSnapshotArgs \<Rightarrow> ('c, 'd) ApplyMsg" where
  "snapshotMsg args =
     \<lparr>CommandValid = False, Command = None, CommandIndex = 0, SnapshotValid = True,
      Snapshot_data = is_Data args, SnapshotTerm = is_LastIncludedTerm args,
      SnapshotIndex = is_LastIncludedIndex args\<rparr>"

text \<open>
  The part of the handler that holds the lock. The third component of the result is the
  message that the handler sends on \<^verbatim>\<open>applyCh\<close> after it has released the lock.
\<close>

definition InstallSnapshot ::
  "clock \<Rightarrow> ('c, 'd) Raft \<Rightarrow> 'd InstallSnapshotArgs \<Rightarrow>
   (('c, 'd) Raft \<times> InstallSnapshotReply \<times> ('c, 'd) ApplyMsg option) option" where
  "InstallSnapshot clk rf args =
     (if is_Term args < currentTerm rf then Some (rf, \<lparr>isr_Term = currentTerm rf\<rparr>, None)
      else
        let rf1 = (if is_Term args > currentTerm rf then becomeFollower (is_Term args) rf else rf);
            reply = \<lparr>isr_Term = currentTerm rf1\<rparr>;
            rf2 = resetElectionTimer clk (rf1\<lparr>role := Follower\<rparr>)
        in if is_LastIncludedIndex args \<le> lastIncludedIndex rf2 then Some (rf2, reply, None)
           else do {
             l \<leftarrow> installLog rf2 args;
             let rf3 = rf2\<lparr>log := l, lastIncludedIndex := is_LastIncludedIndex args,
                           lastIncludedTerm := is_LastIncludedTerm args\<rparr>;
             let rf4 = rf3\<lparr>commitIndex := (if commitIndex rf3 < is_LastIncludedIndex args
                                           then is_LastIncludedIndex args else commitIndex rf3),
                           lastApplied := (if lastApplied rf3 < is_LastIncludedIndex args
                                           then is_LastIncludedIndex args else lastApplied rf3)\<rparr>;
             let rf5 = rf4\<lparr>persister := Save (persister rf4) (encodeState rf4) (is_Data args)\<rparr>;
             Some (rf5, reply, Some (snapshotMsg args))
           })"

subsection \<open>Start, Kill and the broadcast of entries\<close>

text \<open>
  \<^verbatim>\<open>go rf.replicateTo(peer, rf.currentTerm)\<close> for every other peer: the arguments of the
  goroutines that are started.
\<close>

definition broadcastAppendEntries :: "('c, 'd) Raft \<Rightarrow> (nat \<times> int) list" where
  "broadcastAppendEntries rf =
     map (\<lambda>peer. (peer, currentTerm rf)) (filter (\<lambda>peer. peer \<noteq> me rf) [0..<peers rf])"

definition Start ::
  "('c, 'd) Raft \<Rightarrow> 'c \<Rightarrow> ('c, 'd) Raft \<times> (int \<times> int \<times> bool) \<times> (nat \<times> int) list" where
  "Start rf command =
     (if role rf \<noteq> Leader then (rf, (-1, currentTerm rf, False), [])
      else
        let rf1 = rf\<lparr>log := log rf @ [\<lparr>le_Term = currentTerm rf, le_Command = Some command\<rparr>]\<rparr>;
            index = lastLogIndex rf1;
            rf2 = persist rf1
        in (rf2, (index, currentTerm rf2, True), broadcastAppendEntries rf2))"

definition Kill :: "('c, 'd) Raft \<Rightarrow> ('c, 'd) Raft" where
  "Kill rf = rf\<lparr>dead := True\<rparr>"

definition killed :: "('c, 'd) Raft \<Rightarrow> bool" where
  "killed rf \<longleftrightarrow> dead rf"

subsection \<open>Elections\<close>

text \<open>
  The new state, the request that is sent, and the peers it is sent to, one goroutine each.
  The counter \<^verbatim>\<open>votes\<close>, which the goroutines share, starts at 1 (\<open>initialVotes\<close>).
\<close>

definition initialVotes :: int where
  "initialVotes = 1"

definition startElection ::
  "clock \<Rightarrow> ('c, 'd) Raft \<Rightarrow> (('c, 'd) Raft \<times> RequestVoteArgs \<times> nat list) option" where
  "startElection clk rf = do {
     let rf1 = persist (resetElectionTimer clk
                 (rf\<lparr>role := Candidate, currentTerm := currentTerm rf + 1,
                     votedFor := int (me rf)\<rparr>));
     let lastIndex = lastLogIndex rf1;
     lastTerm \<leftarrow> termAt rf1 lastIndex;
     let args = \<lparr>rv_Term = currentTerm rf1, CandidateId = int (me rf1),
                 LastLogIndex = lastIndex, LastLogTerm = lastTerm\<rparr>;
     Some (rf1, args, filter (\<lambda>peer. peer \<noteq> me rf1) [0..<peers rf1])
   }"

text \<open>One iteration of \<^verbatim>\<open>ticker\<close>: \<open>None\<close> in the second component when no election starts.\<close>

definition ticker ::
  "clock \<Rightarrow> ('c, 'd) Raft \<Rightarrow> (('c, 'd) Raft \<times> (RequestVoteArgs \<times> nat list) option) option" where
  "ticker clk rf =
     (if role rf \<noteq> Leader \<and> fst clk - electionResetAt rf \<ge> electionTimeout rf
      then do {
        (rf1, args, ps) \<leftarrow> startElection clk rf;
        Some (rf1, Some (args, ps))
      }
      else Some (rf, None))"

definition becomeLeader :: "('c, 'd) Raft \<Rightarrow> ('c, 'd) Raft \<times> (nat \<times> int) list" where
  "becomeLeader rf =
     (if role rf \<noteq> Candidate then (rf, [])
      else
        let rf1 = rf\<lparr>role := Leader,
                     nextIndex := replicate (peers rf) (lastLogIndex rf + 1),
                     matchIndex := replicate (peers rf) 0\<rparr>
        in (rf1, broadcastAppendEntries rf1))"

text \<open>
  What the goroutine of \<^verbatim>\<open>startElection\<close> does with the reply: the new state, the new value
  of \<^verbatim>\<open>votes\<close>, the goroutines started.
\<close>

definition voteReply ::
  "('c, 'd) Raft \<Rightarrow> int \<Rightarrow> int \<Rightarrow> RequestVoteReply \<Rightarrow>
   ('c, 'd) Raft \<times> int \<times> (nat \<times> int) list" where
  "voteReply rf term votes reply =
     (if currentTerm rf \<noteq> term \<or> role rf \<noteq> Candidate then (rf, votes, [])
      else if rvr_Term reply > currentTerm rf
      then (becomeFollower (rvr_Term reply) rf, votes, [])
      else if VoteGranted reply
      then (if votes + 1 > int (peers rf div 2)
            then (let (rf1, ts) = becomeLeader rf in (rf1, votes + 1, ts))
            else (rf, votes + 1, []))
      else (rf, votes, []))"

subsection \<open>Replication\<close>

definition heartbeat :: "('c, 'd) Raft \<Rightarrow> (nat \<times> int) list" where
  "heartbeat rf = (if role rf = Leader then broadcastAppendEntries rf else [])"

text \<open>The first part of \<^verbatim>\<open>replicateTo\<close>, up to the remote call: which call is made.\<close>

datatype ('c, 'd) rpc_out =
    NoCall
  | CallInstallSnapshot "'d InstallSnapshotArgs"
  | CallAppendEntries "'c AppendEntriesArgs"

definition replicateTo ::
  "('c, 'd) Raft \<Rightarrow> nat \<Rightarrow> int \<Rightarrow> ('c, 'd) rpc_out option" where
  "replicateTo rf server term =
     (if role rf \<noteq> Leader \<or> currentTerm rf \<noteq> term then Some NoCall
      else do {
        nxt \<leftarrow> slice_get (nextIndex rf) (int server);
        if nxt \<le> lastIncludedIndex rf
        then Some (CallInstallSnapshot
               \<lparr>is_Term = currentTerm rf, is_LeaderId = int (me rf),
                is_LastIncludedIndex = lastIncludedIndex rf,
                is_LastIncludedTerm = lastIncludedTerm rf,
                is_Data = ReadSnapshot (persister rf)\<rparr>)
        else do {
          let prevIndex = nxt - 1;
          prevTerm \<leftarrow> termAt rf prevIndex;
          entries \<leftarrow> (if lastLogIndex rf - prevIndex < 0 then None
                     else slice_from (log rf) (prevIndex - lastIncludedIndex rf + 1));
          Some (CallAppendEntries
            \<lparr>ae_Term = currentTerm rf, ae_LeaderId = int (me rf), PrevLogIndex = prevIndex,
             PrevLogTerm = prevTerm, Entries = entries, LeaderCommit = commitIndex rf\<rparr>)
        }
      })"

definition installReply ::
  "('c, 'd) Raft \<Rightarrow> nat \<Rightarrow> int \<Rightarrow> 'd InstallSnapshotArgs \<Rightarrow> InstallSnapshotReply \<Rightarrow>
   ('c, 'd) Raft option" where
  "installReply rf server term args reply =
     (if role rf \<noteq> Leader \<or> currentTerm rf \<noteq> term then Some rf
      else if isr_Term reply > currentTerm rf then Some (becomeFollower (isr_Term reply) rf)
      else do {
        m \<leftarrow> slice_get (matchIndex rf) (int server);
        let m' = max m (is_LastIncludedIndex args);
        mi \<leftarrow> slice_set (matchIndex rf) (int server) m';
        ni \<leftarrow> slice_set (nextIndex rf) (int server) (m' + 1);
        Some (rf\<lparr>matchIndex := mi, nextIndex := ni\<rparr>)
      })"

text \<open>The peers that hold index \<open>n\<close>, this one included, as \<^verbatim>\<open>advanceCommit\<close> counts them.\<close>

definition replicaCount :: "('c, 'd) Raft \<Rightarrow> int \<Rightarrow> int option" where
  "replicaCount rf n =
     (if list_all (\<lambda>peer. peer = me rf \<or> peer < length (matchIndex rf)) [0..<peers rf]
      then Some (1 + int (length (filter (\<lambda>peer. peer \<noteq> me rf \<and> matchIndex rf ! peer \<ge> n)
                                   [0..<peers rf])))
      else None)"

function advanceLoop :: "('c, 'd) Raft \<Rightarrow> int \<Rightarrow> ('c, 'd) Raft option" where
  "advanceLoop rf n =
     (if n > commitIndex rf
      then do {
        t \<leftarrow> termAt rf n;
        if t \<noteq> currentTerm rf then advanceLoop rf (n - 1)
        else do {
          count \<leftarrow> replicaCount rf n;
          if count > int (peers rf div 2)
          then Some (rf\<lparr>commitIndex := n, applyCond := True\<rparr>)
          else advanceLoop rf (n - 1)
        }
      }
      else Some rf)"
  by pat_completeness auto
termination
  by (relation "measure (\<lambda>(rf, n). nat (n - commitIndex rf))") auto

definition advanceCommit :: "('c, 'd) Raft \<Rightarrow> ('c, 'd) Raft option" where
  "advanceCommit rf = advanceLoop rf (lastLogIndex rf)"

text \<open>The last index of \<open>t\<close> in the log after the snapshot, from \<open>i\<close> downwards, or -1.\<close>

function lastOfTerm :: "('c, 'd) Raft \<Rightarrow> int \<Rightarrow> int \<Rightarrow> int option" where
  "lastOfTerm rf t i =
     (if i > lastIncludedIndex rf
      then do {
        u \<leftarrow> termAt rf i;
        if u = t then Some i else lastOfTerm rf t (i - 1)
      }
      else Some (-1))"
  by pat_completeness auto
termination
  by (relation "measure (\<lambda>(rf, t, i). nat (i - lastIncludedIndex rf))") auto

definition backUp ::
  "('c, 'd) Raft \<Rightarrow> nat \<Rightarrow> AppendEntriesReply \<Rightarrow> ('c, 'd) Raft option" where
  "backUp rf server reply = do {
     ni1 \<leftarrow> (if ConflictTerm reply = -1
             then (if ConflictIndex reply > 0
                   then slice_set (nextIndex rf) (int server) (ConflictIndex reply)
                   else Some (nextIndex rf))
             else do {
               l \<leftarrow> lastOfTerm rf (ConflictTerm reply) (lastLogIndex rf);
               if l \<ge> 0 then slice_set (nextIndex rf) (int server) (l + 1)
               else slice_set (nextIndex rf) (int server) (ConflictIndex reply)
             });
     n \<leftarrow> slice_get ni1 (int server);
     ni2 \<leftarrow> (if n < 1 then slice_set ni1 (int server) 1 else Some ni1);
     Some (rf\<lparr>nextIndex := ni2\<rparr>)
   }"

definition appendReply ::
  "('c, 'd) Raft \<Rightarrow> nat \<Rightarrow> int \<Rightarrow> 'c AppendEntriesArgs \<Rightarrow> AppendEntriesReply \<Rightarrow>
   ('c, 'd) Raft option" where
  "appendReply rf server term args reply =
     (if role rf \<noteq> Leader \<or> currentTerm rf \<noteq> term then Some rf
      else if aer_Term reply > currentTerm rf then Some (becomeFollower (aer_Term reply) rf)
      else if Success reply
      then do {
        let newMatch = PrevLogIndex args + int (length (Entries args));
        m \<leftarrow> slice_get (matchIndex rf) (int server);
        rf1 \<leftarrow> (if newMatch > m
                then do {
                  mi \<leftarrow> slice_set (matchIndex rf) (int server) newMatch;
                  ni \<leftarrow> slice_set (nextIndex rf) (int server) (newMatch + 1);
                  Some (rf\<lparr>matchIndex := mi, nextIndex := ni\<rparr>)
                }
                else Some rf);
        advanceCommit rf1
      }
      else backUp rf server reply)"

subsection \<open>The applier\<close>

datatype ('c, 'd) apply_out = Deliver "('c, 'd) ApplyMsg" | Again | Wait

definition commandMsg :: "'c option \<Rightarrow> int \<Rightarrow> ('c, 'd) ApplyMsg" where
  "commandMsg c i =
     \<lparr>CommandValid = True, Command = c, CommandIndex = i, SnapshotValid = False,
      Snapshot_data = [], SnapshotTerm = 0, SnapshotIndex = 0\<rparr>"

text \<open>One iteration of the loop of \<^verbatim>\<open>applier\<close>, up to the send or the wait.\<close>

definition applier ::
  "('c, 'd) Raft \<Rightarrow> (('c, 'd) Raft \<times> ('c, 'd) apply_out) option" where
  "applier rf =
     (if lastApplied rf < commitIndex rf \<and> lastApplied rf \<ge> lastIncludedIndex rf
      then
        let rf1 = rf\<lparr>lastApplied := lastApplied rf + 1\<rparr>
        in if lastApplied rf1 \<le> lastIncludedIndex rf1
           then Some (rf1\<lparr>lastApplied := lastIncludedIndex rf1\<rparr>, Again)
           else do {
             e \<leftarrow> entryAt rf1 (lastApplied rf1);
             Some (rf1, Deliver (commandMsg (le_Command e) (lastApplied rf1)))
           }
      else Some (rf\<lparr>applyCond := False\<rparr>, Wait))"

subsection \<open>Make\<close>

text \<open>The state of a peer that is created from stable storage.\<close>

definition Make :: "clock \<Rightarrow> nat \<Rightarrow> nat \<Rightarrow> ('c gobval, 'd) Persister \<Rightarrow> ('c, 'd) Raft" where
  "Make clk n i ps =
     readPersist
       (resetElectionTimer clk
          \<lparr>peers = n, persister = ps, me = i, dead = False, currentTerm = 0, votedFor = -1,
           log = [], lastIncludedIndex = 0, lastIncludedTerm = 0, commitIndex = 0,
           lastApplied = 0, role = Follower, nextIndex = [], matchIndex = [],
           electionResetAt = 0, electionTimeout = 0, applyCond = False\<rparr>)
       (ReadRaftState ps)"

declare conflictStart.simps [simp del] advanceLoop.simps [simp del] lastOfTerm.simps [simp del]

end
