(* ===== verification/RaftCluster.thy ===== *)
theory RaftCluster
  imports RaftNode
begin

section \<open>A cluster of Raft peers\<close>

text \<open>
  The peers of \<open>RaftNode\<close> put together: what each goroutine of \<^verbatim>\<open>raft.go\<close> does while it
  holds a peer's lock is one step, and the scheduler, the network and the crashes decide
  which step comes next.

  \<^item> A goroutine that \<^verbatim>\<open>startElection\<close> starts for a peer is an entry of \<open>el_stage\<close> of its
    election: the request is in the network (\<open>VSent\<close>), the reply is (\<open>VAnswered\<close>), or the
    goroutine has ended (\<open>VDone\<close>). The counter they share is \<open>el_votes\<close>.
  \<^item> A goroutine of \<^verbatim>\<open>replicateTo\<close> is an element of \<open>repls\<close>, with the stage it is in.
    \<open>InstallHandled\<close> is the moment when the handler \<^verbatim>\<open>InstallSnapshot\<close> has released
    the lock of the follower and waits to send its message on \<^verbatim>\<open>applyCh\<close>.
  \<^item> The network (\<^verbatim>\<open>labrpc\<close>) hands a request to its server at most once and a reply to
    its caller at most once; it may delay, reorder or lose either
    (\<open>vote_lost\<close>, \<open>repl_lost\<close>).
  \<^item> A crash replaces a peer by what \<^verbatim>\<open>Make\<close> builds from a copy of its stable storage,
    as \<^verbatim>\<open>crash1\<close> and \<^verbatim>\<open>start1\<close> of \<^verbatim>\<open>raft/config.go\<close> do. \<open>epoch\<close> counts the
    restarts of a peer, so that a goroutine of an earlier instance no longer acts on the
    new one; a request it has sent may still arrive.
  \<^item> \<open>sending i\<close> is the message that the applier of peer \<open>i\<close> is about to send,
    \<open>delivered i\<close> what the service of the present instance has received from
    \<^verbatim>\<open>applyCh\<close>, in order.
\<close>

datatype vote_stage = VSent | VAnswered RequestVoteReply | VDone

record election =
  el_caller :: nat
  el_epoch :: nat
  el_args :: RequestVoteArgs
  el_votes :: int
  el_stage :: "nat \<Rightarrow> vote_stage"

datatype ('c, 'd) repl_stage =
    Spawned
  | AppendSent "'c AppendEntriesArgs"
  | AppendAnswered "'c AppendEntriesArgs" AppendEntriesReply
  | InstallSent "'d InstallSnapshotArgs"
  | InstallHandled "'d InstallSnapshotArgs" InstallSnapshotReply "('c, 'd) ApplyMsg" nat
  | InstallAnswered "'d InstallSnapshotArgs" InstallSnapshotReply
  | ReplDone

record ('c, 'd) repl =
  rp_caller :: nat
  rp_epoch :: nat
  rp_server :: nat
  rp_term :: int
  rp_stage :: "('c, 'd) repl_stage"

record ('c, 'd) cluster =
  nodes :: "nat \<Rightarrow> ('c, 'd) Raft"
  epoch :: "nat \<Rightarrow> nat"
  elections :: "election list"
  repls :: "('c, 'd) repl list"
  sending :: "nat \<Rightarrow> ('c, 'd) ApplyMsg option"
  delivered :: "nat \<Rightarrow> ('c, 'd) ApplyMsg list"

definition newElection :: "nat \<Rightarrow> nat \<Rightarrow> RequestVoteArgs \<Rightarrow> nat list \<Rightarrow> election" where
  "newElection i ep args ps =
     \<lparr>el_caller = i, el_epoch = ep, el_args = args, el_votes = initialVotes,
      el_stage = (\<lambda>p. if p \<in> set ps then VSent else VDone)\<rparr>"

definition spawn :: "nat \<Rightarrow> nat \<Rightarrow> (nat \<times> int) list \<Rightarrow> ('c, 'd) repl list" where
  "spawn i ep ts =
     map (\<lambda>(server, term). \<lparr>rp_caller = i, rp_epoch = ep, rp_server = server, rp_term = term,
                            rp_stage = Spawned\<rparr>) ts"

definition setStage :: "election \<Rightarrow> nat \<Rightarrow> vote_stage \<Rightarrow> election" where
  "setStage el p st = el\<lparr>el_stage := (el_stage el)(p := st)\<rparr>"

definition setNode :: "('c, 'd) cluster \<Rightarrow> nat \<Rightarrow> ('c, 'd) Raft \<Rightarrow> ('c, 'd) cluster" where
  "setNode s i rf = s\<lparr>nodes := (nodes s)(i := rf)\<rparr>"

definition setElection :: "('c, 'd) cluster \<Rightarrow> nat \<Rightarrow> election \<Rightarrow> ('c, 'd) cluster" where
  "setElection s e el = s\<lparr>elections := (elections s)[e := el]\<rparr>"

definition setRepl :: "('c, 'd) cluster \<Rightarrow> nat \<Rightarrow> ('c, 'd) repl_stage \<Rightarrow> ('c, 'd) cluster" where
  "setRepl s k st = s\<lparr>repls := (repls s)[k := (repls s ! k)\<lparr>rp_stage := st\<rparr>]\<rparr>"

definition addRepls :: "('c, 'd) cluster \<Rightarrow> nat \<Rightarrow> (nat \<times> int) list \<Rightarrow> ('c, 'd) cluster" where
  "addRepls s i ts = s\<lparr>repls := repls s @ spawn i (epoch s i) ts\<rparr>"

definition deliver :: "('c, 'd) cluster \<Rightarrow> nat \<Rightarrow> ('c, 'd) ApplyMsg \<Rightarrow> ('c, 'd) cluster" where
  "deliver s i m = s\<lparr>delivered := (delivered s)(i := delivered s i @ [m])\<rparr>"

definition outStage :: "('c, 'd) rpc_out \<Rightarrow> ('c, 'd) repl_stage" where
  "outStage out = (case out of NoCall \<Rightarrow> ReplDone | CallInstallSnapshot args \<Rightarrow> InstallSent args
                   | CallAppendEntries args \<Rightarrow> AppendSent args)"

definition clusterInit :: "nat \<Rightarrow> ('c, 'd) cluster \<Rightarrow> bool" where
  "clusterInit n s \<longleftrightarrow>
     (\<exists>clk. nodes s = (\<lambda>i. Make (clk i) n i MakePersister)) \<and>
     elections s = [] \<and> repls s = [] \<and> sending s = (\<lambda>_. None) \<and> delivered s = (\<lambda>_. [])"

inductive clusterStep :: "nat \<Rightarrow> ('c, 'd) cluster \<Rightarrow> ('c, 'd) cluster \<Rightarrow> bool" for n where
  tick: "i < n \<Longrightarrow> \<not> killed (nodes s i) \<Longrightarrow> ticker clk (nodes s i) = Some (rf, Some (args, ps)) \<Longrightarrow>
    clusterStep n s
      ((setNode s i rf)\<lparr>elections := elections s @ [newElection i (epoch s i) args ps]\<rparr>)"
| vote_handle: "e < length (elections s) \<Longrightarrow> el = elections s ! e \<Longrightarrow> p < n \<Longrightarrow>
    el_stage el p = VSent \<Longrightarrow> RequestVote clk (nodes s p) (el_args el) = Some (rf, reply) \<Longrightarrow>
    clusterStep n s (setElection (setNode s p rf) e (setStage el p (VAnswered reply)))"
| vote_lost: "e < length (elections s) \<Longrightarrow> el = elections s ! e \<Longrightarrow>
    clusterStep n s (setElection s e (setStage el p VDone))"
| vote_reply: "e < length (elections s) \<Longrightarrow> el = elections s ! e \<Longrightarrow> i = el_caller el \<Longrightarrow>
    el_epoch el = epoch s i \<Longrightarrow> el_stage el p = VAnswered reply \<Longrightarrow>
    voteReply (nodes s i) (rv_Term (el_args el)) (el_votes el) reply = (rf, votes, ts) \<Longrightarrow>
    clusterStep n s
      (addRepls (setElection (setNode s i rf) e ((setStage el p VDone)\<lparr>el_votes := votes\<rparr>)) i ts)"
| beat: "i < n \<Longrightarrow> \<not> killed (nodes s i) \<Longrightarrow> clusterStep n s (addRepls s i (heartbeat (nodes s i)))"
| start_cmd: "i < n \<Longrightarrow> Start (nodes s i) cmd = (rf, res, ts) \<Longrightarrow>
    clusterStep n s (addRepls (setNode s i rf) i ts)"
| take_snapshot: "i < n \<Longrightarrow> Snapshot (nodes s i) index snap = Some rf \<Longrightarrow>
    clusterStep n s (setNode s i rf)"
| send: "k < length (repls s) \<Longrightarrow> r = repls s ! k \<Longrightarrow> rp_stage r = Spawned \<Longrightarrow>
    rp_epoch r = epoch s (rp_caller r) \<Longrightarrow>
    replicateTo (nodes s (rp_caller r)) (rp_server r) (rp_term r) = Some out \<Longrightarrow>
    clusterStep n s (setRepl s k (outStage out))"
| append_handle: "k < length (repls s) \<Longrightarrow> r = repls s ! k \<Longrightarrow> rp_stage r = AppendSent args \<Longrightarrow>
    AppendEntries clk (nodes s (rp_server r)) args = Some (rf, reply) \<Longrightarrow>
    clusterStep n s (setRepl (setNode s (rp_server r) rf) k (AppendAnswered args reply))"
| append_reply: "k < length (repls s) \<Longrightarrow> r = repls s ! k \<Longrightarrow> rp_stage r = AppendAnswered args reply \<Longrightarrow>
    rp_epoch r = epoch s (rp_caller r) \<Longrightarrow>
    appendReply (nodes s (rp_caller r)) (rp_server r) (rp_term r) args reply = Some rf \<Longrightarrow>
    clusterStep n s (setRepl (setNode s (rp_caller r) rf) k ReplDone)"
| install_handle: "k < length (repls s) \<Longrightarrow> r = repls s ! k \<Longrightarrow> rp_stage r = InstallSent args \<Longrightarrow>
    InstallSnapshot clk (nodes s (rp_server r)) args = Some (rf, reply, out) \<Longrightarrow>
    clusterStep n s (setRepl (setNode s (rp_server r) rf) k
      (case out of None \<Rightarrow> InstallAnswered args reply
       | Some m \<Rightarrow> InstallHandled args reply m (epoch s (rp_server r))))"
| install_deliver: "k < length (repls s) \<Longrightarrow> r = repls s ! k \<Longrightarrow>
    rp_stage r = InstallHandled args reply m (epoch s (rp_server r)) \<Longrightarrow>
    clusterStep n s (setRepl (deliver s (rp_server r) m) k (InstallAnswered args reply))"
| install_reply: "k < length (repls s) \<Longrightarrow> r = repls s ! k \<Longrightarrow> rp_stage r = InstallAnswered args reply \<Longrightarrow>
    rp_epoch r = epoch s (rp_caller r) \<Longrightarrow>
    installReply (nodes s (rp_caller r)) (rp_server r) (rp_term r) args reply = Some rf \<Longrightarrow>
    clusterStep n s (setRepl (setNode s (rp_caller r) rf) k ReplDone)"
| repl_lost: "k < length (repls s) \<Longrightarrow> clusterStep n s (setRepl s k ReplDone)"
| apply_step: "i < n \<Longrightarrow> \<not> killed (nodes s i) \<Longrightarrow> sending s i = None \<Longrightarrow>
    applier (nodes s i) = Some (rf, out) \<Longrightarrow>
    clusterStep n s ((setNode s i rf)\<lparr>sending := (sending s)(i := (case out of Deliver m \<Rightarrow> Some m
                       | _ \<Rightarrow> None))\<rparr>)"
| apply_send: "i < n \<Longrightarrow> sending s i = Some m \<Longrightarrow>
    clusterStep n s ((deliver s i m)\<lparr>sending := (sending s)(i := None)\<rparr>)"
| crash: "i < n \<Longrightarrow>
    clusterStep n s ((setNode s i (Make clk n i (Copy (persister (nodes s i)))))
      \<lparr>epoch := (epoch s)(i := Suc (epoch s i)), sending := (sending s)(i := None),
       delivered := (delivered s)(i := [])\<rparr>)"
| kill: "i < n \<Longrightarrow> clusterStep n s (setNode s i (Kill (nodes s i)))"

abbreviation clusterReach :: "nat \<Rightarrow> ('c, 'd) cluster \<Rightarrow> bool" where
  "clusterReach n \<equiv> reaches (clusterInit n) (clusterStep n)"

lemmas cluster_updates = setNode_def setElection_def setRepl_def addRepls_def deliver_def

end
