(* ===== verification/RaftSpec.thy ===== *)
theory RaftSpec
  imports RaftNode
begin

section \<open>The replicated log as an abstract protocol\<close>

text \<open>
  What the Raft peers promise together, free of snapshots, roles, timers and messages: a
  state of five maps and the six actions that change them. The theory \<open>RaftRefine\<close> shows that every step
  of the cluster of peers (theory \<open>RaftCluster\<close>, which runs the code's handlers) is a
  sequence of these actions.

  \<^item> \<open>aterm p\<close> is the term of peer \<open>p\<close>, \<open>alog p\<close> its whole log, from the dummy entry at
    index 0, the part a snapshot has replaced included.
  \<^item> \<open>avote t p\<close> is the vote of \<open>p\<close> in term \<open>t\<close>: for whom, and the log \<open>p\<close> had then.
  \<^item> \<open>aldr t\<close> is the leader elected in term \<open>t\<close>, \<open>llog t\<close> the log of that leader.
  \<^item> \<open>aack t p\<close> is the length of the prefix of \<open>llog t\<close> that \<open>p\<close> has stored in term \<open>t\<close>.

  The safety argument is the one of Paxos-style protocols: a prefix is \<open>choosable\<close> in a
  term as long as some majority has stored it or may still do so; every leader of a later
  term has every prefix that is choosable, so a prefix that a majority has stored
  (\<open>committed\<close>) is in the log of every later leader.
\<close>

type_synonym 'c alog = "'c LogEntry list"

record 'c araft =
  aterm :: "nat \<Rightarrow> int"
  alog :: "nat \<Rightarrow> 'c alog"
  avote :: "int \<Rightarrow> nat \<Rightarrow> (nat \<times> 'c alog) option"
  aldr :: "int \<Rightarrow> nat option"
  llog :: "int \<Rightarrow> 'c alog"
  aack :: "int \<Rightarrow> nat \<Rightarrow> nat"

definition ainit :: "'c araft" where
  "ainit = \<lparr>aterm = (\<lambda>_. 0), alog = (\<lambda>_. [dummyEntry 0]), avote = (\<lambda>_ _. None),
            aldr = (\<lambda>_. None), llog = (\<lambda>_. []), aack = (\<lambda>_ _. 0)\<rparr>"

text \<open>The comparison of logs of an election: \<open>c\<close> is at least as up to date as \<open>v\<close>.\<close>

definition upToDate :: "'c alog \<Rightarrow> 'c alog \<Rightarrow> bool" where
  "upToDate c v \<longleftrightarrow>
     (if le_Term (last c) \<noteq> le_Term (last v) then le_Term (last c) > le_Term (last v)
      else length c \<ge> length v)"

inductive astep :: "nat \<Rightarrow> 'c araft \<Rightarrow> 'c araft \<Rightarrow> bool" for n where
  new_term: "p < n \<Longrightarrow> aterm a p < t \<Longrightarrow> astep n a (a\<lparr>aterm := (aterm a)(p := t)\<rparr>)"
| candidacy: "p < n \<Longrightarrow> t = aterm a p + 1 \<Longrightarrow>
    astep n a (a\<lparr>aterm := (aterm a)(p := t),
                 avote := (avote a)(t := (avote a t)(p := Some (p, alog a p)))\<rparr>)"
| vote: "p < n \<Longrightarrow> aterm a p = t \<Longrightarrow> avote a t p = None \<Longrightarrow>
    avote a t c = Some (c, clog) \<Longrightarrow> upToDate clog (alog a p) \<Longrightarrow>
    astep n a (a\<lparr>avote := (avote a)(t := (avote a t)(p := Some (c, alog a p)))\<rparr>)"
| elect: "c < n \<Longrightarrow> aterm a c = t \<Longrightarrow> avote a t c = Some (c, alog a c) \<Longrightarrow> aldr a t \<noteq> Some c \<Longrightarrow>
    majority n Q \<Longrightarrow> (\<And>p. p \<in> Q \<Longrightarrow> \<exists>v. avote a t p = Some (c, v)) \<Longrightarrow>
    astep n a (a\<lparr>aldr := (aldr a)(t := Some c), llog := (llog a)(t := alog a c),
                 aack := (aack a)(t := (aack a t)(c := length (alog a c)))\<rparr>)"
| extend: "aldr a t = Some c \<Longrightarrow> c < n \<Longrightarrow> aterm a c = t \<Longrightarrow> le_Term e = t \<Longrightarrow> l = llog a t @ [e] \<Longrightarrow>
    astep n a (a\<lparr>alog := (alog a)(c := l), llog := (llog a)(t := l),
                 aack := (aack a)(t := (aack a t)(c := length l))\<rparr>)"
| accept: "p < n \<Longrightarrow> aterm a p = t \<Longrightarrow> aldr a t = Some c \<Longrightarrow> p \<noteq> c \<Longrightarrow> m \<le> length (llog a t) \<Longrightarrow> 0 < m \<Longrightarrow>
    l = (if take m (alog a p) = take m (llog a t) then alog a p else take m (llog a t)) \<Longrightarrow>
    astep n a (a\<lparr>alog := (alog a)(p := l),
                 aack := (aack a)(t := (aack a t)(p := max (aack a t p) m))\<rparr>)"

text \<open>
  A log is \<open>sourced\<close> if each of its entries, with all that is before it, is in the log of
  the leader of the entry's term.
\<close>

definition sourced :: "(int \<Rightarrow> 'c alog) \<Rightarrow> 'c alog \<Rightarrow> bool" where
  "sourced L F \<longleftrightarrow> F \<noteq> [] \<and> F ! 0 = dummyEntry 0 \<and>
     (\<forall>k. 0 < k \<and> k < length F \<longrightarrow>
        1 \<le> le_Term (F ! k) \<and> k < length (L (le_Term (F ! k))) \<and>
        take (Suc k) F = take (Suc k) (L (le_Term (F ! k))))"

definition proposed :: "'c araft \<Rightarrow> int \<Rightarrow> nat \<Rightarrow> bool" where
  "proposed a t k \<longleftrightarrow> aldr a t \<noteq> None \<and> 0 < k \<and> k \<le> length (llog a t) \<and> le_Term (llog a t ! (k - 1)) = t"

definition choosable :: "nat \<Rightarrow> 'c araft \<Rightarrow> int \<Rightarrow> nat \<Rightarrow> bool" where
  "choosable n a t k \<longleftrightarrow> (\<exists>Q. majority n Q \<and> (\<forall>p\<in>Q. k \<le> aack a t p \<or> aterm a p \<le> t))"

definition committed :: "nat \<Rightarrow> 'c araft \<Rightarrow> int \<Rightarrow> nat \<Rightarrow> bool" where
  "committed n a t k \<longleftrightarrow> proposed a t k \<and> (\<exists>Q. majority n Q \<and> (\<forall>p\<in>Q. k \<le> aack a t p))"

subsection \<open>The invariant\<close>

definition log_inv :: "nat \<Rightarrow> 'c araft \<Rightarrow> bool" where
  "log_inv n a \<longleftrightarrow>
     (\<forall>p. sourced (llog a) (alog a p)) \<and>
     (\<forall>t c. aldr a t = Some c \<longrightarrow> sourced (llog a) (llog a t) \<and> 1 \<le> t \<and> c < n) \<and>
     (\<forall>t. aldr a t = None \<longrightarrow> llog a t = []) \<and>
     (\<forall>t k. k < length (llog a t) \<longrightarrow> le_Term (llog a t ! k) \<le> t) \<and>
     (\<forall>p k. k < length (alog a p) \<longrightarrow> le_Term (alog a p ! k) \<le> aterm a p) \<and>
     (\<forall>p. 0 \<le> aterm a p)"

definition vote_inv :: "nat \<Rightarrow> 'c araft \<Rightarrow> bool" where
  "vote_inv n a \<longleftrightarrow>
     (\<forall>t p c v. avote a t p = Some (c, v) \<longrightarrow>
        t \<le> aterm a p \<and> 1 \<le> t \<and> sourced (llog a) v \<and>
        (\<forall>k < length v. le_Term (v ! k) < t) \<and>
        (\<exists>clog. avote a t c = Some (c, clog) \<and> upToDate clog v)) \<and>
     (\<forall>t c. aldr a t = Some c \<longrightarrow>
        (\<exists>Q. majority n Q \<and> (\<forall>p\<in>Q. \<exists>v. avote a t p = Some (c, v))) \<and>
        (\<exists>clog. avote a t c = Some (c, clog) \<and> length clog \<le> length (llog a t) \<and>
           take (length clog) (llog a t) = clog \<and>
           (\<forall>k. length clog \<le> k \<and> k < length (llog a t) \<longrightarrow> le_Term (llog a t ! k) = t)))"

definition ack_inv :: "'c araft \<Rightarrow> bool" where
  "ack_inv a \<longleftrightarrow>
     (\<forall>t p. aack a t p \<le> length (llog a t)) \<and>
     (\<forall>t p. 0 < aack a t p \<longrightarrow> t \<le> aterm a p) \<and>
     (\<forall>p. take (aack a (aterm a p) p) (alog a p) = take (aack a (aterm a p) p) (llog a (aterm a p))) \<and>
     (\<forall>t c. aldr a t = Some c \<longrightarrow> aack a t c = length (llog a t) \<and> (aterm a c = t \<longrightarrow> alog a c = llog a t))"

definition choose_inv :: "nat \<Rightarrow> 'c araft \<Rightarrow> bool" where
  "choose_inv n a \<longleftrightarrow>
     (\<forall>t k. proposed a t k \<and> choosable n a t k \<longrightarrow>
        (\<forall>t'. t < t' \<and> aldr a t' \<noteq> None \<longrightarrow> take k (llog a t') = take k (llog a t)) \<and>
        (\<forall>p. k \<le> aack a t p \<longrightarrow> take k (alog a p) = take k (llog a t)) \<and>
        (\<forall>p t' c v. k \<le> aack a t p \<and> t < t' \<and> avote a t' p = Some (c, v) \<longrightarrow>
           take k v = take k (llog a t)))"

definition ainv :: "nat \<Rightarrow> 'c araft \<Rightarrow> bool" where
  "ainv n a \<longleftrightarrow> log_inv n a \<and> vote_inv n a \<and> ack_inv a \<and> choose_inv n a"


subsection \<open>Sourced logs\<close>

lemma sourcedD:
  assumes "sourced L F" and "0 < k" and "k < length F"
  shows "1 \<le> le_Term (F ! k)" and "k < length (L (le_Term (F ! k)))"
    and "take (Suc k) F = take (Suc k) (L (le_Term (F ! k)))"
  using assms by (auto simp: sourced_def)

lemma sourced_start: "sourced L F \<Longrightarrow> F \<noteq> [] \<and> F ! 0 = dummyEntry 0"
  by (simp add: sourced_def)

lemma sourced_mono:
  assumes "sourced L F" and ext: "\<And>t k. k \<le> length (L t) \<Longrightarrow> take k (L' t) = take k (L t)"
  shows "sourced L' F"
proof -
  have "1 \<le> le_Term (F ! k) \<and> k < length (L' (le_Term (F ! k))) \<and>
        take (Suc k) F = take (Suc k) (L' (le_Term (F ! k)))" if k: "0 < k" "k < length F" for k
  proof -
    let ?t = "le_Term (F ! k)"
    note d = sourcedD [OF assms(1) k]
    have eq: "take (Suc k) (L' ?t) = take (Suc k) (L ?t)"
      using ext d(2) by simp
    then have "Suc k \<le> length (L' ?t)"
      using take_eq_length [OF eq [symmetric]] d(2) by simp
    with d eq show ?thesis by simp
  qed
  with assms(1) show ?thesis by (auto simp: sourced_def)
qed

lemma sourced_take:
  assumes "sourced L F" and "0 < m"
  shows "sourced L (take m F)"
proof -
  have "take (Suc k) (take m F) = take (Suc k) F" if "k < m" for k
    using that by (simp add: min_def)
  with assms show ?thesis by (auto simp: sourced_def simp del: take_take)
qed

lemma sourced_snoc:
  assumes "sourced L F" and "1 \<le> le_Term e" and "L (le_Term e) = F @ [e]"
  shows "sourced L (F @ [e])"
  using assms by (auto simp: sourced_def nth_append less_Suc_eq)

lemma sourced_match:
  assumes "sourced L F" and "sourced L G" and "k < length F" and "k < length G"
    and "le_Term (F ! k) = le_Term (G ! k)"
  shows "take (Suc k) F = take (Suc k) G"
proof (cases "k = 0")
  case True
  with assms sourced_start [OF assms(1)] sourced_start [OF assms(2)] show ?thesis
    by (simp add: take_Suc_conv_app_nth)
next
  case False
  with assms sourcedD(3) [OF assms(1), of k] sourcedD(3) [OF assms(2), of k] show ?thesis
    by simp
qed

text \<open>The terms in a sourced log never decrease.\<close>

lemma sourced_terms_mono:
  assumes src: "sourced L F" and bound: "\<And>t k. k < length (L t) \<Longrightarrow> le_Term (L t ! k) \<le> t"
    and "j \<le> k" and "k < length F"
  shows "le_Term (F ! j) \<le> le_Term (F ! k)"
proof (cases "k = 0")
  case True
  with assms show ?thesis by simp
next
  case False
  then have k: "0 < k" by simp
  let ?t = "le_Term (F ! k)"
  note d = sourcedD [OF src k \<open>k < length F\<close>]
  have "F ! j = L ?t ! j"
    by (rule take_eq_nth [OF d(3)]) (use assms(3,4) in simp_all)
  moreover have "le_Term (L ?t ! j) \<le> ?t"
    by (rule bound) (use d(2) assms(3) in simp)
  ultimately show ?thesis by metis
qed

lemma sourced_zero_term:
  assumes "sourced L F" and "k < length F" and "le_Term (F ! k) \<le> 0"
  shows "k = 0"
proof (rule ccontr)
  assume "k \<noteq> 0"
  then have "1 \<le> le_Term (F ! k)" using sourcedD(1) [OF assms(1) _ assms(2)] by simp
  with assms(3) show False by simp
qed

subsection \<open>Leaders have what is choosable\<close>

lemma proposed_index:
  assumes "log_inv n a" and "proposed a t k"
  shows "1 < k" and "1 \<le> t"
proof -
  from assms obtain c where c: "aldr a t = Some c" by (auto simp: proposed_def)
  with assms have src: "sourced (llog a) (llog a t)" and t: "1 \<le> t" by (auto simp: log_inv_def)
  from t show "1 \<le> t" .
  show "1 < k"
  proof (rule ccontr)
    assume "\<not> 1 < k"
    with assms have "k = 1" by (simp add: proposed_def)
    with assms sourced_start [OF src] t show False
      by (simp add: proposed_def dummyEntry_def)
  qed
qed

lemma elected_has_choosable:
  assumes inv: "log_inv n a" "vote_inv n a" "choose_inv n a"
    and cand: "avote a t' c = Some (c, clog)"
    and maj: "majority n Q" and votes: "\<And>p. p \<in> Q \<Longrightarrow> \<exists>v. avote a t' p = Some (c, v)"
    and pro: "proposed a t k" and ch: "choosable n a t k" and less: "t < t'"
  shows "take k clog = take k (llog a t)"
proof -
  have bound: "le_Term (llog a t ! k) \<le> t" if "k < length (llog a t)" for t k
    using inv(1) that by (simp add: log_inv_def)
  from ch obtain Q0 where Q0: "majority n Q0" "\<And>p. p \<in> Q0 \<Longrightarrow> k \<le> aack a t p \<or> aterm a p \<le> t"
    by (auto simp: choosable_def)
  obtain p where p: "p \<in> Q" "p \<in> Q0" using maj.quorum_meet [OF maj Q0(1)] by blast
  obtain v where v: "avote a t' p = Some (c, v)" using votes [OF p(1)] by blast
  from inv(2) v have "t' \<le> aterm a p" and srcv: "sourced (llog a) v"
    by (auto simp: vote_inv_def)
  with Q0(2) [OF p(2)] less have ack: "k \<le> aack a t p" by linarith
  have tv: "take k v = take k (llog a t)"
    using inv(3) pro ch ack less v unfolding choose_inv_def by blast
  have up: "upToDate clog v" using inv(2) v cand unfolding vote_inv_def by fastforce
  have srcc: "sourced (llog a) clog" and termc: "\<And>k. k < length clog \<Longrightarrow> le_Term (clog ! k) < t'"
    using inv(2) cand by (auto simp: vote_inv_def)
  have k1: "1 < k" using proposed_index(1) [OF inv(1) pro] .
  have kl: "k \<le> length (llog a t)" and kt: "le_Term (llog a t ! (k - 1)) = t"
    using pro by (auto simp: proposed_def)
  have lv: "k \<le> length v" using take_eq_length [OF tv [symmetric] kl] .
  let ?lv = "length v - 1" and ?lc = "length clog - 1"
  have "v ! (k - 1) = llog a t ! (k - 1)"
    using take_eq_nth [OF tv, of "k - 1"] k1 lv by simp
  with kt have "le_Term (v ! (k - 1)) = t" by simp
  then have tlv: "t \<le> le_Term (v ! ?lv)"
    using sourced_terms_mono [OF srcv bound, of "k - 1" ?lv] lv k1 by simp
  have ne: "clog \<noteq> []" "v \<noteq> []" using srcc srcv by (auto simp: sourced_def)
  have lasts: "last v = v ! ?lv" "last clog = clog ! ?lc" using ne by (auto simp: last_conv_nth)
  let ?u = "le_Term (clog ! ?lc)"
  have lc0: "0 < ?lc"
  proof (rule ccontr)
    assume "\<not> 0 < ?lc"
    then have "?lc = 0" by simp
    then have "?u = 0" using sourced_start [OF srcc] by (simp add: dummyEntry_def)
    with up lasts tlv proposed_index(2) [OF inv(1) pro] show False
      by (simp add: upToDate_def split: if_splits)
  qed
  have dc: "take (Suc ?lc) clog = take (Suc ?lc) (llog a ?u)" and lu: "?lc < length (llog a ?u)"
    using sourcedD [OF srcc lc0] ne by auto
  show ?thesis
  proof (cases "?u = le_Term (v ! ?lv)")
    case True
    then have len: "length v \<le> length clog" using up lasts by (simp add: upToDate_def)
    have "take (Suc ?lv) v = take (Suc ?lv) (llog a ?u)"
      using sourcedD(3) [OF srcv, of ?lv] True k1 lv by simp
    moreover have "take (Suc ?lv) clog = take (Suc ?lv) (llog a ?u)"
      using take_eq_mono [OF dc] len by simp
    ultimately have "take (Suc ?lv) clog = take (Suc ?lv) v" by simp
    then have "take k clog = take k v" by (rule take_eq_mono) (use lv k1 in simp)
    with tv show ?thesis by simp
  next
    case False
    then have gt: "le_Term (v ! ?lv) < ?u" using up lasts by (simp add: upToDate_def)
    have ldr: "aldr a ?u \<noteq> None"
    proof
      assume "aldr a ?u = None"
      then have "llog a ?u = []" using inv(1) by (auto simp: log_inv_def)
      with lu show False by simp
    qed
    have eq: "take k (llog a ?u) = take k (llog a t)"
      using inv(3) pro ch ldr gt tlv unfolding choose_inv_def by (meson le_less_trans)
    have "k \<le> Suc ?lc"
    proof (rule ccontr)
      assume "\<not> k \<le> Suc ?lc"
      then have lk: "?lc < k" by simp
      have "clog ! ?lc = llog a ?u ! ?lc" using take_eq_nth [OF dc, of ?lc] ne by simp
      moreover have "llog a ?u ! ?lc = llog a t ! ?lc" using take_eq_nth [OF eq lk lu] .
      ultimately have "?u \<le> t" using bound [of ?lc t] lk kl by simp
      with gt tlv show False by simp
    qed
    then have "take k clog = take k (llog a ?u)" using take_eq_mono [OF dc] by simp
    with eq show ?thesis by simp
  qed
qed

end
