(* ===== verification/RaftSpecInv.thy ===== *)
theory RaftSpecInv
  imports RaftSpec
begin

section \<open>The abstract protocol keeps its invariant\<close>

text \<open>
  One lemma for each part of the invariant and each action, then what follows for every
  reachable abstract state: one leader per term, log matching, and that a committed prefix
  is in the log of every later leader.
\<close>

lemma log_invD:
  assumes "log_inv n a"
  shows "sourced (llog a) (alog a p)"
    and "aldr a t = Some c \<Longrightarrow> sourced (llog a) (llog a t)"
    and "aldr a t = Some c \<Longrightarrow> 1 \<le> t" and "aldr a t = Some c \<Longrightarrow> c < n"
    and "aldr a t = None \<Longrightarrow> llog a t = []"
    and "k < length (llog a t) \<Longrightarrow> le_Term (llog a t ! k) \<le> t"
    and "k < length (alog a p) \<Longrightarrow> le_Term (alog a p ! k) \<le> aterm a p"
    and "0 \<le> aterm a p"
  using assms by (auto simp: log_inv_def)

lemma log_invI:
  assumes "\<And>p. sourced (llog a) (alog a p)"
    and "\<And>t c. aldr a t = Some c \<Longrightarrow> sourced (llog a) (llog a t)"
    and "\<And>t c. aldr a t = Some c \<Longrightarrow> 1 \<le> t \<and> c < n"
    and "\<And>t. aldr a t = None \<Longrightarrow> llog a t = []"
    and "\<And>t k. k < length (llog a t) \<Longrightarrow> le_Term (llog a t ! k) \<le> t"
    and "\<And>p k. k < length (alog a p) \<Longrightarrow> le_Term (alog a p ! k) \<le> aterm a p"
    and "\<And>p. 0 \<le> aterm a p"
  shows "log_inv n a"
  using assms unfolding log_inv_def by auto

lemma vote_invD:
  assumes "vote_inv n a" and "avote a t p = Some (c, v)"
  shows "t \<le> aterm a p" and "1 \<le> t" and "sourced (llog a) v"
    and "k < length v \<Longrightarrow> le_Term (v ! k) < t"
    and "\<exists>clog. avote a t c = Some (c, clog) \<and> upToDate clog v"
  using assms unfolding vote_inv_def by blast+

lemma vote_inv_ldrD:
  assumes "vote_inv n a" and "aldr a t = Some c"
  shows "\<exists>Q. majority n Q \<and> (\<forall>p\<in>Q. \<exists>v. avote a t p = Some (c, v))"
    and "\<exists>clog. avote a t c = Some (c, clog) \<and> length clog \<le> length (llog a t) \<and>
           take (length clog) (llog a t) = clog \<and>
           (\<forall>k. length clog \<le> k \<and> k < length (llog a t) \<longrightarrow> le_Term (llog a t ! k) = t)"
  using assms unfolding vote_inv_def by blast+

lemma ack_invD:
  assumes "ack_inv a"
  shows "aack a t p \<le> length (llog a t)" and "0 < aack a t p \<Longrightarrow> t \<le> aterm a p"
    and "aterm a p = t \<Longrightarrow> take (aack a t p) (alog a p) = take (aack a t p) (llog a t)"
    and "aldr a t = Some c \<Longrightarrow> aack a t c = length (llog a t)"
    and "aldr a t = Some c \<Longrightarrow> aterm a c = t \<Longrightarrow> alog a c = llog a t"
  using assms by (auto simp: ack_inv_def)

lemma choose_invD:
  assumes "choose_inv n a" and "proposed a t k" and "choosable n a t k"
  shows "t < t' \<Longrightarrow> aldr a t' = Some c' \<Longrightarrow> take k (llog a t') = take k (llog a t)"
    and "k \<le> aack a t p \<Longrightarrow> take k (alog a p) = take k (llog a t)"
    and "k \<le> aack a t p \<Longrightarrow> t < t' \<Longrightarrow> avote a t' p = Some (c, v) \<Longrightarrow>
         take k v = take k (llog a t)"
  using assms unfolding choose_inv_def by blast+

lemma choose_invI:
  assumes "\<And>t k t' c'. proposed a t k \<Longrightarrow> choosable n a t k \<Longrightarrow> t < t' \<Longrightarrow> aldr a t' = Some c' \<Longrightarrow>
      take k (llog a t') = take k (llog a t)"
    and "\<And>t k p. proposed a t k \<Longrightarrow> choosable n a t k \<Longrightarrow> k \<le> aack a t p \<Longrightarrow>
      take k (alog a p) = take k (llog a t)"
    and "\<And>t k p t' c v. proposed a t k \<Longrightarrow> choosable n a t k \<Longrightarrow> k \<le> aack a t p \<Longrightarrow> t < t' \<Longrightarrow>
      avote a t' p = Some (c, v) \<Longrightarrow> take k v = take k (llog a t)"
  shows "choose_inv n a"
  using assms unfolding choose_inv_def by blast

text \<open>A prefix that is choosable after a step was choosable before it.\<close>

lemma choosable_back:
  assumes "choosable n a' t k"
    and "\<And>p. p < n \<Longrightarrow> k \<le> aack a' t p \<or> aterm a' p \<le> t \<Longrightarrow> k \<le> aack a t p \<or> aterm a p \<le> t"
  shows "choosable n a t k"
  using assms maj.quorum_member unfolding choosable_def by meson

text \<open>In the step \<open>elect\<close> the term has no leader yet.\<close>

lemma elect_fresh:
  assumes "vote_inv n a" and "aldr a t \<noteq> Some c" and "majority n Q"
    and "\<And>p. p \<in> Q \<Longrightarrow> \<exists>v. avote a t p = Some (c, v)"
  shows "aldr a t = None"
proof (rule ccontr)
  assume "aldr a t \<noteq> None"
  then obtain c' where c': "aldr a t = Some c'" by blast
  then obtain R where R: "majority n R" "\<And>p. p \<in> R \<Longrightarrow> \<exists>v. avote a t p = Some (c', v)"
    using vote_inv_ldrD(1) [OF assms(1)] by blast
  obtain p where "p \<in> Q" "p \<in> R" using maj.quorum_meet [OF assms(3) R(1)] by blast
  then have "c' = c" using assms(4) R(2) by fastforce
  with c' assms(2) show False by simp
qed

lemma elect_no_ack:
  assumes "log_inv n a" and "ack_inv a" and "aldr a t = None"
  shows "aack a t p = 0"
  using ack_invD(1) [OF assms(2), of t p] log_invD(5) [OF assms(1,3)] by simp

subsection \<open>Logs\<close>

lemma elect_grows:
  assumes "log_inv n a" and "aldr a t = None" and "k \<le> length (llog a t')"
  shows "take k (((llog a)(t := l)) t') = take k (llog a t')"
  using assms log_invD(5) [OF assms(1,2)] by (auto simp: fun_upd_def)

lemma extend_grows:
  assumes "k \<le> length (llog a t')"
  shows "take k (((llog a)(t := llog a t @ [e])) t') = take k (llog a t')"
  using assms by auto

lemma log_inv_term:
  assumes "log_inv n a" and "aterm a p \<le> t"
  shows "log_inv n (a\<lparr>aterm := (aterm a)(p := t)\<rparr>)"
proof (rule log_invI, goal_cases)
  case (6 q k)
  then show ?case using log_invD(7) [OF assms(1), of k q] assms(2) by auto
next
  case (7 q)
  then show ?case using log_invD(8) [OF assms(1), of q] assms(2) by auto
qed (use log_invD [OF assms(1)] in auto)

lemma log_inv_avote: "log_inv n (a\<lparr>avote := V\<rparr>) = log_inv n a"
  by (simp add: log_inv_def)

lemma log_inv_elect:
  assumes inv: "log_inv n a" and "aldr a t = None" and "aterm a c = t" and "1 \<le> t" and "c < n"
  shows "log_inv n (a\<lparr>aldr := (aldr a)(t := Some c), llog := (llog a)(t := alog a c), aack := A\<rparr>)"
proof -
  have src: "sourced ((llog a)(t := alog a c)) F" if "sourced (llog a) F" for F
    by (rule sourced_mono [OF that]) (rule elect_grows [OF inv assms(2)])
  show ?thesis
  proof (rule log_invI, goal_cases)
    case (1 p)
    then show ?case using src log_invD(1) [OF inv] by simp
  next
    case (2 t' c')
    then show ?case using src log_invD(1,2) [OF inv] by (auto split: if_splits)
  next
    case (5 t' k)
    then show ?case using log_invD(6) [OF inv] log_invD(7) [OF inv, of k c] assms(3) by (auto split: if_splits)
  qed (use log_invD [OF inv] assms in \<open>auto split: if_splits\<close>)
qed

lemma log_inv_extend:
  assumes inv: "log_inv n a" and ldr: "aldr a t = Some c" and "aterm a c = t" and "le_Term e = t"
  shows "log_inv n (a\<lparr>alog := (alog a)(c := llog a t @ [e]),
                      llog := (llog a)(t := llog a t @ [e]), aack := A\<rparr>)"
proof -
  let ?L = "(llog a)(t := llog a t @ [e])"
  have src: "sourced ?L F" if "sourced (llog a) F" for F
    by (rule sourced_mono [OF that]) (rule extend_grows)
  have srce: "sourced ?L (llog a t @ [e])"
    using src [OF log_invD(2) [OF inv ldr]] log_invD(3) [OF inv ldr] assms(4)
    by (intro sourced_snoc) auto
  have terms: "le_Term ((llog a t @ [e]) ! k) \<le> t" if "k < length (llog a t @ [e])" for k
    using that log_invD(6) [OF inv, of k t] assms(4) by (auto simp: nth_append less_Suc_eq)
  show ?thesis
  proof (rule log_invI, goal_cases)
    case (1 p)
    then show ?case using src [OF log_invD(1) [OF inv]] srce by simp
  next
    case (2 t' c')
    then show ?case using src [OF log_invD(2) [OF inv, of t' c']] srce by auto
  next
    case (5 t' k)
    then show ?case using log_invD(6) [OF inv, of k t'] terms by (auto split: if_splits)
  next
    case (6 p k)
    then show ?case using log_invD(7) [OF inv, of k p] terms assms(3) by (auto split: if_splits)
  qed (use log_invD [OF inv] ldr in \<open>auto split: if_splits\<close>)
qed

lemma log_inv_accept:
  assumes inv: "log_inv n a" and "aldr a t = Some c" and "aterm a p = t" and "0 < m"
    and "l = alog a p \<or> l = take m (llog a t)"
  shows "log_inv n (a\<lparr>alog := (alog a)(p := l), aack := A\<rparr>)"
proof -
  have src: "sourced (llog a) l"
    using assms(5) log_invD(1) [OF inv] sourced_take [OF log_invD(2) [OF inv assms(2)] assms(4)] by auto
  have terms: "le_Term (l ! k) \<le> t" if "k < length l" for k
    using that assms(3,5) log_invD(6) [OF inv, of k t] log_invD(7) [OF inv, of k p] by auto
  show ?thesis
    by (rule log_invI) (use log_invD [OF inv] src terms assms(3) in \<open>auto split: if_splits\<close>)
qed

subsection \<open>Votes\<close>

lemma vote_inv_term:
  assumes inv: "vote_inv n a" and "aterm a p \<le> t"
  shows "vote_inv n (a\<lparr>aterm := (aterm a)(p := t)\<rparr>)"
  unfolding vote_inv_def
proof (intro conjI allI impI, goal_cases)
  case (1 t' q c v)
  then show ?case using vote_invD(1) [OF inv, of t' q c v] assms(2) by auto
next
  case (5 t' q c v)
  then show ?case using vote_invD(5) [OF inv, of t' q c v] by simp
qed (use vote_invD [OF inv] vote_inv_ldrD [OF inv] in auto)

text \<open>A new vote, of a peer that had none in that term.\<close>

lemma vote_inv_cast:
  assumes inv: "vote_inv n a" and none: "avote a t p = None"
    and "t \<le> aterm a p" and "1 \<le> t" and "sourced (llog a) v" and "\<And>k. k < length v \<Longrightarrow> le_Term (v ! k) < t"
    and up: "c = p \<or> (\<exists>clog. avote a t c = Some (c, clog) \<and> upToDate clog v)"
  shows "vote_inv n (a\<lparr>avote := (avote a)(t := (avote a t)(p := Some (c, v)))\<rparr>)" (is "vote_inv n ?a")
proof -
  have old: "avote ?a t' q = Some x" if "avote a t' q = Some x" for t' q x
    using that none by auto
  have self: "upToDate v v" by (simp add: upToDate_def)
  have votes: "t' \<le> aterm a q \<and> 1 \<le> t' \<and> sourced (llog a) w \<and> (\<forall>k<length w. le_Term (w ! k) < t') \<and>
      (\<exists>clog. avote ?a t' d = Some (d, clog) \<and> upToDate clog w)"
    if "avote ?a t' q = Some (d, w)" for t' q d w
  proof (cases "t' = t \<and> q = p")
    case True
    then have "d = c" "w = v" using that by auto
    then show ?thesis using True assms(3-6) up old self by auto
  next
    case False
    then have o: "avote a t' q = Some (d, w)" using that by (auto split: if_splits)
    then obtain clog where "avote a t' d = Some (d, clog)" "upToDate clog w"
      using vote_invD(5) [OF inv o] by blast
    then show ?thesis using vote_invD [OF inv o] old by blast
  qed
  have ldr: "(\<exists>Q. majority n Q \<and> (\<forall>p\<in>Q. \<exists>v. avote ?a t' p = Some (d, v))) \<and>
      (\<exists>clog. avote ?a t' d = Some (d, clog) \<and> length clog \<le> length (llog a t') \<and>
           take (length clog) (llog a t') = clog \<and>
           (\<forall>k. length clog \<le> k \<and> k < length (llog a t') \<longrightarrow> le_Term (llog a t' ! k) = t'))"
    if "aldr a t' = Some d" for t' d
    using vote_inv_ldrD [OF inv that] old by blast
  show ?thesis
    unfolding vote_inv_def using votes ldr by simp
qed

lemma vote_inv_candidacy:
  assumes inv: "log_inv n a" "vote_inv n a" and "t = aterm a p + 1"
  shows "vote_inv n (a\<lparr>aterm := (aterm a)(p := t),
                       avote := (avote a)(t := (avote a t)(p := Some (p, alog a p)))\<rparr>)"
proof -
  let ?b = "a\<lparr>aterm := (aterm a)(p := t)\<rparr>"
  have b: "vote_inv n ?b" using vote_inv_term [OF inv(2)] assms(3) by simp
  have none: "avote ?b t p = None"
    using vote_invD(1) [OF inv(2), of t p] assms(3) by (cases "avote a t p") auto
  have "vote_inv n (?b\<lparr>avote := (avote ?b)(t := (avote ?b t)(p := Some (p, alog a p)))\<rparr>)"
    using log_invD(1,7,8) [OF inv(1), where p = p] assms(3)
    by (intro vote_inv_cast [OF b none]) (auto simp: zle_add1_eq_le)
  then show ?thesis by simp
qed

lemma upToDate_terms:
  assumes inv: "log_inv n a" and "sourced (llog a) v" and "clog \<noteq> []"
    and "upToDate clog v" and "\<And>k. k < length clog \<Longrightarrow> le_Term (clog ! k) < t" and "k < length v"
  shows "le_Term (v ! k) < t"
proof -
  have "v \<noteq> []" using assms(6) by auto
  then have "le_Term (v ! k) \<le> le_Term (last v)"
    using sourced_terms_mono [OF assms(2) log_invD(6) [OF inv], of k "length v - 1"] assms(6)
    by (simp add: last_conv_nth)
  also have "\<dots> \<le> le_Term (last clog)" using assms(4) by (simp add: upToDate_def split: if_splits)
  also have "\<dots> < t" using assms(3,5) by (simp add: last_conv_nth)
  finally show ?thesis .
qed

lemma vote_inv_vote:
  assumes inv: "log_inv n a" "vote_inv n a" and "aterm a p = t" and "avote a t p = None"
    and c: "avote a t c = Some (c, clog)" and "upToDate clog (alog a p)"
  shows "vote_inv n (a\<lparr>avote := (avote a)(t := (avote a t)(p := Some (c, alog a p)))\<rparr>)"
proof (rule vote_inv_cast [OF inv(2) assms(4)])
  show "t \<le> aterm a p" using assms(3) by simp
  show "1 \<le> t" using vote_invD(2) [OF inv(2) c] .
  show "sourced (llog a) (alog a p)" using log_invD(1) [OF inv(1)] .
  show "le_Term (alog a p ! k) < t" if "k < length (alog a p)" for k
    using upToDate_terms [OF inv(1) log_invD(1) [OF inv(1)] _ assms(6) _ that] vote_invD(3,4) [OF inv(2) c]
    by (auto simp: sourced_def)
  show "c = p \<or> (\<exists>clog. avote a t c = Some (c, clog) \<and> upToDate clog (alog a p))" using c assms(6) by blast
qed

lemma vote_inv_leader:
  assumes inv: "vote_inv n a"
    and grow: "\<And>t' k. k \<le> length (llog a t') \<Longrightarrow> take k (L t') = take k (llog a t')"
    and ldr: "\<And>t' d. D t' = Some d \<Longrightarrow>
      (\<exists>Q. majority n Q \<and> (\<forall>p\<in>Q. \<exists>v. avote a t' p = Some (d, v))) \<and>
      (\<exists>clog. avote a t' d = Some (d, clog) \<and> length clog \<le> length (L t') \<and>
           take (length clog) (L t') = clog \<and>
           (\<forall>k. length clog \<le> k \<and> k < length (L t') \<longrightarrow> le_Term (L t' ! k) = t'))"
  shows "vote_inv n (a\<lparr>alog := F, aldr := D, llog := L, aack := A\<rparr>)"
proof -
  have "sourced L v" if "avote a t p = Some (c, v)" for t p c v
    using sourced_mono [OF vote_invD(3) [OF inv that], of L] grow by blast
  then show ?thesis
    unfolding vote_inv_def using vote_invD [OF inv] ldr by simp
qed

lemma vote_inv_elect:
  assumes inv: "log_inv n a" "vote_inv n a" and "aldr a t = None"
    and "avote a t c = Some (c, alog a c)" and "majority n Q" "\<And>p. p \<in> Q \<Longrightarrow> \<exists>v. avote a t p = Some (c, v)"
  shows "vote_inv n (a\<lparr>aldr := (aldr a)(t := Some c), llog := (llog a)(t := alog a c), aack := A\<rparr>)"
proof -
  have "vote_inv n (a\<lparr>alog := alog a, aldr := (aldr a)(t := Some c),
      llog := (llog a)(t := alog a c), aack := A\<rparr>)"
  proof (rule vote_inv_leader [OF inv(2)], goal_cases)
    case (1 t' k)
    then show ?case by (rule elect_grows [OF inv(1) assms(3)])
  next
    case (2 t' d)
    show ?case
    proof (cases "t' = t")
      case True
      with 2 have "d = c" by simp
      with True assms(4-6) show ?thesis by auto
    next
      case False
      with 2 have "aldr a t' = Some d" by simp
      with False vote_inv_ldrD [OF inv(2) this] show ?thesis by simp
    qed
  qed
  then show ?thesis by simp
qed

lemma vote_inv_extend:
  assumes inv: "vote_inv n a" and ldr: "aldr a t = Some c" and "le_Term e = t"
  shows "vote_inv n (a\<lparr>alog := F, llog := (llog a)(t := llog a t @ [e]), aack := A\<rparr>)"
proof -
  have "vote_inv n (a\<lparr>alog := F, aldr := aldr a, llog := (llog a)(t := llog a t @ [e]), aack := A\<rparr>)"
  proof (rule vote_inv_leader [OF inv], goal_cases)
    case (1 t' k)
    then show ?case by (rule extend_grows)
  next
    case (2 t' d)
    obtain clog where clog: "avote a t' d = Some (d, clog)" "length clog \<le> length (llog a t')"
      "take (length clog) (llog a t') = clog"
      "\<And>k. length clog \<le> k \<Longrightarrow> k < length (llog a t') \<Longrightarrow> le_Term (llog a t' ! k) = t'"
      using vote_inv_ldrD(2) [OF inv 2] by blast
    then have "\<exists>clog. avote a t' d = Some (d, clog) \<and>
        length clog \<le> length (((llog a)(t := llog a t @ [e])) t') \<and>
        take (length clog) (((llog a)(t := llog a t @ [e])) t') = clog \<and>
        (\<forall>k. length clog \<le> k \<and> k < length (((llog a)(t := llog a t @ [e])) t') \<longrightarrow>
           le_Term (((llog a)(t := llog a t @ [e])) t' ! k) = t')"
      using assms(3) by (intro exI [of _ clog]) (auto simp: nth_append less_Suc_eq)
    with vote_inv_ldrD(1) [OF inv 2] show ?case by blast
  qed
  then show ?thesis by simp
qed

lemma vote_inv_accept: "vote_inv n (a\<lparr>alog := F, aack := A\<rparr>) = vote_inv n a"
  by (simp add: vote_inv_def)

subsection \<open>Acknowledgements\<close>

lemma ack_invI:
  assumes "\<And>t p. aack a t p \<le> length (llog a t)" and "\<And>t p. 0 < aack a t p \<Longrightarrow> t \<le> aterm a p"
    and "\<And>p t. aterm a p = t \<Longrightarrow> take (aack a t p) (alog a p) = take (aack a t p) (llog a t)"
    and "\<And>t c. aldr a t = Some c \<Longrightarrow> aack a t c = length (llog a t)"
    and "\<And>t c. aldr a t = Some c \<Longrightarrow> aterm a c = t \<Longrightarrow> alog a c = llog a t"
  shows "ack_inv a"
  using assms unfolding ack_inv_def by auto

lemma ack_inv_avote: "ack_inv (a\<lparr>avote := V\<rparr>) = ack_inv a"
  by (simp add: ack_inv_def)

lemma ack_inv_term:
  assumes inv: "log_inv n a" "vote_inv n a" "ack_inv a" and less: "aterm a p < t"
  shows "ack_inv (a\<lparr>aterm := (aterm a)(p := t)\<rparr>)"
proof (rule ack_invI, goal_cases)
  case (2 t' q)
  then show ?case using ack_invD(2) [OF inv(3), of t' q] less by auto
next
  case (3 q t')
  have "aack a t p = 0" using ack_invD(2) [OF inv(3), of t p] less by (cases "aack a t p = 0") auto
  with 3 show ?case using ack_invD(3) [OF inv(3), of q t'] by (auto split: if_splits)
next
  case (5 t' c)
  show ?case
  proof (cases "c = p")
    case True
    with 5 have "t' = t" "aldr a t = Some p" by auto
    then obtain clog where "avote a t p = Some (p, clog)"
      using vote_inv_ldrD(2) [OF inv(2)] by blast
    with vote_invD(1) [OF inv(2) this] less show ?thesis by simp
  next
    case False
    with 5 show ?thesis using ack_invD(5) [OF inv(3)] by simp
  qed
qed (use ack_invD [OF inv(3)] in auto)

lemma ack_inv_elect:
  assumes inv: "log_inv n a" "ack_inv a" and none: "aldr a t = None" and "aterm a c = t"
  shows "ack_inv (a\<lparr>aldr := (aldr a)(t := Some c), llog := (llog a)(t := alog a c),
                    aack := (aack a)(t := (aack a t)(c := length (alog a c)))\<rparr>)"
proof (rule ack_invI, goal_cases)
  case (1 t' p)
  then show ?case using elect_no_ack [OF inv none] ack_invD(1) [OF inv(2)] by simp
next
  case (2 t' p)
  then show ?case using ack_invD(2) [OF inv(2), of t' p] assms(4) by (auto split: if_splits)
next
  case (3 p t')
  then show ?case using ack_invD(3) [OF inv(2), of p t'] elect_no_ack [OF inv none] by auto
next
  case (4 t' d)
  then show ?case using ack_invD(4) [OF inv(2), of t' d] by (auto split: if_splits)
next
  case (5 t' d)
  then show ?case using ack_invD(5) [OF inv(2), of t' d] by (auto split: if_splits)
qed

lemma ack_inv_extend:
  assumes inv: "ack_inv a" and ldr: "aldr a t = Some c" and trm: "aterm a c = t"
  shows "ack_inv (a\<lparr>alog := (alog a)(c := llog a t @ [e]), llog := (llog a)(t := llog a t @ [e]),
                    aack := (aack a)(t := (aack a t)(c := length (llog a t @ [e])))\<rparr>)"
proof (rule ack_invI, goal_cases)
  case (1 t' p)
  then show ?case using ack_invD(1) [OF inv, of t' p] by auto
next
  case (2 t' p)
  then show ?case using ack_invD(2) [OF inv, of t' p] trm by (auto split: if_splits)
next
  case (3 p t')
  then show ?case using ack_invD(3) [OF inv, of p t'] ack_invD(1) [OF inv, of t' p] trm by auto
next
  case (4 t' d)
  then show ?case using ack_invD(4) [OF inv, of t' d] ldr by (auto split: if_splits)
next
  case (5 t' d)
  then show ?case using ack_invD(5) [OF inv, of t' d] ldr trm by (auto split: if_splits)
qed

text \<open>
  What a follower that takes a prefix of length \<open>m\<close> over from the leader keeps: it gives up
  nothing that agrees with the leader's log.
\<close>

lemma accept_keeps:
  assumes "l = (if take m F = take m G then F else take m G)" and "take k F = take k G"
  shows "take k l = take k F"
proof (cases "take m F = take m G")
  case True
  with assms show ?thesis by simp
next
  case False
  then have "k < m" using assms(2) take_eq_mono by (metis not_le)
  with assms False show ?thesis by simp
qed

lemma accept_has:
  assumes "l = (if take m F = take m G then F else take m G)"
  shows "take m l = take m G"
  using assms by auto

lemma accept_acks:
  assumes inv: "ack_inv a" and "aterm a p = t" and "k \<le> max (aack a t p) m"
    and l: "l = (if take m (alog a p) = take m (llog a t) then alog a p else take m (llog a t))"
  shows "take k l = take k (llog a t)"
proof -
  have "take (max (aack a t p) m) l = take (max (aack a t p) m) (llog a t)"
    using accept_keeps [OF l ack_invD(3) [OF inv assms(2)]] ack_invD(3) [OF inv assms(2)] accept_has [OF l]
    by (auto simp: max_def)
  then show ?thesis using assms(3) by (rule take_eq_mono)
qed

lemma ack_inv_accept:
  assumes inv: "ack_inv a" and "aldr a t = Some c" and trm: "aterm a p = t" and "p \<noteq> c"
    and m: "m \<le> length (llog a t)"
    and l: "l = (if take m (alog a p) = take m (llog a t) then alog a p else take m (llog a t))"
  shows "ack_inv (a\<lparr>alog := (alog a)(p := l),
                    aack := (aack a)(t := (aack a t)(p := max (aack a t p) m))\<rparr>)"
proof (rule ack_invI, goal_cases)
  case (1 t' q)
  then show ?case using ack_invD(1) [OF inv] m by auto
next
  case (2 t' q)
  then show ?case using ack_invD(2) [OF inv, of t' q] trm by (auto split: if_splits)
next
  case (3 q t')
  then show ?case using ack_invD(3) [OF inv, of q t'] trm accept_acks [OF inv trm order_refl l] by auto
next
  case (4 t' d)
  then show ?case using ack_invD(4) [OF inv, of t' d] assms(2,4) by (auto split: if_splits)
next
  case (5 t' d)
  then show ?case using ack_invD(5) [OF inv, of t' d] assms(2-4) by (auto split: if_splits)
qed

subsection \<open>Choosable prefixes\<close>

lemma choose_inv_term:
  assumes inv: "choose_inv n a" and less: "aterm a p \<le> t"
  shows "choose_inv n (a\<lparr>aterm := (aterm a)(p := t)\<rparr>)" (is "choose_inv n ?a")
proof -
  have prp: "proposed ?a t' k = proposed a t' k" for t' k by (simp add: proposed_def)
  have ch: "choosable n a t' k" if "choosable n ?a t' k" for t' k
    by (rule choosable_back [OF that]) (use less in \<open>auto split: if_splits\<close>)
  show ?thesis
    by (rule choose_invI) (use choose_invD [OF inv] prp ch in auto)
qed

lemma choose_inv_cast:
  assumes inv: "choose_inv n a" and none: "avote a t p = None"
  shows "choose_inv n (a\<lparr>avote := (avote a)(t := (avote a t)(p := Some (c, alog a p)))\<rparr>)"
    (is "choose_inv n ?a")
proof -
  have prp: "proposed ?a = proposed a" and ch: "choosable n ?a = choosable n a"
    by (auto simp: proposed_def choosable_def fun_eq_iff)
  show ?thesis
  proof (rule choose_invI, unfold prp ch, goal_cases)
    case (3 t0 k q t' d v)
    then show ?case
      using choose_invD(3) [OF inv 3(1,2), of q t' d v] choose_invD(2) [OF inv 3(1,2), of q]
      by (auto split: if_splits)
  qed (use choose_invD [OF inv] in auto)
qed

lemma choose_inv_elect:
  assumes inv: "log_inv n a" "vote_inv n a" "ack_inv a" "choose_inv n a"
    and none: "aldr a t = None" and trm: "aterm a c = t"
    and cand: "avote a t c = Some (c, alog a c)"
    and Q: "majority n Q" "\<And>p. p \<in> Q \<Longrightarrow> \<exists>v. avote a t p = Some (c, v)"
  shows "choose_inv n (a\<lparr>aldr := (aldr a)(t := Some c), llog := (llog a)(t := alog a c),
                         aack := (aack a)(t := (aack a t)(c := length (alog a c)))\<rparr>)"
    (is "choose_inv n ?a")
proof -
  have prp: "t0 \<noteq> t \<and> proposed a t0 k" if "proposed ?a t0 k" for t0 k
  proof (cases "t0 = t")
    case True
    with that have "le_Term (alog a c ! (k - 1)) = t" "k - 1 < length (alog a c)"
      by (auto simp: proposed_def)
    with vote_invD(4) [OF inv(2) cand] show ?thesis by fastforce
  next
    case False
    with that show ?thesis by (simp add: proposed_def)
  qed
  have ch: "choosable n a t0 k" if "choosable n ?a t0 k" "t0 \<noteq> t" for t0 k
    by (rule choosable_back [OF that(1)]) (use that(2) in auto)
  show ?thesis
  proof (rule choose_invI, goal_cases)
    case (1 t0 k t' c')
    note p = prp [OF 1(1)]
    have ch0: "choosable n a t0 k" using ch 1(2) p by blast
    show ?case
    proof (cases "t' = t")
      case True
      then show ?thesis
        using elected_has_choosable [OF inv(1,2,4) cand Q] p ch0 1(3) by auto
    next
      case False
      then show ?thesis using choose_invD(1) [OF inv(4) _ ch0] p 1(3,4) by auto
    qed
  next
    case (2 t0 k p)
    note p = prp [OF 2(1)]
    have ch0: "choosable n a t0 k" using ch 2(2) p by blast
    show ?case using choose_invD(2) [OF inv(4) _ ch0] p 2(3) by auto
  next
    case (3 t0 k p t' d v)
    note p = prp [OF 3(1)]
    have ch0: "choosable n a t0 k" using ch 3(2) p by blast
    show ?case using choose_invD(3) [OF inv(4) _ ch0, of p t' d v] p 3(3-) by auto
  qed
qed

text \<open>
  A leader that appends an entry while a leader of a later term exists: no majority can
  store the new entry any more.
\<close>

lemma extend_not_choosable:
  assumes inv: "vote_inv n a" "ack_inv a" and trm: "aterm a c = t"
    and later: "aldr a t' = Some d" "t < t'" and k: "length (llog a t) < k"
    and B: "\<And>p. p \<noteq> c \<Longrightarrow> B p = aack a t p"
  shows "\<not> (\<exists>Q. majority n Q \<and> (\<forall>p\<in>Q. k \<le> B p \<or> aterm a p \<le> t))"
proof
  assume "\<exists>Q. majority n Q \<and> (\<forall>p\<in>Q. k \<le> B p \<or> aterm a p \<le> t)"
  then obtain Q where Q: "majority n Q" "\<And>p. p \<in> Q \<Longrightarrow> k \<le> B p \<or> aterm a p \<le> t" by blast
  obtain R where R: "majority n R" "\<And>p. p \<in> R \<Longrightarrow> \<exists>v. avote a t' p = Some (d, v)"
    using vote_inv_ldrD(1) [OF inv(1) later(1)] by blast
  obtain p where p: "p \<in> Q" "p \<in> R" using maj.quorum_meet [OF Q(1) R(1)] by blast
  from R(2) [OF p(2)] have "t' \<le> aterm a p" using vote_invD(1) [OF inv(1)] by blast
  with later(2) trm have "p \<noteq> c" "\<not> aterm a p \<le> t" by auto
  with Q(2) [OF p(1)] B have "k \<le> aack a t p" by simp
  with ack_invD(1) [OF inv(2), of t p] k show False by simp
qed

lemma choose_inv_extend:
  assumes inv: "log_inv n a" "vote_inv n a" "ack_inv a" "choose_inv n a"
    and ldr: "aldr a t = Some c" and trm: "aterm a c = t"
  shows "choose_inv n (a\<lparr>alog := (alog a)(c := llog a t @ [e]), llog := (llog a)(t := llog a t @ [e]),
                    aack := (aack a)(t := (aack a t)(c := length (llog a t @ [e])))\<rparr>)"
    (is "choose_inv n ?a")
proof -
  have same: "alog a c = llog a t" using ack_invD(5) [OF inv(3) ldr trm] .
  have old: "proposed a t0 k \<and> choosable n a t0 k"
    if "proposed ?a t0 k" "choosable n ?a t0 k" "t0 = t \<Longrightarrow> k \<le> length (llog a t)" for t0 k
  proof
    show "proposed a t0 k" using that(1,3) by (auto simp: proposed_def nth_append split: if_splits)
    show "choosable n a t0 k"
      by (rule choosable_back [OF that(2)])
        (use that(3) trm in \<open>auto split: if_splits\<close>)
  qed
  have new: "\<not> choosable n ?a t k" if "length (llog a t) < k" "aldr a t' = Some d" "t < t'" for k t' d
    using extend_not_choosable [OF inv(2,3) trm that(2,3,1), of "aack ?a t"]
    by (simp add: choosable_def)
  have grow: "take k (llog ?a t0) = take k (llog a t0)" if "k \<le> length (llog a t0)" for k t0
    using that by auto
  have kl: "k \<le> length (llog a t0)" if "proposed a t0 k" for t0 k
    using that by (simp add: proposed_def)
  show ?thesis
  proof (rule choose_invI, goal_cases)
    case (1 t0 k t' d)
    then have "t0 = t \<Longrightarrow> k \<le> length (llog a t)" using new [of k t' d] by (cases "k \<le> length (llog a t)") auto
    note o = old [OF 1(1,2) this]
    have eq: "take k (llog a t') = take k (llog a t0)"
      using choose_invD(1) [OF inv(4)] o 1(3,4) by simp
    then have "k \<le> length (llog a t')" using take_eq_length [OF eq [symmetric]] kl o by blast
    with eq show ?case using grow kl o by metis
  next
    case (2 t0 k p)
    show ?case
    proof (cases "p = c")
      case True
      show ?thesis
      proof (cases "t0 = t")
        case False
        note o = old [OF 2(1,2)]
        have "take k (alog a c) = take k (llog a t0)"
          using choose_invD(2) [OF inv(4)] o 2(3) False True by simp
        moreover from this have "k \<le> length (alog a c)"
          using take_eq_length kl o False by metis
        ultimately show ?thesis using True False same by simp
      qed (use True in simp)
    next
      case False
      then have "t0 = t \<Longrightarrow> k \<le> length (llog a t)"
        using 2(3) ack_invD(1) [OF inv(3), of t p] by simp
      note o = old [OF 2(1,2) this]
      show ?thesis using choose_invD(2) [OF inv(4)] o 2(3) False grow kl by (simp split: if_splits)
    qed
  next
    case (3 t0 k p t' d v)
    have "p \<noteq> c" if "t0 = t"
      using vote_invD(1) [OF inv(2), of t' p d v] 3(4,5) trm that by auto
    then have len: "t0 = t \<Longrightarrow> k \<le> length (llog a t)"
      using 3(3) ack_invD(1) [OF inv(3), of t p] by (auto split: if_splits)
    note o = old [OF 3(1,2) len]
    have "k \<le> aack a t0 p" using 3(3) len \<open>t0 = t \<Longrightarrow> p \<noteq> c\<close> by (auto split: if_splits)
    then have "take k v = take k (llog a t0)"
      using choose_invD(3) [OF inv(4)] o 3(4,5) by simp
    then show ?case using grow kl o by metis
  qed
qed

lemma choose_inv_accept:
  assumes inv: "log_inv n a" "vote_inv n a" "ack_inv a" "choose_inv n a"
    and ldr: "aldr a t = Some c" and trm: "aterm a p = t"
    and l: "l = (if take m (alog a p) = take m (llog a t) then alog a p else take m (llog a t))"
  shows "choose_inv n (a\<lparr>alog := (alog a)(p := l),
                         aack := (aack a)(t := (aack a t)(p := max (aack a t p) m))\<rparr>)"
    (is "choose_inv n ?a")
proof -
  have prp: "proposed ?a = proposed a" by (auto simp: proposed_def fun_eq_iff)
  have ch: "choosable n a t0 k" if "choosable n ?a t0 k" for t0 k
    by (rule choosable_back [OF that]) (use trm in \<open>auto split: if_splits\<close>)
  show ?thesis
  proof (rule choose_invI, unfold prp, goal_cases)
    case (1 t0 k t' d)
    then show ?case using choose_invD(1) [OF inv(4) _ ch] by simp
  next
    case (2 t0 k q)
    note h = choose_invD [OF inv(4) 2(1) ch [OF 2(2)]]
    show ?case
    proof (cases "q = p")
      case True
      show ?thesis
      proof (cases "t0 = t")
        case True
        with \<open>q = p\<close> 2(3) show ?thesis using accept_acks [OF inv(3) trm _ l] by simp
      next
        case False
        then have ack: "k \<le> aack a t0 p" using 2(3) \<open>q = p\<close> by simp
        have "0 < k" using 2(1) by (simp add: proposed_def)
        then have "t0 < t" using ack_invD(2) [OF inv(3), of t0 p] ack trm False by linarith
        then have "take k (llog a t) = take k (llog a t0)" using h(1) ldr by blast
        then show ?thesis using h(2) [OF ack] accept_keeps [OF l, of k] \<open>q = p\<close> by simp
      qed
    next
      case False
      with 2(3) h(2) show ?thesis by (auto split: if_splits)
    qed
  next
    case (3 t0 k q t' d v)
    have "k \<le> aack a t0 q"
      using 3(3-5) vote_invD(1) [OF inv(2), of t' q d v] trm by (auto split: if_splits)
    then show ?case using choose_invD(3) [OF inv(4) 3(1) ch [OF 3(2)]] 3(4,5) by simp
  qed
qed

subsection \<open>Every reachable state\<close>

lemma ainv_init: "ainv n ainit"
  by (auto simp: ainv_def log_inv_def vote_inv_def ack_inv_def choose_inv_def ainit_def
      sourced_def proposed_def dummyEntry_def)

lemma ainv_step:
  assumes "astep n a a'" and "ainv n a"
  shows "ainv n a'"
  using assms
proof (induction rule: astep.induct)
  case (new_term p a t)
  then show ?case
    unfolding ainv_def
    by (auto intro!: log_inv_term vote_inv_term ack_inv_term choose_inv_term)
next
  case (candidacy p t a)
  let ?b = "a\<lparr>aterm := (aterm a)(p := t)\<rparr>"
  have none: "avote a t p = None"
    using vote_invD(1) [of n a t p] candidacy by (cases "avote a t p") (auto simp: ainv_def)
  have "log_inv n ?b" "ack_inv ?b" "choose_inv n ?b"
    using candidacy by (auto simp: ainv_def intro!: log_inv_term ack_inv_term choose_inv_term)
  moreover from this(3) none have "choose_inv n (?b\<lparr>avote := (avote ?b)(t := (avote ?b t)(p := Some (p, alog ?b p)))\<rparr>)"
    by (intro choose_inv_cast) simp_all
  moreover from candidacy have "vote_inv n (?b\<lparr>avote := (avote a)(t := (avote a t)(p := Some (p, alog a p)))\<rparr>)"
    using vote_inv_candidacy [of n a t p] by (simp add: ainv_def)
  ultimately show ?case
    unfolding ainv_def by (simp add: log_inv_avote ack_inv_avote)
next
  case (vote p a t c clog)
  then show ?case
    unfolding ainv_def by (auto simp: log_inv_avote ack_inv_avote intro!: vote_inv_vote choose_inv_cast)
next
  case (elect c a t Q)
  from elect.prems have inv: "log_inv n a" "vote_inv n a" "ack_inv a" "choose_inv n a"
    by (simp_all add: ainv_def)
  have none: "aldr a t = None" by (rule elect_fresh [OF inv(2) elect.hyps(4,5,6)])
  have t: "1 \<le> t" using vote_invD(2) [OF inv(2) elect.hyps(3)] .
  show ?case
    unfolding ainv_def
    using log_inv_elect [OF inv(1) none elect.hyps(2) t elect.hyps(1)]
      vote_inv_elect [OF inv(1,2) none elect.hyps(3,5,6)]
      ack_inv_elect [OF inv(1,3) none elect.hyps(2)]
      choose_inv_elect [OF inv none elect.hyps(2,3,5,6)] by blast
next
  case (extend a t c e l)
  from extend.prems have inv: "log_inv n a" "vote_inv n a" "ack_inv a" "choose_inv n a"
    by (simp_all add: ainv_def)
  show ?case
    unfolding ainv_def extend.hyps(5)
    using log_inv_extend [OF inv(1) extend.hyps(1,3,4)] vote_inv_extend [OF inv(2) extend.hyps(1,4)]
      ack_inv_extend [OF inv(3) extend.hyps(1,3)] choose_inv_extend [OF inv extend.hyps(1,3)] by blast
next
  case (accept p a t c m l)
  from accept.prems have inv: "log_inv n a" "vote_inv n a" "ack_inv a" "choose_inv n a"
    by (simp_all add: ainv_def)
  have l: "l = alog a p \<or> l = take m (llog a t)" using accept.hyps(7) by simp
  show ?case
    unfolding ainv_def vote_inv_accept
    using log_inv_accept [OF inv(1) accept.hyps(3,2,6) l] inv(2)
      ack_inv_accept [OF inv(3) accept.hyps(3,2,4,5,7)]
      choose_inv_accept [OF inv accept.hyps(3,2,7)] by blast
qed

lemma ainv_steps: "(astep n)\<^sup>*\<^sup>* a b \<Longrightarrow> ainv n a \<Longrightarrow> ainv n b"
  by (induction rule: rtranclp_induct) (auto intro: ainv_step)

text \<open>What a step never takes back: leaders, their logs, acknowledgements, committed prefixes.\<close>

definition extends :: "'c araft \<Rightarrow> 'c araft \<Rightarrow> bool" where
  "extends a b \<longleftrightarrow>
     (\<forall>t c. aldr a t = Some c \<longrightarrow> aldr b t = Some c) \<and>
     (\<forall>t k. k \<le> length (llog a t) \<longrightarrow> take k (llog b t) = take k (llog a t)) \<and>
     (\<forall>t p. aack a t p \<le> aack b t p) \<and>
     (\<forall>p. aterm a p \<le> aterm b p) \<and>
     (\<forall>t p x. avote a t p = Some x \<longrightarrow> avote b t p = Some x)"

lemma extendsD:
  assumes "extends a b"
  shows "aldr a t = Some c \<Longrightarrow> aldr b t = Some c"
    and "k \<le> length (llog a t) \<Longrightarrow> take k (llog b t) = take k (llog a t)"
    and "aack a t p \<le> aack b t p" and "aterm a p \<le> aterm b p"
    and "avote a t p = Some x \<Longrightarrow> avote b t p = Some x"
  using assms unfolding extends_def by blast+

lemma extends_refl [simp]: "extends a a"
  by (simp add: extends_def)

lemma extends_length:
  assumes "extends a b"
  shows "length (llog a t) \<le> length (llog b t)"
  using take_eq_length [OF extendsD(2) [OF assms order_refl, symmetric] order_refl] .

lemma extends_nth:
  assumes "extends a b" and "k < length (llog a t)"
  shows "llog b t ! k = llog a t ! k"
  using take_eq_nth [OF extendsD(2) [OF assms(1) order_refl], of k t] assms(2) extends_length [OF assms(1), of t]
  by simp

lemma extends_trans:
  assumes ab: "extends a b" and bc: "extends b c"
  shows "extends a c"
proof -
  have "take k (llog c t) = take k (llog a t)" if "k \<le> length (llog a t)" for t k
    using extendsD(2) [OF ab that] extendsD(2) [OF bc, of k t] extends_length [OF ab, of t] that by simp
  moreover have "aack a t p \<le> aack c t p" for t p
    using extendsD(3) [OF ab, of t p] extendsD(3) [OF bc, of t p] by linarith
  moreover have "aterm a p \<le> aterm c p" for p
    using extendsD(4) [OF ab, of p] extendsD(4) [OF bc, of p] by linarith
  ultimately show ?thesis
    using extendsD(1,5) [OF ab] extendsD(1,5) [OF bc] unfolding extends_def by blast
qed

lemma astep_extends:
  assumes "astep n a b" and "ainv n a"
  shows "extends a b"
  using assms
proof (induction rule: astep.induct)
  case (candidacy p t a)
  then have "avote a t p = None"
    using vote_invD(1) [of n a t p] by (cases "avote a t p") (auto simp: ainv_def)
  with candidacy show ?case by (auto simp: extends_def)
next
  case (elect c a t Q)
  then have none: "aldr a t = None" using elect_fresh [of n a t c Q] by (simp add: ainv_def)
  from elect.prems none have "llog a t = []" using log_invD(5) [of n a t] by (simp add: ainv_def)
  moreover have "aack a t p = 0" for p using elect.prems none elect_no_ack [of n a t p] by (simp add: ainv_def)
  ultimately show ?case using none by (auto simp: extends_def)
next
  case (extend a t c e l)
  then have "aack a t c \<le> length l" using ack_invD(1) [of a t c] by (simp add: ainv_def)
  with extend show ?case by (auto simp: extends_def)
qed (auto simp: extends_def)

lemma asteps_extends:
  assumes "(astep n)\<^sup>*\<^sup>* a b" and "ainv n a"
  shows "extends a b"
  using assms
proof (induction rule: rtranclp_induct)
  case (step b c)
  then have "ainv n b" using ainv_steps by blast
  then show ?case using step extends_trans astep_extends by blast
qed simp

lemma committed_extends:
  assumes "extends a b" and "committed n a t k"
  shows "committed n b t k"
proof -
  from assms(2) obtain Q where Q: "majority n Q" "\<And>p. p \<in> Q \<Longrightarrow> k \<le> aack a t p"
    by (auto simp: committed_def)
  have "k \<le> aack b t p" if "p \<in> Q" for p
    using Q(2) [OF that] extendsD(3) [OF assms(1), of t p] by linarith
  moreover have "proposed b t k"
    using assms extends_nth [OF assms(1), of "k - 1" t] extends_length [OF assms(1), of t] extendsD(1) [OF assms(1), of t]
    by (auto simp: committed_def proposed_def)
  ultimately show ?thesis using Q(1) by (auto simp: committed_def)
qed

lemma committed_choosable: "committed n a t k \<Longrightarrow> proposed a t k \<and> choosable n a t k"
  by (auto simp: committed_def choosable_def)

text \<open>A committed prefix is in the log of every leader of a later term.\<close>

lemma committed_later:
  assumes "ainv n a" and "committed n a t k" and "t \<le> t'" and "aldr a t' = Some c"
  shows "take k (llog a t') = take k (llog a t)"
proof (cases "t = t'")
  case False
  with assms choose_invD(1) [of n a t k t' c] committed_choosable [OF assms(2)] show ?thesis
    by (auto simp: ainv_def)
qed simp

lemma committed_ldr: "committed n a t k \<Longrightarrow> \<exists>c. aldr a t = Some c"
  by (auto simp: committed_def proposed_def)

lemma committed_length: "committed n a t k \<Longrightarrow> k \<le> length (llog a t)"
  by (auto simp: committed_def proposed_def)

text \<open>Two committed prefixes agree on their common length.\<close>

lemma committed_agree:
  assumes "ainv n a" and "committed n a t k" and "committed n a t' k'" and "i < k" and "i < k'"
  shows "llog a t ! i = llog a t' ! i"
proof (cases "t \<le> t'")
  case True
  obtain c where "aldr a t' = Some c" using committed_ldr [OF assms(3)] by blast
  then have "take k (llog a t') = take k (llog a t)"
    using committed_later [OF assms(1,2) True] by blast
  then show ?thesis
    using take_eq_nth assms(4,5) committed_length [OF assms(3)] by (metis less_le_trans)
next
  case False
  then have le: "t' \<le> t" by simp
  obtain c where "aldr a t = Some c" using committed_ldr [OF assms(2)] by blast
  then have "take k' (llog a t) = take k' (llog a t')"
    using committed_later [OF assms(1,3) le] by blast
  then show ?thesis
    using take_eq_nth assms(4,5) committed_length [OF assms(2)] by (metis less_le_trans)
qed

end
