(* ===== verification/RaftLog.thy ===== *)
theory RaftLog
  imports RaftSpecInv
begin

section \<open>What the handlers of a peer do to its log\<close>

text \<open>
  A peer keeps the part of its log after the last snapshot. \<open>node_rel n i F rf\<close> says that
  \<open>rf\<close> is the peer \<open>i\<close> of \<open>n\<close>, that its log is the part of the whole log \<open>F\<close> that the
  snapshot leaves, behind the dummy entry that holds the term of the last entry of the
  snapshot, and that stable storage holds what a restart needs. The lemmas give the result
  of every handler on such a state, with the handler's index expressions inside their
  bounds: no handler panics.
\<close>

named_theorems raft_step \<open>the definitions of the small state changes of a peer\<close>

definition fresh :: "('c, 'd) Raft \<Rightarrow> bool" where
  "fresh rf \<longleftrightarrow> currentTerm rf = 0 \<and> votedFor rf = -1 \<and> log rf = [dummyEntry 0] \<and>
     lastIncludedIndex rf = 0 \<and> lastIncludedTerm rf = 0"

definition persisted :: "('c, 'd) Raft \<Rightarrow> bool" where
  "persisted rf \<longleftrightarrow> raftstate (persister rf) = encodeState rf \<or> raftstate (persister rf) = [] \<and> fresh rf"

definition node_rel :: "nat \<Rightarrow> nat \<Rightarrow> 'c alog \<Rightarrow> ('c, 'd) Raft \<Rightarrow> bool" where
  "node_rel n i F rf \<longleftrightarrow>
     peers rf = n \<and> me rf = i \<and> 0 \<le> lastIncludedIndex rf \<and>
     lastIncludedIndex rf \<le> commitIndex rf \<and> commitIndex rf < int (length F) \<and>
     0 \<le> lastApplied rf \<and> lastApplied rf \<le> commitIndex rf \<and>
     log rf = dummyEntry (le_Term (F ! nat (lastIncludedIndex rf))) #
              drop (Suc (nat (lastIncludedIndex rf))) F \<and>
     lastIncludedTerm rf = le_Term (F ! nat (lastIncludedIndex rf)) \<and> persisted rf"

lemma node_relD:
  assumes "node_rel n i F rf"
  shows "peers rf = n" and "me rf = i" and "0 \<le> lastIncludedIndex rf"
    and "lastIncludedIndex rf \<le> commitIndex rf" and "commitIndex rf < int (length F)"
    and "0 \<le> lastApplied rf" and "lastApplied rf \<le> commitIndex rf"
    and "log rf = dummyEntry (le_Term (F ! nat (lastIncludedIndex rf))) #
              drop (Suc (nat (lastIncludedIndex rf))) F"
    and "lastIncludedTerm rf = le_Term (F ! nat (lastIncludedIndex rf))" and "persisted rf"
  using assms by (auto simp: node_rel_def)

lemma node_rel_length: "node_rel n i F rf \<Longrightarrow> nat (lastIncludedIndex rf) < length F"
  by (auto simp: node_rel_def)

lemma node_rel_last: "node_rel n i F rf \<Longrightarrow> lastLogIndex rf = int (length F) - 1"
  using node_rel_length [of n i F rf] by (auto simp: node_rel_def lastLogIndex_def)

lemma node_rel_entry:
  assumes "node_rel n i F rf" and "lastIncludedIndex rf < idx" and "idx < int (length F)"
  shows "entryAt rf idx = Some (F ! nat idx)"
proof -
  define j where "j = nat (lastIncludedIndex rf)"
  define k where "k = nat idx - Suc j"
  have lii: "lastIncludedIndex rf = int j" using node_relD(3) [OF assms(1)] by (simp add: j_def)
  have idx: "idx = int (Suc j + k)" using assms(2) lii by (simp add: k_def)
  have "nat (idx - lastIncludedIndex rf) = Suc k" using idx lii by simp
  moreover have "nat idx = Suc j + k" using idx by (simp only: nat_int)
  then have "drop (Suc j) F ! k = F ! nat idx" using idx assms(3) by simp
  ultimately show ?thesis
    using node_relD(8) [OF assms(1)] idx lii assms(3) by (simp add: entryAt_def slice_get_def)
qed

lemma node_rel_term:
  assumes "node_rel n i F rf" and "lastIncludedIndex rf \<le> idx" and "idx < int (length F)"
  shows "termAt rf idx = Some (le_Term (F ! nat idx))"
proof (cases "idx = lastIncludedIndex rf")
  case True
  with node_relD(8) [OF assms(1)] show ?thesis
    by (simp add: termAt_def slice_get_def dummyEntry_def)
next
  case False
  then have "entryAt rf idx = Some (F ! nat idx)" using node_rel_entry assms by fastforce
  then show ?thesis by (simp add: termAt_def entryAt_def)
qed

lemma node_rel_ne: "node_rel n i F rf \<Longrightarrow> F \<noteq> []"
  using node_rel_length by fastforce

lemma node_rel_last_term:
  assumes "node_rel n i F rf"
  shows "termAt rf (lastLogIndex rf) = Some (le_Term (last F))"
proof -
  have "nat (int (length F) - 1) = length F - 1" by simp
  then show ?thesis
    using node_rel_term [OF assms, of "lastLogIndex rf"] node_rel_last [OF assms] node_rel_length [OF assms]
      node_rel_ne [OF assms] node_relD(3-5) [OF assms] by (simp add: last_conv_nth)
qed

lemma nat_int_Suc: "0 \<le> j \<Longrightarrow> nat (j + 1) = Suc (nat j)"
  by simp

text \<open>The tail of the log from an index.\<close>

lemma node_rel_slice:
  assumes "node_rel n i F rf" and "lastIncludedIndex rf \<le> idx" and "idx < int (length F)"
  shows "slice_from (log rf) (idx - lastIncludedIndex rf + 1) = Some (drop (Suc (nat idx)) F)"
proof -
  define j where "j = nat (lastIncludedIndex rf)"
  define k where "k = nat idx - j"
  have lii: "lastIncludedIndex rf = int j" using node_relD(3) [OF assms(1)] by (simp add: j_def)
  have idx: "idx = int (j + k)" using assms(2) lii by (simp add: k_def)
  have "nat idx = j + k" using idx by (simp only: nat_int)
  moreover have "idx - lastIncludedIndex rf + 1 = int (Suc k)" using idx lii by simp
  moreover have "slice_from (log rf) (int (Suc k)) = Some (drop (Suc (j + k)) F)"
    using node_relD(8) [OF assms(1)] idx lii assms(3)
    by (simp add: slice_from_def add.commute del: of_nat_Suc)
  ultimately show ?thesis by (simp only:)
qed

subsection \<open>Small state changes\<close>

lemmas raft_small [raft_step] =
  becomeFollower_def persist_def resetElectionTimer_def encodeState_def

lemma persisted_persist [simp]: "persisted (persist rf)"
  by (simp add: persisted_def persist_def Save_def encodeState_def)

lemma persisted_save:
  "persisted (rf\<lparr>persister := Save ps (encodeState rf) sn\<rparr>)"
  by (simp add: persisted_def Save_def encodeState_def)

lemma persisted_same:
  assumes "persisted rf" and "persister rf' = persister rf"
    and "currentTerm rf' = currentTerm rf" and "votedFor rf' = votedFor rf" and "log rf' = log rf"
    and "lastIncludedIndex rf' = lastIncludedIndex rf" and "lastIncludedTerm rf' = lastIncludedTerm rf"
  shows "persisted rf'"
  using assms by (simp add: persisted_def encodeState_def fresh_def)

text \<open>A change that leaves the log alone and writes stable storage, or leaves both alone.\<close>

lemma node_rel_same:
  assumes "node_rel n i F rf" and "persisted rf'"
    and "peers rf' = peers rf" and "me rf' = me rf" and "log rf' = log rf"
    and "lastIncludedIndex rf' = lastIncludedIndex rf" and "lastIncludedTerm rf' = lastIncludedTerm rf"
    and "commitIndex rf' = commitIndex rf" and "lastApplied rf' = lastApplied rf"
  shows "node_rel n i F rf'"
  using assms by (simp add: node_rel_def)

lemma node_rel_becomeFollower:
  "node_rel n i F rf \<Longrightarrow> node_rel n i F (becomeFollower t rf)"
  by (rule node_rel_same, assumption) (simp_all add: becomeFollower_def, simp_all add: persist_def)

lemma becomeFollower_fields [simp]:
  "currentTerm (becomeFollower t rf) = t" "votedFor (becomeFollower t rf) = -1"
  "role (becomeFollower t rf) = Follower" "log (becomeFollower t rf) = log rf"
  "lastIncludedIndex (becomeFollower t rf) = lastIncludedIndex rf"
  "lastIncludedTerm (becomeFollower t rf) = lastIncludedTerm rf"
  "commitIndex (becomeFollower t rf) = commitIndex rf"
  "lastApplied (becomeFollower t rf) = lastApplied rf" "peers (becomeFollower t rf) = peers rf"
  "me (becomeFollower t rf) = me rf" "applyCond (becomeFollower t rf) = applyCond rf"
  "nextIndex (becomeFollower t rf) = nextIndex rf" "matchIndex (becomeFollower t rf) = matchIndex rf"
  "dead (becomeFollower t rf) = dead rf"
  by (simp_all add: becomeFollower_def persist_def)

text \<open>
  The beginning of every handler of a request: a newer term makes the peer a follower of it.
\<close>

definition meetTerm :: "int \<Rightarrow> ('c, 'd) Raft \<Rightarrow> ('c, 'd) Raft" where
  "meetTerm t rf = (if t > currentTerm rf then becomeFollower t rf else rf)"

lemma node_rel_meetTerm: "node_rel n i F rf \<Longrightarrow> node_rel n i F (meetTerm t rf)"
  by (simp add: meetTerm_def node_rel_becomeFollower)

lemma meetTerm_fields [simp]:
  "currentTerm (meetTerm t rf) = max t (currentTerm rf)" "log (meetTerm t rf) = log rf"
  "votedFor (meetTerm t rf) = (if t > currentTerm rf then -1 else votedFor rf)"
  "role (meetTerm t rf) = (if t > currentTerm rf then Follower else role rf)"
  "lastIncludedIndex (meetTerm t rf) = lastIncludedIndex rf"
  "lastIncludedTerm (meetTerm t rf) = lastIncludedTerm rf"
  "commitIndex (meetTerm t rf) = commitIndex rf"
  "lastApplied (meetTerm t rf) = lastApplied rf" "peers (meetTerm t rf) = peers rf"
  "me (meetTerm t rf) = me rf" "applyCond (meetTerm t rf) = applyCond rf"
  "nextIndex (meetTerm t rf) = nextIndex rf" "matchIndex (meetTerm t rf) = matchIndex rf"
  "dead (meetTerm t rf) = dead rf"
  by (auto simp: meetTerm_def)

definition meetLeader :: "clock \<Rightarrow> int \<Rightarrow> ('c, 'd) Raft \<Rightarrow> ('c, 'd) Raft" where
  "meetLeader clk t rf = resetElectionTimer clk ((meetTerm t rf)\<lparr>role := Follower\<rparr>)"

lemma meetLeader_fields [simp]:
  "currentTerm (meetLeader clk t rf) = max t (currentTerm rf)" "log (meetLeader clk t rf) = log rf"
  "votedFor (meetLeader clk t rf) = (if t > currentTerm rf then -1 else votedFor rf)"
  "role (meetLeader clk t rf) = Follower"
  "lastIncludedIndex (meetLeader clk t rf) = lastIncludedIndex rf"
  "lastIncludedTerm (meetLeader clk t rf) = lastIncludedTerm rf"
  "commitIndex (meetLeader clk t rf) = commitIndex rf"
  "lastApplied (meetLeader clk t rf) = lastApplied rf" "peers (meetLeader clk t rf) = peers rf"
  "me (meetLeader clk t rf) = me rf" "applyCond (meetLeader clk t rf) = applyCond rf"
  "dead (meetLeader clk t rf) = dead rf"
  by (simp_all add: meetLeader_def resetElectionTimer_def)

lemma node_rel_meetLeader:
  assumes "node_rel n i F rf"
  shows "node_rel n i F (meetLeader clk t rf)"
proof (rule node_rel_same [OF node_rel_meetTerm [OF assms, of t]])
  show "persisted (meetLeader clk t rf)"
    by (rule persisted_same [OF node_relD(10) [OF node_rel_meetTerm [OF assms, of t]]])
      (simp_all add: meetLeader_def resetElectionTimer_def)
qed (simp_all add: meetLeader_def resetElectionTimer_def)

subsection \<open>Elections\<close>

lemma candidateUpToDate_rel:
  assumes "node_rel n i F rf"
  shows "candidateUpToDate rf (int (length C) - 1) (le_Term (last C)) = Some (upToDate C F)"
  using node_rel_last_term [OF assms] node_rel_last [OF assms]
  by (auto simp: candidateUpToDate_def upToDate_def)

text \<open>The result of \<^verbatim>\<open>RequestVote\<close>, for a candidate with the log \<open>C\<close>.\<close>

lemma RequestVote_rel:
  assumes rel: "node_rel n i F rf" and last: "LastLogIndex args = int (length C) - 1"
    and lterm: "LastLogTerm args = le_Term (last C)"
  shows "RequestVote clk rf args =
    (if rv_Term args < currentTerm rf
     then Some (rf, \<lparr>rvr_Term = currentTerm rf, VoteGranted = False\<rparr>)
     else let rf1 = meetTerm (rv_Term args) rf
          in if (votedFor rf1 = -1 \<or> votedFor rf1 = CandidateId args) \<and> upToDate C F
             then Some (persist (resetElectionTimer clk (rf1\<lparr>votedFor := CandidateId args\<rparr>)),
                        \<lparr>rvr_Term = rv_Term args, VoteGranted = True\<rparr>)
             else Some (rf1, \<lparr>rvr_Term = rv_Term args, VoteGranted = False\<rparr>))"
proof -
  have "candidateUpToDate (meetTerm (rv_Term args) rf) (LastLogIndex args) (LastLogTerm args) = Some (upToDate C F)"
    using candidateUpToDate_rel [OF node_rel_meetTerm [OF rel]] last lterm by simp
  then show ?thesis
    unfolding RequestVote_def meetTerm_def [symmetric] by (simp add: Let_def max_def)
qed

lemma node_rel_vote:
  assumes "node_rel n i F rf"
  shows "node_rel n i F (persist (resetElectionTimer clk (rf\<lparr>votedFor := c\<rparr>)))"
  by (rule node_rel_same [OF assms]) (simp_all, simp_all add: persist_def resetElectionTimer_def)

text \<open>The state of a candidate at the start of its election.\<close>

definition candidateState :: "clock \<Rightarrow> ('c, 'd) Raft \<Rightarrow> ('c, 'd) Raft" where
  "candidateState clk rf = persist (resetElectionTimer clk
     (rf\<lparr>role := Candidate, currentTerm := currentTerm rf + 1, votedFor := int (me rf)\<rparr>))"

lemma candidateState_fields [simp]:
  "currentTerm (candidateState clk rf) = currentTerm rf + 1"
  "votedFor (candidateState clk rf) = int (me rf)" "role (candidateState clk rf) = Candidate"
  "commitIndex (candidateState clk rf) = commitIndex rf" "log (candidateState clk rf) = log rf"
  "lastIncludedIndex (candidateState clk rf) = lastIncludedIndex rf"
  "lastApplied (candidateState clk rf) = lastApplied rf" "applyCond (candidateState clk rf) = applyCond rf"
  by (simp_all add: candidateState_def persist_def resetElectionTimer_def)

lemma node_rel_candidate:
  assumes "node_rel n i F rf"
  shows "node_rel n i F (candidateState clk rf)"
  by (rule node_rel_same [OF assms])
    (simp_all add: candidateState_def, simp_all add: persist_def resetElectionTimer_def)

lemma startElection_rel:
  assumes rel: "node_rel n i F rf"
  shows "startElection clk rf =
    Some (candidateState clk rf,
          \<lparr>rv_Term = currentTerm rf + 1, CandidateId = int i, LastLogIndex = int (length F) - 1,
           LastLogTerm = le_Term (last F)\<rparr>,
          filter (\<lambda>peer. peer \<noteq> i) [0..<n])"
  using node_rel_last_term [OF node_rel_candidate [OF rel, of clk]]
    node_rel_last [OF node_rel_candidate [OF rel, of clk]] node_relD(1,2) [OF node_rel_candidate [OF rel, of clk]]
  unfolding startElection_def candidateState_def [symmetric] by (simp add: Let_def)

subsection \<open>Entries of a leader\<close>

text \<open>
  The loop of \<^verbatim>\<open>AppendEntries\<close> on the whole log: \<open>mergeLog F k es\<close> is \<open>F\<close> with the entries
  \<open>es\<close> placed from index \<open>k\<close>.
\<close>

fun mergeLog :: "'c alog \<Rightarrow> nat \<Rightarrow> 'c alog \<Rightarrow> 'c alog" where
  "mergeLog F k [] = F"
| "mergeLog F k (e # es) =
     (if k < length F
      then (if le_Term (F ! k) = le_Term e then mergeLog F (Suc k) es else take k F @ e # es)
      else F @ e # es)"

lemma appendLoop_rel:
  assumes "node_rel n i F rf" and "lastIncludedIndex rf < int k" and "k \<le> length F"
  shows "appendLoop rf (int k) es =
    Some (rf\<lparr>log := dummyEntry (le_Term (F ! nat (lastIncludedIndex rf))) #
                  drop (Suc (nat (lastIncludedIndex rf))) (mergeLog F k es)\<rparr>)"
  using assms(2,3)
proof (induction es arbitrary: k)
  case Nil
  have "rf\<lparr>log := log rf\<rparr> = rf" by simp
  then show ?case using node_relD(8) [OF assms(1)] by simp
next
  case (Cons e es)
  have last: "lastLogIndex rf = int (length F) - 1" by (rule node_rel_last [OF assms(1)])
  have lii: "nat (lastIncludedIndex rf) < k" using Cons.prems(1) node_relD(3) [OF assms(1)] by linarith
  show ?case
  proof (cases "k < length F")
    case False
    then have "k = length F" using Cons.prems(2) by simp
    then show ?thesis
      using last lii node_relD(8) [OF assms(1)] by simp
  next
    case True
    have trm: "termAt rf (int k) = Some (le_Term (F ! k))"
      using node_rel_term [OF assms(1), of "int k"] Cons.prems(1) True by simp
    show ?thesis
    proof (cases "le_Term (F ! k) = le_Term e")
      case True
      have "int k + 1 = int (Suc k)" by simp
      then show ?thesis
        using True \<open>k < length F\<close> Cons.IH [of "Suc k"] Cons.prems(1) trm last by (simp add: add.commute)
    next
      case False
      define j where "j = nat (lastIncludedIndex rf)"
      have j: "lastIncludedIndex rf = int j" using node_relD(3) [OF assms(1)] by (simp add: j_def)
      have jk: "Suc (k - Suc j) = k - j" using lii j by simp
      have "nat (int k - int j) = k - j" by simp
      then have "slice_upto (log rf) (int k - lastIncludedIndex rf) =
          Some (dummyEntry (le_Term (F ! j)) # take (k - Suc j) (drop (Suc j) F))"
        using node_relD(8) [OF assms(1)] j lii \<open>k < length F\<close> jk [symmetric]
        by (simp add: slice_upto_def)
      moreover have "drop (Suc j) (take k F @ e # es) = take (k - Suc j) (drop (Suc j) F) @ e # es"
        using lii j \<open>k < length F\<close> by (simp add: drop_take)
      ultimately show ?thesis
        using False \<open>k < length F\<close> trm last j by simp
    qed
  qed
qed

text \<open>
  Entries taken from a leader's log \<open>G\<close>, placed where the logs agree: the result is the log
  itself if it has them all, and the leader's prefix otherwise.
\<close>

lemma mergeLog_prefix:
  assumes "sourced L F" and "sourced L G" and "take k F = take k G" and "k \<le> length F"
    and "es = take m (drop k G)" and "k + m \<le> length G"
  shows "mergeLog F k es = (if take (k + m) F = take (k + m) G then F else take (k + m) G)"
  using assms(3-6)
proof (induction es arbitrary: k m)
  case Nil
  then have "m = 0" by (cases m) auto
  with Nil show ?case by simp
next
  case (Cons e es)
  then obtain m' where m: "m = Suc m'" by (cases m) auto
  have kG: "k < length G" using Cons.prems(4) m by simp
  have dk: "drop k G = G ! k # drop (Suc k) G" using kG by (simp add: Cons_nth_drop_Suc)
  have e: "e = G ! k" and es: "es = take m' (drop (Suc k) G)" using Cons.prems(3) m dk by auto
  have app: "take k G @ e # es = take (k + m) G"
    using Cons.prems(3) by (metis take_add)
  show ?case
  proof (cases "k < length F")
    case False
    then have F: "F = take k G" using Cons.prems(1,2) by simp
    then have "length F < length (take (k + m) G)" using kG m by simp
    then have "take (k + m) F \<noteq> take (k + m) G"
      using False Cons.prems(2) by (metis le_add1 le_trans less_irrefl not_less take_all)
    with F False app show ?thesis by simp
  next
    case True
    show ?thesis
    proof (cases "le_Term (F ! k) = le_Term e")
      case eq: True
      have "take (Suc k) F = take (Suc k) G"
        using sourced_match [OF assms(1,2) True kG] eq e by simp
      then have "mergeLog F (Suc k) es = (if take (Suc k + m') F = take (Suc k + m') G then F
          else take (Suc k + m') G)"
        using Cons.IH [OF _ _ es] True Cons.prems(4) m by simp
      with True eq m show ?thesis by simp
    next
      case False
      have "take (k + m) F ! k \<noteq> take (k + m) G ! k" using False e m by auto
      then have "take (k + m) F \<noteq> take (k + m) G" by metis
      with True False app Cons.prems(1) show ?thesis by simp
    qed
  qed
qed

lemma conflictStart_rel:
  assumes "node_rel n i F rf" and "lastIncludedIndex rf \<le> idx" and "idx < int (length F)"
  shows "\<exists>j. conflictStart rf t idx = Some j \<and> lastIncludedIndex rf \<le> j \<and> j \<le> idx \<and>
    (\<forall>k. j \<le> k \<and> k < idx \<longrightarrow> le_Term (F ! nat k) = t) \<and>
    (j = lastIncludedIndex rf \<or> le_Term (F ! nat (j - 1)) \<noteq> t)"
  using assms(2,3)
proof (induction "nat (idx - lastIncludedIndex rf)" arbitrary: idx)
  case 0
  then have "idx = lastIncludedIndex rf" by simp
  then show ?case by (subst conflictStart.simps) auto
next
  case (Suc d)
  then have less: "lastIncludedIndex rf < idx" by simp
  have trm: "termAt rf (idx - 1) = Some (le_Term (F ! nat (idx - 1)))"
    using node_rel_term [OF assms(1), of "idx - 1"] less Suc.prems by simp
  show ?case
  proof (cases "le_Term (F ! nat (idx - 1)) = t")
    case True
    obtain j where j: "conflictStart rf t (idx - 1) = Some j" "lastIncludedIndex rf \<le> j" "j \<le> idx - 1"
      "\<And>k. j \<le> k \<Longrightarrow> k < idx - 1 \<Longrightarrow> le_Term (F ! nat k) = t"
      "j = lastIncludedIndex rf \<or> le_Term (F ! nat (j - 1)) \<noteq> t"
      using Suc.hyps(1) [of "idx - 1"] Suc.hyps(2) less Suc.prems by fastforce
    have "conflictStart rf t idx = Some j"
      using less trm True j(1) by (subst conflictStart.simps) simp
    moreover have "le_Term (F ! nat k) = t" if "j \<le> k" "k < idx" for k
      using j(4) [OF that(1)] True that by (cases "k = idx - 1") auto
    ultimately show ?thesis using j by (intro exI [of _ j]) auto
  next
    case False
    have "conflictStart rf t idx = Some idx"
      using less trm False by (subst conflictStart.simps) simp
    with False Suc.prems show ?thesis by (intro exI [of _ idx]) auto
  qed
qed

text \<open>
  A request that a leader with the log \<open>G\<close> has built, and the log of a follower that takes
  the first \<open>m\<close> entries of \<open>G\<close> over.
\<close>

definition fromLeader :: "'c alog \<Rightarrow> 'c AppendEntriesArgs \<Rightarrow> bool" where
  "fromLeader G args \<longleftrightarrow>
     0 \<le> PrevLogIndex args \<and> PrevLogIndex args + int (length (Entries args)) < int (length G) \<and>
     take (length (Entries args)) (drop (Suc (nat (PrevLogIndex args))) G) = Entries args \<and>
     PrevLogTerm args = le_Term (G ! nat (PrevLogIndex args)) \<and>
     0 \<le> LeaderCommit args \<and> LeaderCommit args \<le> PrevLogIndex args + int (length (Entries args))"

definition lastNew :: "'c AppendEntriesArgs \<Rightarrow> nat" where
  "lastNew args = nat (PrevLogIndex args) + length (Entries args)"

definition acceptLog :: "nat \<Rightarrow> 'c alog \<Rightarrow> 'c alog \<Rightarrow> 'c alog" where
  "acceptLog m F G = (if take m F = take m G then F else take m G)"

lemma acceptLog_length:
  assumes "m \<le> length G"
  shows "m \<le> length (acceptLog m F G)"
proof (cases "take m F = take m G")
  case True
  then show ?thesis using take_eq_length [OF True [symmetric] assms] by (simp add: acceptLog_def)
qed (use assms in \<open>simp add: acceptLog_def\<close>)

lemma acceptLog_keeps:
  "take k F = take k G \<Longrightarrow> take k (acceptLog m F G) = take k F"
  by (rule accept_keeps [of _ m F G]) (simp_all add: acceptLog_def)

text \<open>Replacing the log above the committed part keeps the relation.\<close>

lemma node_rel_newlog:
  assumes rel: "node_rel n i F rf" and keep: "take (Suc (nat (commitIndex rf))) F' = take (Suc (nat (commitIndex rf))) F"
    and len: "commitIndex rf < int (length F')" and c: "commitIndex rf \<le> c" "c < int (length F')"
    and rf': "rf' = (persist (rf\<lparr>log := dummyEntry (le_Term (F ! nat (lastIncludedIndex rf))) #
                  drop (Suc (nat (lastIncludedIndex rf))) F'\<rparr>))\<lparr>commitIndex := c, applyCond := b\<rparr>"
  shows "node_rel n i F' rf'"
proof -
  note d = node_relD [OF rel]
  have "F' ! nat (lastIncludedIndex rf) = F ! nat (lastIncludedIndex rf)"
    by (rule take_eq_nth [OF keep]) (use d(3,4) len in auto)
  moreover have "persisted rf'"
    unfolding rf' by (rule persisted_same [OF persisted_persist]) simp_all
  ultimately show ?thesis
    using d c unfolding node_rel_def rf' by (simp add: persist_def)
qed

text \<open>The part of \<^verbatim>\<open>AppendEntries\<close> after the consistency check.\<close>

lemma AppendEntries_accept_rel:
  assumes rel: "node_rel n i F rf" and src: "sourced L F" "sourced L G"
    and args: "fromLeader G args" and lii: "lastIncludedIndex rf \<le> PrevLogIndex args"
    and len: "PrevLogIndex args < int (length F)"
    and eq: "take (Suc (nat (PrevLogIndex args))) F = take (Suc (nat (PrevLogIndex args))) G"
    and agree: "take (Suc (nat (commitIndex rf))) F = take (Suc (nat (commitIndex rf))) G"
  shows "\<exists>rf'. AppendEntries_accept rf args reply = Some (rf', reply\<lparr>Success := True\<rparr>) \<and>
    node_rel n i (acceptLog (Suc (lastNew args)) F G) rf' \<and>
    commitIndex rf' = max (commitIndex rf) (LeaderCommit args) \<and>
    currentTerm rf' = currentTerm rf \<and> votedFor rf' = votedFor rf \<and> role rf' = role rf \<and>
    lastApplied rf' = lastApplied rf \<and> lastIncludedIndex rf' = lastIncludedIndex rf \<and>
    (applyCond rf' \<longleftrightarrow> applyCond rf \<or> commitIndex rf < commitIndex rf')"
proof -
  define k where "k = Suc (nat (PrevLogIndex args))"
  define m where "m = Suc (lastNew args)"
  define F' where "F' = acceptLog m F G"
  define lg where "lg = dummyEntry (le_Term (F ! nat (lastIncludedIndex rf))) #
                  drop (Suc (nat (lastIncludedIndex rf))) F'"
  have prev: "0 \<le> PrevLogIndex args" using args by (simp add: fromLeader_def)
  have km: "k + length (Entries args) = m" by (simp add: k_def m_def lastNew_def)
  have mG: "m \<le> length G" using args prev by (auto simp: fromLeader_def m_def lastNew_def)
  have merge: "mergeLog F k (Entries args) = F'"
    using mergeLog_prefix [OF src eq [folded k_def] _ _ , of "Entries args" "length (Entries args)"] args len prev km mG
    by (simp add: F'_def acceptLog_def fromLeader_def k_def)
  have loop: "appendLoop rf (PrevLogIndex args + 1) (Entries args) = Some (rf\<lparr>log := lg\<rparr>)"
    using appendLoop_rel [OF rel, of k "Entries args"] lii len prev merge
    by (simp add: k_def lg_def add.commute)
  have lenF': "m \<le> length F'" unfolding F'_def using acceptLog_length [OF mG] .
  have keep: "take (Suc (nat (commitIndex rf))) F' = take (Suc (nat (commitIndex rf))) F"
    unfolding F'_def by (rule acceptLog_keeps [OF agree])
  have cF': "commitIndex rf < int (length F')"
    using take_eq_length [OF keep [symmetric]] node_relD(3-5) [OF rel] by linarith
  have lc: "LeaderCommit args < int m"
    using args by (auto simp: fromLeader_def m_def lastNew_def)
  let ?rf1 = "persist (rf\<lparr>log := lg\<rparr>)"
  let ?rf' = "?rf1\<lparr>commitIndex := max (commitIndex rf) (LeaderCommit args),
                   applyCond := applyCond rf \<or> commitIndex rf < LeaderCommit args\<rparr>"
  have rel': "node_rel n i F' ?rf'"
    by (rule node_rel_newlog [OF rel keep cF']) (use lc lenF' cF' in \<open>auto simp: lg_def\<close>)
  have last: "lastLogIndex ?rf1 = int (length F') - 1"
    using node_rel_last [OF rel'] by (simp add: lastLogIndex_def)
  have "AppendEntries_accept rf args reply = Some (?rf', reply\<lparr>Success := True\<rparr>)"
    using loop last lc lenF'
    by (auto simp: AppendEntries_accept_def Let_def persist_def max_def min_def)
  then show ?thesis
    using rel' by (intro exI [of _ ?rf']) (auto simp: F'_def m_def persist_def)
qed

text \<open>The two replies of a follower that lacks the entry before the new ones.\<close>

definition conflictReply :: "'c alog \<Rightarrow> 'c AppendEntriesArgs \<Rightarrow> AppendEntriesReply \<Rightarrow> bool" where
  "conflictReply F args reply \<longleftrightarrow>
     (if PrevLogIndex args \<ge> int (length F)
      then ConflictTerm reply = -1 \<and> ConflictIndex reply = int (length F)
      else ConflictTerm reply = le_Term (F ! nat (PrevLogIndex args)) \<and>
           ConflictTerm reply \<noteq> PrevLogTerm args \<and>
           0 \<le> ConflictIndex reply \<and> ConflictIndex reply \<le> PrevLogIndex args \<and>
           (\<forall>k. ConflictIndex reply \<le> k \<and> k \<le> PrevLogIndex args \<longrightarrow>
              le_Term (F ! nat k) = ConflictTerm reply))"

lemma AppendEntries_check_rel:
  assumes rel: "node_rel n i F rf" and src: "sourced L F" "sourced L G"
    and args: "fromLeader G args" and lii: "lastIncludedIndex rf \<le> PrevLogIndex args"
    and agree: "take (Suc (nat (commitIndex rf))) F = take (Suc (nat (commitIndex rf))) G"
    and reply: "\<not> Success reply"
  shows "(\<exists>reply'. AppendEntries_check rf args reply = Some (rf, reply') \<and> \<not> Success reply' \<and>
            aer_Term reply' = aer_Term reply \<and> conflictReply F args reply') \<or>
    (\<exists>rf'. AppendEntries_check rf args reply = Some (rf', reply\<lparr>Success := True\<rparr>) \<and>
      node_rel n i (acceptLog (Suc (lastNew args)) F G) rf' \<and>
      commitIndex rf' = max (commitIndex rf) (LeaderCommit args) \<and>
      currentTerm rf' = currentTerm rf \<and> votedFor rf' = votedFor rf \<and> role rf' = role rf \<and>
      lastApplied rf' = lastApplied rf \<and> lastIncludedIndex rf' = lastIncludedIndex rf \<and>
      (applyCond rf' \<longleftrightarrow> applyCond rf \<or> commitIndex rf < commitIndex rf'))"
proof (cases "PrevLogIndex args < int (length F)")
  case False
  then have "AppendEntries_check rf args reply =
      Some (rf, reply\<lparr>ConflictIndex := int (length F), ConflictTerm := -1\<rparr>)"
    using node_rel_last [OF rel] by (simp add: AppendEntries_check_def)
  with False reply show ?thesis by (auto simp: conflictReply_def)
next
  case True
  let ?k = "nat (PrevLogIndex args)"
  have trm: "termAt rf (PrevLogIndex args) = Some (le_Term (F ! ?k))"
    by (rule node_rel_term [OF rel lii True])
  have k: "?k < length F" "?k < length G"
    using True args by (auto simp: fromLeader_def)
  have G: "PrevLogTerm args = le_Term (G ! ?k)" using args by (simp add: fromLeader_def)
  show ?thesis
  proof (cases "le_Term (F ! ?k) = PrevLogTerm args")
    case eq: True
    then have "take (Suc ?k) F = take (Suc ?k) G" using sourced_match [OF src k] G by simp
    then show ?thesis
      using AppendEntries_accept_rel [OF rel src args lii True _ agree, of reply] trm eq True node_rel_last [OF rel]
      by (simp add: AppendEntries_check_def)
  next
    case False
    define t where "t = le_Term (F ! ?k)"
    obtain j where j: "conflictStart rf t (PrevLogIndex args) = Some j"
      "lastIncludedIndex rf \<le> j" "j \<le> PrevLogIndex args"
      "\<And>k. j \<le> k \<Longrightarrow> k < PrevLogIndex args \<Longrightarrow> le_Term (F ! nat k) = t"
      using conflictStart_rel [OF rel lii True, of t] by blast
    have chk: "AppendEntries_check rf args reply = Some (rf, reply\<lparr>ConflictTerm := t, ConflictIndex := j\<rparr>)"
      using trm False True node_rel_last [OF rel] j(1) by (simp add: AppendEntries_check_def t_def)
    have run: "le_Term (F ! nat k) = t" if "j \<le> k" "k \<le> PrevLogIndex args" for k
      using j(4) [OF that(1)] that(2) by (cases "k = PrevLogIndex args") (auto simp: t_def)
    have "conflictReply F args (reply\<lparr>ConflictTerm := t, ConflictIndex := j\<rparr>)"
      using True False [folded t_def] j(2,3) node_relD(3) [OF rel] run by (simp add: conflictReply_def)
    with chk reply show ?thesis by auto
  qed
qed

lemma trimArgs_rel:
  assumes rel: "node_rel n i F rf" and args: "fromLeader G args"
    and agree: "take (Suc (nat (commitIndex rf))) F = take (Suc (nat (commitIndex rf))) G"
    and prev: "PrevLogIndex args < lastIncludedIndex rf"
    and len: "lastIncludedIndex rf < PrevLogIndex args + int (length (Entries args))"
  shows "fromLeader G (trimArgs rf args)" and "lastNew (trimArgs rf args) = lastNew args"
    and "PrevLogIndex (trimArgs rf args) = lastIncludedIndex rf"
    and "PrevLogTerm (trimArgs rf args) = le_Term (F ! nat (lastIncludedIndex rf))"
    and "LeaderCommit (trimArgs rf args) = LeaderCommit args"
proof -
  define p where "p = nat (PrevLogIndex args)"
  define l where "l = nat (lastIncludedIndex rf)"
  have p: "PrevLogIndex args = int p" using args by (simp add: p_def fromLeader_def)
  have l: "lastIncludedIndex rf = int l" using node_relD(3) [OF rel] by (simp add: l_def)
  have pl: "p < l" "l < p + length (Entries args)" using prev len p l by auto
  have off: "nat (lastIncludedIndex rf - PrevLogIndex args) = l - p" using p l by simp
  have trim: "trimArgs rf args = args\<lparr>PrevLogIndex := int l, PrevLogTerm := lastIncludedTerm rf,
      Entries := drop (l - p) (Entries args)\<rparr>"
    using pl p l off by (auto simp: trimArgs_def Let_def)
  have G: "p + length (Entries args) < length G" "take (length (Entries args)) (drop (Suc p) G) = Entries args"
    using args p by (auto simp: fromLeader_def)
  have nth: "F ! l = G ! l"
    by (rule take_eq_nth [OF agree]) (use node_relD(4,5) [OF rel] l in auto)
  have ents: "take (length (Entries args) - (l - p)) (drop (Suc l) G) = drop (l - p) (Entries args)"
  proof -
    have "drop (l - p) (Entries args) = drop (l - p) (take (length (Entries args)) (drop (Suc p) G))"
      using G(2) by simp
    also have "\<dots> = take (length (Entries args) - (l - p)) (drop (l - p + Suc p) G)"
      by (simp add: drop_take add.commute)
    also have "l - p + Suc p = Suc l" using pl by simp
    finally show ?thesis by simp
  qed
  show "fromLeader G (trimArgs rf args)"
    using args pl G(1) ents nth node_relD(9) [OF rel] l p unfolding trim fromLeader_def by auto
  show "lastNew (trimArgs rf args) = lastNew args"
    using pl p unfolding trim lastNew_def by simp
  show "PrevLogIndex (trimArgs rf args) = lastIncludedIndex rf"
    "PrevLogTerm (trimArgs rf args) = le_Term (F ! nat (lastIncludedIndex rf))"
    "LeaderCommit (trimArgs rf args) = LeaderCommit args"
    using l node_relD(9) [OF rel] unfolding trim by simp_all
qed

text \<open>
  The whole handler on a request of the leader of the peer's term or a newer one: either the
  reply tells the leader where to resume and the log stays, or the log has the entries.
\<close>

definition refusal :: "'c alog \<Rightarrow> ('c, 'd) Raft \<Rightarrow> 'c AppendEntriesArgs \<Rightarrow> AppendEntriesReply \<Rightarrow> bool" where
  "refusal F rf args reply \<longleftrightarrow>
     (if PrevLogIndex args < lastIncludedIndex rf
      then ConflictTerm reply = -1 \<and> ConflictIndex reply = lastIncludedIndex rf + 1
      else conflictReply F args reply)"

lemma AppendEntries_unfold:
  assumes "currentTerm rf \<le> ae_Term args"
  shows "AppendEntries clk rf args =
    (let reply0 = \<lparr>aer_Term = ae_Term args, Success = False, ConflictTerm = -1, ConflictIndex = -1\<rparr>;
         rf2 = meetLeader clk (ae_Term args) rf
     in if PrevLogIndex args < lastIncludedIndex rf
        then let reply2 = reply0\<lparr>ConflictIndex := lastIncludedIndex rf + 1, ConflictTerm := -1\<rparr>
             in if PrevLogIndex args + int (length (Entries args)) \<le> lastIncludedIndex rf
                then Some (rf2, reply2)
                else AppendEntries_check rf2 (trimArgs rf2 args) reply2
        else AppendEntries_check rf2 args reply0)"
  using assms unfolding AppendEntries_def Let_def meetTerm_def [symmetric] meetLeader_def [symmetric]
  by (simp add: max_def)

lemma AppendEntries_rel:
  assumes rel: "node_rel n i F rf" and src: "sourced L F" "sourced L G"
    and args: "fromLeader G args" and trm: "currentTerm rf \<le> ae_Term args"
    and agree: "take (Suc (nat (commitIndex rf))) F = take (Suc (nat (commitIndex rf))) G"
  obtains (refused) reply where "AppendEntries clk rf args = Some (meetLeader clk (ae_Term args) rf, reply)"
      and "\<not> Success reply" and "aer_Term reply = ae_Term args" and "refusal F rf args reply"
  | (accepted) rf' reply where "AppendEntries clk rf args = Some (rf', reply)"
      and "Success reply" and "aer_Term reply = ae_Term args"
      and "node_rel n i (acceptLog (Suc (lastNew args)) F G) rf'"
      and "commitIndex rf' = max (commitIndex rf) (LeaderCommit args)"
      and "currentTerm rf' = ae_Term args" and "role rf' = Follower"
      and "votedFor rf' = (if ae_Term args > currentTerm rf then -1 else votedFor rf)"
      and "lastApplied rf' = lastApplied rf" and "lastIncludedIndex rf' = lastIncludedIndex rf"
      and "applyCond rf' \<longleftrightarrow> applyCond rf \<or> commitIndex rf < commitIndex rf'"
proof -
  let ?rf2 = "meetLeader clk (ae_Term args) rf"
  let ?r0 = "\<lparr>aer_Term = ae_Term args, Success = False, ConflictTerm = -1, ConflictIndex = -1\<rparr>"
  note rel2 = node_rel_meetLeader [OF rel, of clk "ae_Term args"]
  note unf = AppendEntries_unfold [OF trm, of clk]
  have agree2: "take (Suc (nat (commitIndex ?rf2))) F = take (Suc (nat (commitIndex ?rf2))) G"
    using agree by simp
  show thesis
  proof (cases "PrevLogIndex args < lastIncludedIndex rf")
    case False
    then have lii: "lastIncludedIndex ?rf2 \<le> PrevLogIndex args" by simp
    have nsucc: "\<not> Success ?r0" by simp
    have eq: "AppendEntries clk rf args = AppendEntries_check ?rf2 args ?r0"
      using unf False by (simp add: Let_def)
    from AppendEntries_check_rel [OF rel2 src args lii agree2 nsucc] show thesis
    proof (elim disjE exE conjE)
      fix reply' assume "AppendEntries_check ?rf2 args ?r0 = Some (?rf2, reply')" "\<not> Success reply'"
        "aer_Term reply' = aer_Term ?r0" "conflictReply F args reply'"
      with eq False show thesis by (intro refused [of reply']) (simp_all add: refusal_def)
    next
      fix rf' assume h: "AppendEntries_check ?rf2 args ?r0 = Some (rf', ?r0\<lparr>Success := True\<rparr>)"
        "node_rel n i (acceptLog (Suc (lastNew args)) F G) rf'"
        "commitIndex rf' = max (commitIndex ?rf2) (LeaderCommit args)"
        "currentTerm rf' = currentTerm ?rf2" "votedFor rf' = votedFor ?rf2" "role rf' = role ?rf2"
        "lastApplied rf' = lastApplied ?rf2" "lastIncludedIndex rf' = lastIncludedIndex ?rf2"
        "applyCond rf' = (applyCond ?rf2 \<or> commitIndex ?rf2 < commitIndex rf')"
      show thesis
        by (rule accepted [of rf' "?r0\<lparr>Success := True\<rparr>"]) (use h eq trm in \<open>simp_all add: max_def\<close>)
    qed
  next
    case prev: True
    let ?r2 = "?r0\<lparr>ConflictIndex := lastIncludedIndex rf + 1, ConflictTerm := -1\<rparr>"
    show thesis
    proof (cases "PrevLogIndex args + int (length (Entries args)) \<le> lastIncludedIndex rf")
      case True
      with prev unf show thesis by (intro refused [of ?r2]) (auto simp: refusal_def Let_def)
    next
      case False
      let ?args = "trimArgs ?rf2 args"
      have len: "lastIncludedIndex ?rf2 < PrevLogIndex args + int (length (Entries args))"
        and prev2: "PrevLogIndex args < lastIncludedIndex ?rf2" using False prev by simp_all
      note t = trimArgs_rel [OF rel2 args agree2 prev2 len]
      have lii: "lastIncludedIndex ?rf2 \<le> PrevLogIndex ?args" using t(3) by simp
      have nsucc: "\<not> Success ?r2" by simp
      have eq: "AppendEntries clk rf args = AppendEntries_check ?rf2 ?args ?r2"
        using unf prev False by (simp add: Let_def)
      from AppendEntries_check_rel [OF rel2 src t(1) lii agree2 nsucc] show thesis
      proof (elim disjE exE conjE)
        fix reply' assume "conflictReply F ?args reply'"
        moreover have "PrevLogIndex ?args < int (length F)"
          using t(3) node_rel_length [OF rel2] node_relD(3) [OF rel2] by simp
        ultimately show thesis using t(3,4) by (auto simp: conflictReply_def)
      next
        fix rf' assume h: "AppendEntries_check ?rf2 ?args ?r2 = Some (rf', ?r2\<lparr>Success := True\<rparr>)"
          "node_rel n i (acceptLog (Suc (lastNew ?args)) F G) rf'"
          "commitIndex rf' = max (commitIndex ?rf2) (LeaderCommit ?args)"
          "currentTerm rf' = currentTerm ?rf2" "votedFor rf' = votedFor ?rf2" "role rf' = role ?rf2"
          "lastApplied rf' = lastApplied ?rf2" "lastIncludedIndex rf' = lastIncludedIndex ?rf2"
          "applyCond rf' = (applyCond ?rf2 \<or> commitIndex ?rf2 < commitIndex rf')"
        show thesis
          by (rule accepted [of rf' "?r2\<lparr>Success := True\<rparr>"])
            (use h eq trm t(2,5) in \<open>simp_all add: max_def\<close>)
      qed
    qed
  qed
qed

subsection \<open>Snapshots\<close>

lemma Snapshot_rel:
  assumes rel: "node_rel n i F rf"
  obtains rf' where "Snapshot rf index snap = Some rf'" and "node_rel n i F rf'"
    and "currentTerm rf' = currentTerm rf" and "votedFor rf' = votedFor rf" and "role rf' = role rf"
    and "commitIndex rf' = commitIndex rf" and "lastApplied rf' = lastApplied rf"
    and "nextIndex rf' = nextIndex rf" and "matchIndex rf' = matchIndex rf"
    and "lastIncludedIndex rf' = (if index \<le> commitIndex rf then max index (lastIncludedIndex rf) else lastIncludedIndex rf)"
    and "applyCond rf' = applyCond rf"
proof (cases "index \<le> lastIncludedIndex rf \<or> index > commitIndex rf")
  case True
  then have "Snapshot rf index snap = Some rf" by (simp add: Snapshot_def)
  with rel True show thesis by (intro that [of rf]) auto
next
  case False
  note d = node_relD [OF rel]
  have t: "termAt rf index = Some (le_Term (F ! nat index))"
    using node_rel_term [OF rel] False d(5) by simp
  have sl: "slice_from (log rf) (index - lastIncludedIndex rf + 1) = Some (drop (Suc (nat index)) F)"
    using node_rel_slice [OF rel] False d(5) by simp
  let ?rf1 = "rf\<lparr>log := dummyEntry (le_Term (F ! nat index)) # drop (Suc (nat index)) F,
                 lastIncludedTerm := le_Term (F ! nat index), lastIncludedIndex := index\<rparr>"
  let ?rf' = "?rf1\<lparr>persister := Save (persister ?rf1) (encodeState ?rf1) snap\<rparr>"
  have "Snapshot rf index snap = Some ?rf'"
    using False t sl by (simp add: Snapshot_def Let_def)
  moreover have "node_rel n i F ?rf'"
    using d False persisted_save [where rf = ?rf1 and ps = "persister ?rf1" and sn = snap] by (simp add: node_rel_def)
  ultimately show thesis using False by (intro that [of ?rf']) simp_all
qed

lemma installLog_rel:
  assumes rel: "node_rel n i F rf" and src: "sourced L F" "sourced L G"
    and j: "is_LastIncludedIndex args = int j" "lastIncludedIndex rf < int j" "j < length G"
    and trm: "is_LastIncludedTerm args = le_Term (G ! j)"
  shows "installLog rf args = Some (dummyEntry (le_Term (G ! j)) # drop (Suc j) (acceptLog (Suc j) F G))"
proof (cases "int j < lastLogIndex rf")
  case True
  then have jF: "Suc j < length F" using node_rel_last [OF rel] by simp
  have t: "termAt rf (int j) = Some (le_Term (F ! j))"
    using node_rel_term [OF rel, of "int j"] j(2) jF by simp
  show ?thesis
  proof (cases "le_Term (F ! j) = le_Term (G ! j)")
    case eq: True
    have "take (Suc j) F = take (Suc j) G" using sourced_match [OF src _ j(3) eq] jF by simp
    moreover have "slice_from (log rf) (int j - lastIncludedIndex rf + 1) = Some (drop (Suc j) F)"
      using node_rel_slice [OF rel, of "int j"] j(2) jF by simp
    ultimately show ?thesis
      using True t eq j(1) trm by (simp add: installLog_def acceptLog_def)
  next
    case False
    then have "take (Suc j) F \<noteq> take (Suc j) G" by (metis lessI nth_take)
    with False True t j trm show ?thesis by (simp add: installLog_def acceptLog_def)
  qed
next
  case False
  then have "length F \<le> Suc j" using node_rel_last [OF rel] by simp
  then have "drop (Suc j) (acceptLog (Suc j) F G) = []" by (simp add: acceptLog_def)
  with False j trm show ?thesis by (simp add: installLog_def)
qed

text \<open>A request to install the snapshot of a leader with the log \<open>G\<close>, up to index \<open>j\<close>.\<close>

definition snapFromLeader :: "'c alog \<Rightarrow> nat \<Rightarrow> 'd InstallSnapshotArgs \<Rightarrow> bool" where
  "snapFromLeader G j args \<longleftrightarrow> is_LastIncludedIndex args = int j \<and> j < length G \<and>
     is_LastIncludedTerm args = le_Term (G ! j)"

lemma InstallSnapshot_rel:
  assumes rel: "node_rel n i F rf" and src: "sourced L F" "sourced L G"
    and args: "snapFromLeader G j args" and trm: "currentTerm rf \<le> is_Term args"
    and agree: "take (Suc (nat (commitIndex rf))) F = take (Suc (nat (commitIndex rf))) G"
  obtains (stale) "InstallSnapshot clk rf args =
        Some (meetLeader clk (is_Term args) rf, \<lparr>isr_Term = is_Term args\<rparr>, None)"
      and "int j \<le> lastIncludedIndex rf"
  | (installed) rf' where "InstallSnapshot clk rf args =
        Some (rf', \<lparr>isr_Term = is_Term args\<rparr>, Some (snapshotMsg args))"
      and "lastIncludedIndex rf < int j" and "lastIncludedIndex rf' = int j"
      and "node_rel n i (acceptLog (Suc j) F G) rf'"
      and "commitIndex rf' = max (commitIndex rf) (int j)" and "lastApplied rf' = max (lastApplied rf) (int j)"
      and "currentTerm rf' = is_Term args" and "role rf' = Follower"
      and "votedFor rf' = (if is_Term args > currentTerm rf then -1 else votedFor rf)"
      and "applyCond rf' = applyCond rf"
proof -
  let ?rf2 = "meetLeader clk (is_Term args) rf"
  note rel2 = node_rel_meetLeader [OF rel, of clk "is_Term args"]
  note d = node_relD [OF rel]
  have j: "is_LastIncludedIndex args = int j" "j < length G" "is_LastIncludedTerm args = le_Term (G ! j)"
    using args by (auto simp: snapFromLeader_def)
  show thesis
  proof (cases "int j \<le> lastIncludedIndex rf")
    case True
    then have "InstallSnapshot clk rf args = Some (?rf2, \<lparr>isr_Term = is_Term args\<rparr>, None)"
      using trm j(1)
      unfolding InstallSnapshot_def Let_def meetTerm_def [symmetric] meetLeader_def [symmetric]
      by (simp add: max_def)
    with True show thesis by (rule stale [rotated])
  next
    case False
    define F' where "F' = acceptLog (Suc j) F G"
    have lii: "lastIncludedIndex ?rf2 < int j" using False by simp
    note log = installLog_rel [OF rel2 src j(1) lii j(2,3)]
    define rf3 where "rf3 = ?rf2\<lparr>log := dummyEntry (le_Term (G ! j)) # drop (Suc j) F',
        lastIncludedIndex := int j, lastIncludedTerm := le_Term (G ! j)\<rparr>"
    define rf4 where "rf4 = rf3\<lparr>commitIndex := max (commitIndex rf) (int j),
        lastApplied := max (lastApplied rf) (int j)\<rparr>"
    define rf5 where "rf5 = rf4\<lparr>persister := Save (persister rf4) (encodeState rf4) (is_Data args)\<rparr>"
    have eq: "InstallSnapshot clk rf args = Some (rf5, \<lparr>isr_Term = is_Term args\<rparr>, Some (snapshotMsg args))"
      using trm j log [folded F'_def] False
      unfolding InstallSnapshot_def Let_def meetTerm_def [symmetric] meetLeader_def [symmetric]
      by (simp add: max_def rf3_def rf4_def rf5_def)
    have lenF': "Suc j \<le> length F'" unfolding F'_def by (rule acceptLog_length) (use j(2) in simp)
    have keep: "take (Suc (nat (commitIndex rf))) F' = take (Suc (nat (commitIndex rf))) F"
      unfolding F'_def by (rule acceptLog_keeps [OF agree])
    have cF': "commitIndex rf < int (length F')"
      using take_eq_length [OF keep [symmetric]] d(3-5) by linarith
    have "take (Suc j) F' = take (Suc j) G" by (simp add: F'_def acceptLog_def)
    then have "F' ! j = G ! j" by (rule take_eq_nth) (use lenF' in auto)
    then have "node_rel n i F' rf5"
      using node_relD [OF rel2] lenF' cF' persisted_save [where rf = rf4 and ps = "persister rf4"]
      unfolding node_rel_def rf5_def by (auto simp: rf4_def rf3_def)
    with eq False trm show thesis
      by (intro installed [of rf5]) (simp_all add: rf5_def rf4_def rf3_def F'_def max_def)
  qed
qed

end
