(* ===== verification/RaftLeader.thy ===== *)
theory RaftLeader
  imports RaftLog
begin

section \<open>The leader's handlers, the applier and the restart on whole logs\<close>

text \<open>
  The second half of the lemmas of \<open>RaftLog\<close>: what \<^verbatim>\<open>Start\<close>, \<^verbatim>\<open>becomeLeader\<close>,
  \<^verbatim>\<open>replicateTo\<close>, the handling of replies, \<^verbatim>\<open>advanceCommit\<close>, \<^verbatim>\<open>applier\<close> and
  \<^verbatim>\<open>Make\<close> return, in terms of the whole log of the peer.
\<close>

subsection \<open>Leaders\<close>

lemma Start_rel:
  assumes rel: "node_rel n i F rf" and ldr: "role rf = Leader"
  obtains rf' where "Start rf c = (rf', (int (length F), currentTerm rf, True), broadcastAppendEntries rf')"
    and "node_rel n i (F @ [\<lparr>le_Term = currentTerm rf, le_Command = Some c\<rparr>]) rf'"
    and "currentTerm rf' = currentTerm rf" and "votedFor rf' = votedFor rf" and "role rf' = Leader"
    and "commitIndex rf' = commitIndex rf" and "nextIndex rf' = nextIndex rf"
    and "matchIndex rf' = matchIndex rf" and "lastApplied rf' = lastApplied rf"
    and "lastIncludedIndex rf' = lastIncludedIndex rf" and "applyCond rf' = applyCond rf"
proof -
  let ?e = "\<lparr>le_Term = currentTerm rf, le_Command = Some c\<rparr>"
  let ?rf1 = "rf\<lparr>log := log rf @ [?e]\<rparr>"
  have lii: "nat (lastIncludedIndex rf) < length F" by (rule node_rel_length [OF rel])
  have rel': "node_rel n i (F @ [?e]) (persist ?rf1)"
    using node_relD [OF rel] lii persisted_persist [of ?rf1]
    unfolding node_rel_def by (simp add: persist_def nth_append)
  have "lastLogIndex ?rf1 = int (length F)"
    using node_rel_last [OF rel'] by (simp add: lastLogIndex_def persist_def)
  then have "Start rf c = (persist ?rf1, (int (length F), currentTerm rf, True), broadcastAppendEntries (persist ?rf1))"
    using ldr by (simp add: Start_def Let_def persist_def)
  with rel' ldr show thesis by (intro that [of "persist ?rf1"]) (simp_all add: persist_def)
qed

text \<open>
  \<^verbatim>\<open>advanceCommit\<close> commits the last entry of the leader's term that a majority holds, judging
  by \<^verbatim>\<open>matchIndex\<close>.
\<close>

definition holders :: "nat \<Rightarrow> nat \<Rightarrow> ('c, 'd) Raft \<Rightarrow> int \<Rightarrow> nat set" where
  "holders n i rf c = {i} \<union> {p. p < n \<and> p \<noteq> i \<and> c \<le> matchIndex rf ! p}"

definition committable :: "nat \<Rightarrow> nat \<Rightarrow> 'c alog \<Rightarrow> ('c, 'd) Raft \<Rightarrow> int \<Rightarrow> bool" where
  "committable n i F rf c \<longleftrightarrow> le_Term (F ! nat c) = currentTerm rf \<and> majority n (holders n i rf c)"

definition lastCommittable :: "nat \<Rightarrow> nat \<Rightarrow> 'c alog \<Rightarrow> ('c, 'd) Raft \<Rightarrow> int \<Rightarrow> int \<Rightarrow> bool" where
  "lastCommittable n i F rf k c \<longleftrightarrow> commitIndex rf < c \<and> c \<le> k \<and> committable n i F rf c \<and>
     (\<forall>c'. c < c' \<and> c' \<le> k \<longrightarrow> \<not> committable n i F rf c')"

lemma replicaCount_majority:
  assumes rel: "node_rel n i F rf" and "i < n" and len: "length (matchIndex rf) = n"
  shows "\<exists>count. replicaCount rf c = Some count \<and>
    (count > int (n div 2) \<longleftrightarrow> majority n (holders n i rf c))"
proof -
  let ?P = "\<lambda>p. p \<noteq> i \<and> c \<le> matchIndex rf ! p"
  let ?S = "{p. p < n \<and> ?P p}"
  have "length (filter ?P [0..<n]) = card (set (filter ?P [0..<n]))"
    by (rule distinct_card [symmetric]) simp
  also have "set (filter ?P [0..<n]) = ?S" by auto
  finally have l: "length (filter ?P [0..<n]) = card ?S" .
  have "card (holders n i rf c) = 1 + card ?S" by (simp add: holders_def)
  moreover have "holders n i rf c \<subseteq> {..<n}" using assms(2) by (auto simp: holders_def)
  ultimately show ?thesis
    using l len node_relD(1,2) [OF rel] by (auto simp: replicaCount_def majority_def list_all_iff)
qed

lemma advanceLoop_rel:
  assumes rel: "node_rel n i F rf" and "i < n" and len: "length (matchIndex rf) = n"
    and "k < int (length F)"
  shows "(\<exists>c. lastCommittable n i F rf k c \<and>
       advanceLoop rf k = Some (rf\<lparr>commitIndex := c, applyCond := True\<rparr>)) \<or>
    (\<forall>c. commitIndex rf < c \<and> c \<le> k \<longrightarrow> \<not> committable n i F rf c) \<and> advanceLoop rf k = Some rf"
  using assms(4)
proof (induction "nat (k - commitIndex rf)" arbitrary: k)
  case 0
  then have "advanceLoop rf k = Some rf" by (subst advanceLoop.simps) simp
  with 0 show ?case by auto
next
  case (Suc d)
  have ck: "commitIndex rf < k" and d: "d = nat (k - 1 - commitIndex rf)" using Suc.hyps(2) by simp_all
  have t: "termAt rf k = Some (le_Term (F ! nat k))"
    using node_rel_term [OF rel] ck node_relD(4) [OF rel] Suc.prems by simp
  obtain count where count: "replicaCount rf k = Some count"
    "count > int (n div 2) \<longleftrightarrow> majority n (holders n i rf k)"
    using replicaCount_majority [OF rel assms(2) len] by blast
  show ?case
  proof (cases "committable n i F rf k")
    case True
    then have "advanceLoop rf k = Some (rf\<lparr>commitIndex := k, applyCond := True\<rparr>)"
      using ck t count node_relD(1) [OF rel] by (subst advanceLoop.simps) (auto simp: committable_def)
    moreover have "lastCommittable n i F rf k k" using True ck by (auto simp: lastCommittable_def)
    ultimately show ?thesis by blast
  next
    case False
    then have eq: "advanceLoop rf k = advanceLoop rf (k - 1)"
      using ck t count node_relD(1) [OF rel] by (subst advanceLoop.simps) (auto simp: committable_def)
    have ext: "c \<le> k \<and> P c \<longleftrightarrow> c \<le> k - 1 \<and> P c" if "\<not> P k" for c and P :: "int \<Rightarrow> bool"
      using that by (cases "c = k") auto
    have "lastCommittable n i F rf k c" if "lastCommittable n i F rf (k - 1) c" for c
      using that ext [of "committable n i F rf", OF False] unfolding lastCommittable_def by blast
    moreover have "(\<forall>c. commitIndex rf < c \<and> c \<le> k - 1 \<longrightarrow> \<not> committable n i F rf c) \<Longrightarrow>
        (\<forall>c. commitIndex rf < c \<and> c \<le> k \<longrightarrow> \<not> committable n i F rf c)"
      using ext [of "committable n i F rf"] False by blast
    moreover have "k - 1 < int (length F)" using Suc.prems by simp
    ultimately show ?thesis using Suc.hyps(1) [OF d] unfolding eq by blast
  qed
qed

lemma lastOfTerm_rel:
  assumes rel: "node_rel n i F rf" and "k < int (length F)"
  shows "\<exists>l. lastOfTerm rf t k = Some l \<and>
    (l = -1 \<and> (\<forall>j. lastIncludedIndex rf < j \<and> j \<le> k \<longrightarrow> le_Term (F ! nat j) \<noteq> t) \<or>
     lastIncludedIndex rf < l \<and> l \<le> k \<and> le_Term (F ! nat l) = t)"
  using assms(2)
proof (induction "nat (k - lastIncludedIndex rf)" arbitrary: k)
  case 0
  then have "lastOfTerm rf t k = Some (-1)" by (subst lastOfTerm.simps) simp
  with 0 show ?case by auto
next
  case (Suc d)
  then have less: "lastIncludedIndex rf < k" and d: "d = nat (k - 1 - lastIncludedIndex rf)" by simp_all
  have trm: "termAt rf k = Some (le_Term (F ! nat k))"
    using node_rel_term [OF rel] less Suc.prems by simp
  show ?case
  proof (cases "le_Term (F ! nat k) = t")
    case True
    then have "lastOfTerm rf t k = Some k" using less trm by (subst lastOfTerm.simps) simp
    with True less show ?thesis by auto
  next
    case False
    then have eq: "lastOfTerm rf t k = lastOfTerm rf t (k - 1)"
      using less trm by (subst lastOfTerm.simps) simp
    obtain l where l: "lastOfTerm rf t (k - 1) = Some l"
      "l = -1 \<and> (\<forall>j. lastIncludedIndex rf < j \<and> j \<le> k - 1 \<longrightarrow> le_Term (F ! nat j) \<noteq> t) \<or>
       lastIncludedIndex rf < l \<and> l \<le> k - 1 \<and> le_Term (F ! nat l) = t"
      using Suc.hyps(1) [OF d] Suc.prems by auto
    have "le_Term (F ! nat j) \<noteq> t"
      if "\<forall>j. lastIncludedIndex rf < j \<and> j \<le> k - 1 \<longrightarrow> le_Term (F ! nat j) \<noteq> t"
        "lastIncludedIndex rf < j" "j \<le> k" for j
      using that False by (cases "j = k") auto
    with eq l show ?thesis by fastforce
  qed
qed

text \<open>The arrays of a leader: an entry for each peer, inside the leader's log.\<close>

definition indices_ok :: "nat \<Rightarrow> 'c alog \<Rightarrow> ('c, 'd) Raft \<Rightarrow> bool" where
  "indices_ok n F rf \<longleftrightarrow> length (nextIndex rf) = n \<and> length (matchIndex rf) = n \<and>
     (\<forall>p < n. 1 \<le> nextIndex rf ! p \<and> nextIndex rf ! p \<le> int (length F) \<and>
        0 \<le> matchIndex rf ! p \<and> matchIndex rf ! p < int (length F))"

lemma indices_okD:
  assumes "indices_ok n F rf"
  shows "length (nextIndex rf) = n" and "length (matchIndex rf) = n"
    and "p < n \<Longrightarrow> 1 \<le> nextIndex rf ! p" and "p < n \<Longrightarrow> nextIndex rf ! p \<le> int (length F)"
    and "p < n \<Longrightarrow> 0 \<le> matchIndex rf ! p" and "p < n \<Longrightarrow> matchIndex rf ! p < int (length F)"
  using assms by (auto simp: indices_ok_def)

lemma slice_get_nth [simp]: "p < length xs \<Longrightarrow> slice_get xs (int p) = Some (xs ! p)"
  by (simp add: slice_get_def)

lemma slice_set_update [simp]: "p < length xs \<Longrightarrow> slice_set xs (int p) v = Some (xs[p := v])"
  by (simp add: slice_set_def)

lemma nth_update_if: "(xs[p := v]) ! j = (if p = j \<and> j < length xs then v else xs ! j)"
  by (cases "p < length xs") (auto simp: nth_list_update list_update_beyond)

lemma node_rel_arrays:
  "node_rel n i F rf \<Longrightarrow> node_rel n i F (rf\<lparr>nextIndex := ni\<rparr>)"
  "node_rel n i F rf \<Longrightarrow> node_rel n i F (rf\<lparr>matchIndex := mi\<rparr>)"
  "node_rel n i F rf \<Longrightarrow> node_rel n i F (rf\<lparr>role := r\<rparr>)"
  "node_rel n i F rf \<Longrightarrow> node_rel n i F (rf\<lparr>applyCond := b\<rparr>)"
  "node_rel n i F rf \<Longrightarrow> node_rel n i F (rf\<lparr>dead := b\<rparr>)"
  by (rule node_rel_same, assumption, rule persisted_same, rule node_relD(10), assumption, simp_all)+

lemma becomeLeader_rel:
  assumes rel: "node_rel n i F rf" and "role rf = Candidate"
  obtains rf' where "becomeLeader rf = (rf', broadcastAppendEntries rf')" and "node_rel n i F rf'"
    and "role rf' = Leader" and "indices_ok n F rf'" and "\<And>p. p < n \<Longrightarrow> matchIndex rf' ! p = 0"
    and "currentTerm rf' = currentTerm rf" and "votedFor rf' = votedFor rf"
    and "commitIndex rf' = commitIndex rf" and "lastApplied rf' = lastApplied rf"
    and "lastIncludedIndex rf' = lastIncludedIndex rf" and "applyCond rf' = applyCond rf"
proof -
  let ?rf' = "rf\<lparr>role := Leader, nextIndex := replicate (peers rf) (lastLogIndex rf + 1),
                 matchIndex := replicate (peers rf) 0\<rparr>"
  have "node_rel n i F ?rf'" using rel by (intro node_rel_arrays)
  moreover have "indices_ok n F ?rf'"
    using node_rel_last [OF rel] node_relD(1) [OF rel] node_rel_ne [OF rel]
    by (cases F) (simp_all add: indices_ok_def)
  moreover have "becomeLeader rf = (?rf', broadcastAppendEntries ?rf')"
    using assms(2) by (simp add: becomeLeader_def Let_def)
  ultimately show thesis using node_relD(1) [OF rel] by (intro that [of ?rf']) simp_all
qed

lemma replicateTo_rel:
  assumes rel: "node_rel n i F rf" and ldr: "role rf = Leader" and idx: "indices_ok n F rf" and "server < n"
  obtains (snap) args where "replicateTo rf server (currentTerm rf) = Some (CallInstallSnapshot args)"
      and "snapFromLeader F (nat (lastIncludedIndex rf)) args" and "is_Term args = currentTerm rf"
      and "is_LeaderId args = int i" and "is_Data args = snapshot (persister rf)"
      and "nextIndex rf ! server \<le> lastIncludedIndex rf"
  | (append) args where "replicateTo rf server (currentTerm rf) = Some (CallAppendEntries args)"
      and "fromLeader F args" and "ae_Term args = currentTerm rf" and "ae_LeaderId args = int i"
      and "LeaderCommit args = commitIndex rf" and "PrevLogIndex args = nextIndex rf ! server - 1"
      and "lastIncludedIndex rf < nextIndex rf ! server" and "lastNew args = length F - 1"
proof -
  note d = node_relD [OF rel] and x = indices_okD [OF idx]
  let ?nx = "nextIndex rf ! server"
  have nx: "slice_get (nextIndex rf) (int server) = Some ?nx" using x(1) assms(4) by simp
  show thesis
  proof (cases "?nx \<le> lastIncludedIndex rf")
    case True
    let ?a = "\<lparr>is_Term = currentTerm rf, is_LeaderId = int (me rf), is_LastIncludedIndex = lastIncludedIndex rf,
                is_LastIncludedTerm = lastIncludedTerm rf, is_Data = ReadSnapshot (persister rf)\<rparr>"
    have "replicateTo rf server (currentTerm rf) = Some (CallInstallSnapshot ?a)"
      using ldr nx True by (simp add: replicateTo_def)
    with d True show thesis by (intro snap [of ?a]) (simp_all add: snapFromLeader_def ReadSnapshot_def)
  next
    case False
    define pr where "pr = nat (?nx - 1)"
    have pr: "?nx - 1 = int pr" using x(3) [OF assms(4)] by (simp add: pr_def)
    have pr_lt: "pr < length F" using x(4) [OF assms(4)] pr by simp
    have lii: "lastIncludedIndex rf \<le> int pr" using False pr by simp
    let ?a = "\<lparr>ae_Term = currentTerm rf, ae_LeaderId = int (me rf), PrevLogIndex = int pr,
             PrevLogTerm = le_Term (F ! pr), Entries = drop (Suc pr) F, LeaderCommit = commitIndex rf\<rparr>"
    have "termAt rf (int pr) = Some (le_Term (F ! pr))"
      using node_rel_term [OF rel lii] pr_lt by simp
    moreover have "slice_from (log rf) (int pr - lastIncludedIndex rf + 1) = Some (drop (Suc pr) F)"
      using node_rel_slice [OF rel lii] pr_lt by simp
    ultimately have eq: "replicateTo rf server (currentTerm rf) = Some (CallAppendEntries ?a)"
      using ldr nx False pr pr_lt node_rel_last [OF rel] by (simp add: replicateTo_def)
    have "fromLeader F ?a" using pr_lt d(3-5) by (simp add: fromLeader_def)
    with eq show thesis
      using pr pr_lt False d(2) by (intro append [of ?a]) (simp_all add: lastNew_def)
  qed
qed

text \<open>A leader's arrays after a reply: a new match, or a new start.\<close>

definition setMatch :: "nat \<Rightarrow> int \<Rightarrow> ('c, 'd) Raft \<Rightarrow> ('c, 'd) Raft" where
  "setMatch p m rf = rf\<lparr>matchIndex := (matchIndex rf)[p := m], nextIndex := (nextIndex rf)[p := m + 1]\<rparr>"

lemma setMatch_rel:
  assumes "node_rel n i F rf" and "indices_ok n F rf" and "0 \<le> m" and "m < int (length F)"
  shows "node_rel n i F (setMatch p m rf)" and "indices_ok n F (setMatch p m rf)"
proof -
  show "node_rel n i F (setMatch p m rf)"
    unfolding setMatch_def using assms(1) by (intro node_rel_arrays)
  show "indices_ok n F (setMatch p m rf)"
    using assms(2-4) by (auto simp: setMatch_def indices_ok_def nth_update_if)
qed

lemma setMatch_fields [simp]:
  "role (setMatch p m rf) = role rf" "currentTerm (setMatch p m rf) = currentTerm rf"
  "votedFor (setMatch p m rf) = votedFor rf" "commitIndex (setMatch p m rf) = commitIndex rf"
  "lastApplied (setMatch p m rf) = lastApplied rf" "applyCond (setMatch p m rf) = applyCond rf"
  "lastIncludedIndex (setMatch p m rf) = lastIncludedIndex rf"
  "matchIndex (setMatch p m rf) = (matchIndex rf)[p := m]"
  by (simp_all add: setMatch_def)

lemma installReply_rel:
  assumes "indices_ok n F rf" and "role rf = Leader" and "server < n"
    and "isr_Term reply \<le> currentTerm rf"
  shows "installReply rf server (currentTerm rf) args reply =
     Some (setMatch server (max (matchIndex rf ! server) (is_LastIncludedIndex args)) rf)"
  using assms(2-4) indices_okD(1,2) [OF assms(1)] by (simp add: installReply_def setMatch_def Let_def)

text \<open>Where the leader resumes after a refusal.\<close>

definition resumeAt :: "'c alog \<Rightarrow> ('c, 'd) Raft \<Rightarrow> nat \<Rightarrow> AppendEntriesReply \<Rightarrow> int \<Rightarrow> bool" where
  "resumeAt F rf server reply v \<longleftrightarrow>
     (if ConflictTerm reply = -1
      then v = max 1 (if ConflictIndex reply > 0 then ConflictIndex reply else nextIndex rf ! server)
      else lastIncludedIndex rf < v - 1 \<and> v \<le> int (length F) \<and> le_Term (F ! nat (v - 1)) = ConflictTerm reply \<or>
           v = max 1 (ConflictIndex reply) \<and>
           (\<forall>j. lastIncludedIndex rf < j \<and> j < int (length F) \<longrightarrow> le_Term (F ! nat j) \<noteq> ConflictTerm reply))"

lemma backUp_rel:
  assumes rel: "node_rel n i F rf" and idx: "indices_ok n F rf" and "server < n"
  obtains v where "backUp rf server reply = Some (rf\<lparr>nextIndex := (nextIndex rf)[server := v]\<rparr>)"
    and "resumeAt F rf server reply v"
proof -
  note x = indices_okD [OF idx]
  have fin: "(do { n \<leftarrow> slice_get ((nextIndex rf)[server := w]) (int server);
      ni2 \<leftarrow> (if n < 1 then slice_set ((nextIndex rf)[server := w]) (int server) 1
               else Some ((nextIndex rf)[server := w]));
      Some (rf\<lparr>nextIndex := ni2\<rparr>) }) = Some (rf\<lparr>nextIndex := (nextIndex rf)[server := max 1 w]\<rparr>)" for w
    using x(1) assms(3) by (simp add: max_def)
  note unf = backUp_def
  show thesis
  proof (cases "ConflictTerm reply = -1")
    case True
    let ?w = "if ConflictIndex reply > 0 then ConflictIndex reply else nextIndex rf ! server"
    have "backUp rf server reply = Some (rf\<lparr>nextIndex := (nextIndex rf)[server := max 1 ?w]\<rparr>)"
      using True fin [of ?w] x(1) assms(3) by (simp add: unf)
    with True show thesis by (intro that) (simp_all add: resumeAt_def)
  next
    case False
    have last: "lastLogIndex rf = int (length F) - 1" by (rule node_rel_last [OF rel])
    obtain l where l: "lastOfTerm rf (ConflictTerm reply) (lastLogIndex rf) = Some l"
      "l = -1 \<and> (\<forall>j. lastIncludedIndex rf < j \<and> j \<le> lastLogIndex rf \<longrightarrow> le_Term (F ! nat j) \<noteq> ConflictTerm reply) \<or>
       lastIncludedIndex rf < l \<and> l \<le> lastLogIndex rf \<and> le_Term (F ! nat l) = ConflictTerm reply"
      using lastOfTerm_rel [OF rel, of "lastLogIndex rf" "ConflictTerm reply"] last by auto
    let ?w = "if l \<ge> 0 then l + 1 else ConflictIndex reply"
    have "backUp rf server reply = Some (rf\<lparr>nextIndex := (nextIndex rf)[server := max 1 ?w]\<rparr>)"
      using False fin [of ?w] l(1) x(1) assms(3) by (simp add: unf)
    moreover have "resumeAt F rf server reply (max 1 ?w)"
      using l(2) False last node_relD(3) [OF rel] by (auto simp: resumeAt_def)
    ultimately show thesis by (rule that)
  qed
qed

subsection \<open>The applier\<close>

lemma applier_rel:
  assumes rel: "node_rel n i F rf"
  obtains (delivers) rf' where "applier rf = Some (rf', Deliver (commandMsg (le_Command (F ! nat (lastApplied rf + 1))) (lastApplied rf + 1)))"
      and "rf' = rf\<lparr>lastApplied := lastApplied rf + 1\<rparr>" and "node_rel n i F rf'"
      and "lastApplied rf < commitIndex rf"
  | (waits) rf' where "applier rf = Some (rf', Wait)" and "rf' = rf\<lparr>applyCond := False\<rparr>"
      and "node_rel n i F rf'" and "lastApplied rf = commitIndex rf \<or> lastApplied rf < lastIncludedIndex rf"
proof (cases "lastApplied rf < commitIndex rf \<and> lastApplied rf \<ge> lastIncludedIndex rf")
  case True
  let ?rf' = "rf\<lparr>lastApplied := lastApplied rf + 1\<rparr>"
  have "persisted ?rf'" by (rule persisted_same [OF node_relD(10) [OF rel]]) simp_all
  then have rel': "node_rel n i F ?rf'" using node_relD [OF rel] True by (simp add: node_rel_def)
  have "entryAt ?rf' (lastApplied rf + 1) = Some (F ! nat (lastApplied rf + 1))"
    using node_rel_entry [OF rel'] True node_relD(5) [OF rel] by simp
  then have "applier rf = Some (?rf', Deliver (commandMsg (le_Command (F ! nat (lastApplied rf + 1))) (lastApplied rf + 1)))"
    using True by (simp add: applier_def)
  with rel' True show thesis by (intro delivers [of ?rf']) simp_all
next
  case False
  then have "applier rf = Some (rf\<lparr>applyCond := False\<rparr>, Wait)" unfolding applier_def by (rule if_not_P)
  moreover have "lastApplied rf = commitIndex rf \<or> lastApplied rf < lastIncludedIndex rf"
    using False node_relD(7) [OF rel] by linarith
  ultimately show thesis using node_rel_arrays(4) [OF rel] by (intro waits [of "rf\<lparr>applyCond := False\<rparr>"]) simp_all
qed

subsection \<open>Restart\<close>

text \<open>
  \<^verbatim>\<open>Make\<close> on a copy of the stable storage of a peer: the term, the vote and the log survive,
  and the service starts from the snapshot.
\<close>

lemma Make_rel:
  assumes rel: "node_rel n i F rf"
  shows "node_rel n i F (Make clk n i (Copy (persister rf)))"
    and "currentTerm (Make clk n i (Copy (persister rf))) = currentTerm rf"
    and "votedFor (Make clk n i (Copy (persister rf))) = votedFor rf"
    and "role (Make clk n i (Copy (persister rf))) = Follower"
    and "lastIncludedIndex (Make clk n i (Copy (persister rf))) = lastIncludedIndex rf"
    and "commitIndex (Make clk n i (Copy (persister rf))) = lastIncludedIndex rf"
    and "lastApplied (Make clk n i (Copy (persister rf))) = lastIncludedIndex rf"
proof -
  let ?rf' = "Make clk n i (Copy (persister rf))"
  have keep: "currentTerm ?rf' = currentTerm rf \<and> votedFor ?rf' = votedFor rf \<and> log ?rf' = log rf \<and>
     lastIncludedIndex ?rf' = lastIncludedIndex rf \<and> lastIncludedTerm ?rf' = lastIncludedTerm rf \<and>
     commitIndex ?rf' = lastIncludedIndex rf \<and> lastApplied ?rf' = lastIncludedIndex rf \<and>
     role ?rf' = Follower \<and> peers ?rf' = n \<and> me ?rf' = i \<and> raftstate (persister ?rf') = raftstate (persister rf)"
    using node_relD(10) [OF rel]
    by (auto simp: Make_def readPersist_def persisted_def fresh_def encodeState_def decodeState_def
        Copy_def ReadRaftState_def resetElectionTimer_def Let_def)
  moreover from keep have "persisted ?rf'"
    using node_relD(10) [OF rel] by (simp add: persisted_def encodeState_def fresh_def)
  ultimately show "node_rel n i F ?rf'"
    using node_relD [OF rel] by (simp add: node_rel_def)
  from keep show "currentTerm ?rf' = currentTerm rf" "votedFor ?rf' = votedFor rf" "role ?rf' = Follower"
    "lastIncludedIndex ?rf' = lastIncludedIndex rf" "commitIndex ?rf' = lastIncludedIndex rf"
    "lastApplied ?rf' = lastIncludedIndex rf" by simp_all
qed

lemma Make_fresh:
  "node_rel n i [dummyEntry 0] (Make clk n i MakePersister)"
  "currentTerm (Make clk n i MakePersister) = 0" "votedFor (Make clk n i MakePersister) = -1"
  "role (Make clk n i MakePersister) = Follower" "commitIndex (Make clk n i MakePersister) = 0"
  by (simp_all add: Make_def readPersist_def MakePersister_def ReadRaftState_def resetElectionTimer_def
      node_rel_def persisted_def fresh_def dummyEntry_def)

end
