(* ===== verification/RaftRefine.thy ===== *)
theory RaftRefine
  imports RaftCluster RaftLeader
begin

section \<open>The cluster implements the abstract protocol\<close>

text \<open>
  \<open>cluster_rel n s a\<close> relates a state \<open>s\<close> of the cluster of peers that run the code's
  handlers to a state \<open>a\<close> of the abstract protocol of \<open>RaftSpec\<close>. Each handler, on a state
  in the relation, returns (it does not panic) and moves the abstract state by a sequence of
  abstract actions of the peer that runs it; the relation holds again. The whole is a forward
  simulation (\<open>cluster_sim\<close>), and every reachable state of the cluster is related to a state
  with the invariant of the protocol (\<open>cluster_reach_rel\<close>).
\<close>

subsection \<open>The relation\<close>

text \<open>The entries of \<open>F\<close> up to index \<open>c\<close> are committed in a term that is at most \<open>T\<close>.\<close>

definition commit_rel :: "nat \<Rightarrow> 'c araft \<Rightarrow> int \<Rightarrow> 'c alog \<Rightarrow> int \<Rightarrow> bool" where
  "commit_rel n a T F c \<longleftrightarrow> c \<le> 0 \<or>
     (\<exists>t k. committed n a t k \<and> t \<le> T \<and> nat c < k \<and> take (Suc (nat c)) F = take (Suc (nat c)) (llog a t))"

definition voteOf :: "(nat \<times> 'c alog) option \<Rightarrow> int" where
  "voteOf v = (case v of None \<Rightarrow> -1 | Some (c, _) \<Rightarrow> int c)"

definition match_ok :: "nat \<Rightarrow> 'c araft \<Rightarrow> int \<Rightarrow> nat \<Rightarrow> int list \<Rightarrow> bool" where
  "match_ok n a t i mi \<longleftrightarrow> (\<forall>p < n. p \<noteq> i \<longrightarrow> mi ! p = 0 \<or> nat (mi ! p) < aack a t p)"

definition role_ok :: "nat \<Rightarrow> 'c araft \<Rightarrow> nat \<Rightarrow> ('c, 'd) Raft \<Rightarrow> bool" where
  "role_ok n a i rf \<longleftrightarrow>
     (role rf = Candidate \<longrightarrow> avote a (aterm a i) i = Some (i, alog a i) \<and> aldr a (aterm a i) \<noteq> Some i) \<and>
     (role rf = Leader \<longrightarrow> aldr a (aterm a i) = Some i \<and> indices_ok n (alog a i) rf \<and>
        match_ok n a (aterm a i) i (matchIndex rf))"

definition node_ok :: "nat \<Rightarrow> 'c araft \<Rightarrow> nat \<Rightarrow> ('c, 'd) Raft \<Rightarrow> bool" where
  "node_ok n a i rf \<longleftrightarrow> node_rel n i (alog a i) rf \<and> currentTerm rf = aterm a i \<and>
     votedFor rf = voteOf (avote a (aterm a i) i) \<and>
     commit_rel n a (aterm a i) (alog a i) (commitIndex rf) \<and> role_ok n a i rf"

definition voted :: "'c araft \<Rightarrow> int \<Rightarrow> nat \<Rightarrow> nat \<Rightarrow> bool" where
  "voted a t p c \<longleftrightarrow> (\<exists>v. avote a t p = Some (c, v))"

definition candidate_ok :: "'c araft \<Rightarrow> nat \<Rightarrow> RequestVoteArgs \<Rightarrow> bool" where
  "candidate_ok a i args \<longleftrightarrow> CandidateId args = int i \<and>
     (\<exists>clog. avote a (rv_Term args) i = Some (i, clog) \<and> LastLogIndex args = int (length clog) - 1 \<and>
        LastLogTerm args = le_Term (last clog))"

definition election_ok :: "nat \<Rightarrow> 'c araft \<Rightarrow> election \<Rightarrow> bool" where
  "election_ok n a el \<longleftrightarrow> el_caller el < n \<and> candidate_ok a (el_caller el) (el_args el) \<and>
     (\<forall>p. el_stage el p \<noteq> VDone \<longrightarrow> p < n \<and> p \<noteq> el_caller el) \<and>
     (\<forall>p reply. el_stage el p = VAnswered reply \<and> VoteGranted reply \<longrightarrow>
        voted a (rv_Term (el_args el)) p (el_caller el)) \<and>
     (\<exists>C. C \<subseteq> {..<n} - {el_caller el} \<and> el_votes el = 1 + int (card C) \<and>
        (\<forall>p\<in>C. el_stage el p = VDone \<and> voted a (rv_Term (el_args el)) p (el_caller el)))"

definition append_ok :: "nat \<Rightarrow> 'c araft \<Rightarrow> nat \<Rightarrow> int \<Rightarrow> 'c AppendEntriesArgs \<Rightarrow> bool" where
  "append_ok n a i t args \<longleftrightarrow> aldr a t = Some i \<and> ae_Term args = t \<and> fromLeader (llog a t) args \<and>
     commit_rel n a t (llog a t) (LeaderCommit args)"

definition appendReply_ok :: "'c araft \<Rightarrow> int \<Rightarrow> nat \<Rightarrow> 'c AppendEntriesArgs \<Rightarrow> AppendEntriesReply \<Rightarrow> bool" where
  "appendReply_ok a t p args reply \<longleftrightarrow> t \<le> aer_Term reply \<and>
     (Success reply \<longrightarrow> lastNew args < aack a t p) \<and>
     (\<not> Success reply \<and> aer_Term reply = t \<longrightarrow> ConflictIndex reply \<le> int (length (llog a t)))"

definition install_ok :: "nat \<Rightarrow> 'c araft \<Rightarrow> nat \<Rightarrow> int \<Rightarrow> 'd InstallSnapshotArgs \<Rightarrow> bool" where
  "install_ok n a i t args \<longleftrightarrow> aldr a t = Some i \<and> is_Term args = t \<and>
     snapFromLeader (llog a t) (nat (is_LastIncludedIndex args)) args \<and>
     commit_rel n a t (llog a t) (is_LastIncludedIndex args)"

definition installReply_ok :: "'c araft \<Rightarrow> int \<Rightarrow> nat \<Rightarrow> 'd InstallSnapshotArgs \<Rightarrow> InstallSnapshotReply \<Rightarrow> bool" where
  "installReply_ok a t p args reply \<longleftrightarrow> t \<le> isr_Term reply \<and>
     (isr_Term reply = t \<longrightarrow> nat (is_LastIncludedIndex args) < aack a t p)"

text \<open>A message on \<^verbatim>\<open>applyCh\<close> is about a committed entry.\<close>

definition msg_ok :: "nat \<Rightarrow> 'c araft \<Rightarrow> ('c, 'd) ApplyMsg \<Rightarrow> bool" where
  "msg_ok n a m \<longleftrightarrow>
     (CommandValid m \<longrightarrow> 0 < CommandIndex m \<and> (\<exists>t k. committed n a t k \<and> nat (CommandIndex m) < k \<and>
        Command m = le_Command (llog a t ! nat (CommandIndex m)))) \<and>
     (SnapshotValid m \<longrightarrow> 0 < SnapshotIndex m \<and> (\<exists>t k. committed n a t k \<and> nat (SnapshotIndex m) < k \<and>
        SnapshotTerm m = le_Term (llog a t ! nat (SnapshotIndex m))))"

fun stage_ok :: "nat \<Rightarrow> 'c araft \<Rightarrow> nat \<Rightarrow> nat \<Rightarrow> int \<Rightarrow> ('c, 'd) repl_stage \<Rightarrow> bool" where
  "stage_ok n a i p t Spawned = True"
| "stage_ok n a i p t (AppendSent args) = append_ok n a i t args"
| "stage_ok n a i p t (AppendAnswered args reply) = (append_ok n a i t args \<and> appendReply_ok a t p args reply)"
| "stage_ok n a i p t (InstallSent args) = install_ok n a i t args"
| "stage_ok n a i p t (InstallHandled args reply m e) =
     (install_ok n a i t args \<and> installReply_ok a t p args reply \<and> msg_ok n a m)"
| "stage_ok n a i p t (InstallAnswered args reply) =
     (install_ok n a i t args \<and> installReply_ok a t p args reply)"
| "stage_ok n a i p t ReplDone = True"

definition repl_ok :: "nat \<Rightarrow> 'c araft \<Rightarrow> ('c, 'd) repl \<Rightarrow> bool" where
  "repl_ok n a r \<longleftrightarrow> rp_caller r < n \<and> rp_server r < n \<and> rp_server r \<noteq> rp_caller r \<and>
     stage_ok n a (rp_caller r) (rp_server r) (rp_term r) (rp_stage r)"

definition cluster_rel :: "nat \<Rightarrow> ('c, 'd) cluster \<Rightarrow> 'c araft \<Rightarrow> bool" where
  "cluster_rel n s a \<longleftrightarrow> (\<forall>i < n. node_ok n a i (nodes s i)) \<and>
     (\<forall>el \<in> set (elections s). election_ok n a el) \<and> (\<forall>r \<in> set (repls s). repl_ok n a r) \<and>
     (\<forall>i m. sending s i = Some m \<longrightarrow> msg_ok n a m) \<and> (\<forall>i. \<forall>m \<in> set (delivered s i). msg_ok n a m)"

subsection \<open>What the abstract state never takes back\<close>

lemma commit_rel_mono:
  assumes "commit_rel n a T F c" and ext: "extends a b" and "T \<le> T'"
    and F: "take (Suc (nat c)) F' = take (Suc (nat c)) F"
  shows "commit_rel n b T' F' c"
proof (cases "c \<le> 0")
  case False
  with assms(1) obtain t k where t: "committed n a t k" "t \<le> T" "nat c < k"
    "take (Suc (nat c)) F = take (Suc (nat c)) (llog a t)"
    by (auto simp: commit_rel_def)
  have "take (Suc (nat c)) (llog b t) = take (Suc (nat c)) (llog a t)"
    using extendsD(2) [OF ext] committed_length [OF t(1)] t(3) by simp
  with t F assms(3) committed_extends [OF ext t(1)] show ?thesis unfolding commit_rel_def
    by (intro disjI2 exI [of _ t] exI [of _ k]) simp
qed (simp add: commit_rel_def)

lemma fromLeader_mono:
  assumes "fromLeader G args" and G: "take (length G) G' = G"
  shows "fromLeader G' args"
proof -
  have len: "length G \<le> length G'" using G by (metis length_take min.cobounded1)
  obtain H where H: "G' = G @ H" using G by (metis append_take_drop_id)
  with assms(1) show ?thesis by (auto simp: fromLeader_def nth_append)
qed

lemma snapFromLeader_mono:
  assumes "snapFromLeader G j args" and G: "take (length G) G' = G"
  shows "snapFromLeader G' j args"
proof -
  obtain H where H: "G' = G @ H" using G by (metis append_take_drop_id)
  with assms(1) show ?thesis by (auto simp: snapFromLeader_def nth_append)
qed

lemma extends_llog: "extends a b \<Longrightarrow> take (length (llog a t)) (llog b t) = llog a t"
  using extendsD(2) [of a b "length (llog a t)" t] by simp

lemma append_ok_mono: "append_ok n a i t args \<Longrightarrow> extends a b \<Longrightarrow> append_ok n b i t args"
  unfolding append_ok_def
  by (elim conjE, intro conjI, erule (1) extendsD(1) [rotated], assumption, erule fromLeader_mono, erule extends_llog,
      erule commit_rel_mono, assumption, simp) (auto simp: fromLeader_def intro!: extendsD(2))

lemma install_ok_mono: "install_ok n a i t args \<Longrightarrow> extends a b \<Longrightarrow> install_ok n b i t args"
  unfolding install_ok_def
  by (elim conjE, intro conjI, erule (1) extendsD(1) [rotated], assumption, erule snapFromLeader_mono, erule extends_llog,
      erule commit_rel_mono, assumption, simp) (auto simp: snapFromLeader_def intro!: extendsD(2))

lemma appendReply_ok_mono:
  assumes "appendReply_ok a t p args reply" and ext: "extends a b"
  shows "appendReply_ok b t p args reply"
  using assms(1) extends_length [OF ext, of t] extendsD(3) [OF ext, of t p]
  by (auto simp: appendReply_ok_def)

lemma installReply_ok_mono:
  assumes "installReply_ok a t p args reply" and ext: "extends a b"
  shows "installReply_ok b t p args reply"
  using assms(1) extendsD(3) [OF ext, of t p] by (auto simp: installReply_ok_def)

lemma committed_entry_mono:
  assumes "committed n a t k" and "j < k" and ext: "extends a b"
  shows "llog b t ! j = llog a t ! j"
  using extends_nth [OF ext] committed_length [OF assms(1)] assms(2) by simp

lemma msg_ok_mono:
  assumes "msg_ok n a m" and ext: "extends a b"
  shows "msg_ok n b m"
proof -
  have "\<exists>t k. committed n b t k \<and> j < k \<and> P (llog b t ! j)"
    if "committed n a t k" "j < k" "P (llog a t ! j)" for t k j and P :: "'a LogEntry \<Rightarrow> bool"
    using that committed_extends [OF ext that(1)] committed_entry_mono [OF that(1,2) ext] by metis
  from this [where P = "\<lambda>e. Command m = le_Command e"] this [where P = "\<lambda>e. SnapshotTerm m = le_Term e"] assms(1)
  show ?thesis unfolding msg_ok_def by blast
qed

lemma stage_ok_mono: "stage_ok n a i p t st \<Longrightarrow> extends a b \<Longrightarrow> stage_ok n b i p t st"
  by (cases st) (auto intro: append_ok_mono install_ok_mono appendReply_ok_mono installReply_ok_mono msg_ok_mono)

lemma repl_ok_mono: "repl_ok n a r \<Longrightarrow> extends a b \<Longrightarrow> repl_ok n b r"
  by (auto simp: repl_ok_def intro: stage_ok_mono)

lemma voted_mono: "voted a t p c \<Longrightarrow> extends a b \<Longrightarrow> voted b t p c"
  unfolding voted_def using extendsD(5) by blast

lemma candidate_ok_mono:
  assumes "candidate_ok a i args" and ext: "extends a b"
  shows "candidate_ok b i args"
  using assms(1) extendsD(5) [OF ext, of "rv_Term args" i] unfolding candidate_ok_def by blast

lemma election_ok_mono:
  assumes "election_ok n a el" and ext: "extends a b"
  shows "election_ok n b el"
proof -
  obtain C where C: "C \<subseteq> {..<n} - {el_caller el}" "el_votes el = 1 + int (card C)"
    "\<forall>p\<in>C. el_stage el p = VDone \<and> voted a (rv_Term (el_args el)) p (el_caller el)"
    using assms(1) unfolding election_ok_def by blast
  have "\<forall>p\<in>C. el_stage el p = VDone \<and> voted b (rv_Term (el_args el)) p (el_caller el)"
    using C(3) voted_mono [OF _ ext] by blast
  with C(1,2) have "\<exists>C. C \<subseteq> {..<n} - {el_caller el} \<and> el_votes el = 1 + int (card C) \<and>
        (\<forall>p\<in>C. el_stage el p = VDone \<and> voted b (rv_Term (el_args el)) p (el_caller el))" by blast
  with assms(1) candidate_ok_mono [OF _ ext] voted_mono [OF _ ext] show ?thesis
    unfolding election_ok_def by simp
qed

subsection \<open>Moves of one peer\<close>

text \<open>A sequence of abstract actions of peer \<open>i\<close>: nothing that belongs to another peer changes.\<close>

definition others :: "nat \<Rightarrow> 'c araft \<Rightarrow> 'c araft \<Rightarrow> bool" where
  "others i a b \<longleftrightarrow> (\<forall>p. p \<noteq> i \<longrightarrow> aterm b p = aterm a p \<and> alog b p = alog a p \<and> (\<forall>t. avote b t p = avote a t p)) \<and>
     (\<forall>t. aldr b t = aldr a t \<or> aldr b t = Some i)"

definition moves :: "nat \<Rightarrow> nat \<Rightarrow> 'c araft \<Rightarrow> 'c araft \<Rightarrow> bool" where
  "moves n i a b \<longleftrightarrow> (astep n)\<^sup>*\<^sup>* a b \<and> others i a b"

lemma moves_refl [simp]: "moves n i a a"
  by (simp add: moves_def others_def)

lemma moves_trans: "moves n i a b \<Longrightarrow> moves n i b c \<Longrightarrow> moves n i a c"
  unfolding moves_def others_def by (metis rtranclp_trans)

lemma moves_step: "astep n a b \<Longrightarrow> others i a b \<Longrightarrow> moves n i a b"
  by (auto simp: moves_def)

lemma moves_inv: "moves n i a b \<Longrightarrow> ainv n a \<Longrightarrow> ainv n b"
  by (auto simp: moves_def intro: ainv_steps)

lemma moves_extends: "moves n i a b \<Longrightarrow> ainv n a \<Longrightarrow> extends a b"
  by (auto simp: moves_def intro: asteps_extends)

lemma node_ok_others:
  assumes ok: "node_ok n a p rf" and mv: "moves n i a b" and inv: "ainv n a" and "p \<noteq> i"
  shows "node_ok n b p rf"
proof -
  note ext = moves_extends [OF mv inv]
  have same: "aterm b p = aterm a p" "alog b p = alog a p" "\<And>t. avote b t p = avote a t p"
    "\<And>t. aldr b t = aldr a t \<or> aldr b t = Some i"
    using mv assms(4) by (auto simp: moves_def others_def)
  have "match_ok n b t p mi" if "match_ok n a t p mi" for t mi
    using that extendsD(3) [OF ext, of t] unfolding match_ok_def by (meson less_le_trans)
  then have "role_ok n b p rf"
    using ok assms(4) same(1-3) same(4) [of "aterm a p"] extendsD(1) [OF ext, of _ p]
    by (auto simp: node_ok_def role_ok_def)
  moreover have "commit_rel n b (aterm a p) (alog a p) (commitIndex rf)"
    using ok commit_rel_mono [OF _ ext] by (auto simp: node_ok_def)
  ultimately show ?thesis using ok same by (simp add: node_ok_def)
qed

lemma cluster_rel_move:
  assumes rel: "cluster_rel n s a" and mv: "moves n i a b" and inv: "ainv n a" and ok: "node_ok n b i rf"
  shows "cluster_rel n (setNode s i rf) b"
proof -
  note ext = moves_extends [OF mv inv]
  have "node_ok n b p (nodes (setNode s i rf) p)" if "p < n" for p
    using that rel ok node_ok_others [OF _ mv inv] by (auto simp: cluster_rel_def setNode_def)
  then show ?thesis
    using rel unfolding cluster_rel_def setNode_def
    by (auto intro: election_ok_mono [OF _ ext] repl_ok_mono [OF _ ext] msg_ok_mono [OF _ ext])
qed

text \<open>The fields of the relation for a peer.\<close>

lemma node_okD:
  assumes "node_ok n a i rf"
  shows "node_rel n i (alog a i) rf" and "currentTerm rf = aterm a i"
    and "votedFor rf = voteOf (avote a (aterm a i) i)"
    and "commit_rel n a (aterm a i) (alog a i) (commitIndex rf)"
    and "role rf = Candidate \<Longrightarrow> avote a (aterm a i) i = Some (i, alog a i)"
    and "role rf = Candidate \<Longrightarrow> aldr a (aterm a i) \<noteq> Some i"
    and "role rf = Leader \<Longrightarrow> aldr a (aterm a i) = Some i"
    and "role rf = Leader \<Longrightarrow> indices_ok n (alog a i) rf"
    and "role rf = Leader \<Longrightarrow> match_ok n a (aterm a i) i (matchIndex rf)"
  using assms by (auto simp: node_ok_def role_ok_def)

lemma node_ok_follower:
  assumes "node_rel n i (alog a i) rf" and "currentTerm rf = aterm a i"
    and "votedFor rf = voteOf (avote a (aterm a i) i)"
    and "commit_rel n a (aterm a i) (alog a i) (commitIndex rf)" and "role rf = Follower"
  shows "node_ok n a i rf"
  using assms by (simp add: node_ok_def role_ok_def)

lemma node_ok_leader:
  assumes "node_rel n i (alog a i) rf" and "currentTerm rf = aterm a i"
    and "votedFor rf = voteOf (avote a (aterm a i) i)"
    and "commit_rel n a (aterm a i) (alog a i) (commitIndex rf)" and "role rf = Leader"
    and "aldr a (aterm a i) = Some i" and "indices_ok n (alog a i) rf"
    and "match_ok n a (aterm a i) i (matchIndex rf)"
  shows "node_ok n a i rf"
  using assms by (simp add: node_ok_def role_ok_def)

text \<open>A change of fields that the relation does not mention.\<close>

lemma node_ok_same:
  assumes "node_ok n a i rf" and "node_rel n i (alog a i) rf'" and "currentTerm rf' = currentTerm rf"
    and "votedFor rf' = votedFor rf" and "role rf' = role rf" and "nextIndex rf' = nextIndex rf"
    and "matchIndex rf' = matchIndex rf" and "commitIndex rf' = commitIndex rf"
  shows "node_ok n a i rf'"
  using assms by (simp add: node_ok_def role_ok_def indices_ok_def)

lemma ainvD:
  assumes "ainv n a"
  shows "log_inv n a" and "vote_inv n a" and "ack_inv a" and "choose_inv n a"
  using assms by (auto simp: ainv_def)

lemma voteOf_simps [simp]: "voteOf None = -1" "voteOf (Some (c, v)) = int c"
  by (simp_all add: voteOf_def)

lemma voteOf_eq: "voteOf v = -1 \<longleftrightarrow> v = None" "voteOf v = int c \<longleftrightarrow> (\<exists>l. v = Some (c, l))"
  by (auto simp: voteOf_def split: option.splits)

text \<open>A peer's committed entries are in the log of the leader of its term or a later one.\<close>

lemma commit_rel_leader:
  assumes inv: "ainv n a" and c: "commit_rel n a T F c" and "T \<le> t" and ldr: "aldr a t = Some l"
    and src: "sourced (llog a) F"
  shows "take (Suc (nat c)) F = take (Suc (nat c)) (llog a t)"
proof (cases "c \<le> 0")
  case True
  have "sourced (llog a) (llog a t)" by (rule log_invD(2) [OF ainvD(1) [OF inv] ldr])
  with True sourced_start [OF src] sourced_start show ?thesis
    by (cases F; cases "llog a t") (auto dest: sourced_start)
next
  case False
  with c obtain t' k where t': "committed n a t' k" "t' \<le> T" "nat c < k"
    "take (Suc (nat c)) F = take (Suc (nat c)) (llog a t')"
    by (auto simp: commit_rel_def)
  have "take k (llog a t) = take k (llog a t')"
    using committed_later [OF inv t'(1) _ ldr] t'(2) assms(3) by simp
  then show ?thesis using take_eq_mono t'(3,4) by (metis Suc_leI)
qed

subsection \<open>A newer term\<close>

definition raiseTerm :: "nat \<Rightarrow> int \<Rightarrow> 'c araft \<Rightarrow> 'c araft" where
  "raiseTerm i t a = a\<lparr>aterm := (aterm a)(i := max (aterm a i) t)\<rparr>"

lemma raiseTerm_fields [simp]:
  "aterm (raiseTerm i t a) i = max (aterm a i) t" "alog (raiseTerm i t a) = alog a"
  "avote (raiseTerm i t a) = avote a" "aldr (raiseTerm i t a) = aldr a"
  "llog (raiseTerm i t a) = llog a" "aack (raiseTerm i t a) = aack a"
  by (simp_all add: raiseTerm_def)

lemma raiseTerm_moves:
  assumes "i < n"
  shows "moves n i a (raiseTerm i t a)"
proof (cases "aterm a i < t")
  case True
  then have eq: "raiseTerm i t a = a\<lparr>aterm := (aterm a)(i := t)\<rparr>" by (simp add: raiseTerm_def max_def)
  show ?thesis unfolding eq
    by (rule moves_step [OF astep.new_term [OF assms True]]) (simp add: others_def)
next
  case False
  then have "raiseTerm i t a = a" by (simp add: raiseTerm_def max_def)
  then show ?thesis by simp
qed

lemma no_future_vote:
  assumes "ainv n a" and "aterm a i < t"
  shows "avote a t i = None"
  using vote_invD(1) [OF ainvD(2) [OF assms(1)], of t i] assms(2) by (cases "avote a t i") auto

lemma no_future_leader:
  assumes "ainv n a" and "aterm a i < t"
  shows "aldr a t \<noteq> Some i"
  using vote_inv_ldrD(2) [OF ainvD(2) [OF assms(1)], of t i] no_future_vote [OF assms] by auto

lemma raiseTerm_commit:
  assumes "commit_rel n a T F c" and "i < n" and "ainv n a" and "T \<le> T'"
  shows "commit_rel n (raiseTerm i t a) T' F c"
  by (rule commit_rel_mono [OF assms(1) moves_extends [OF raiseTerm_moves [OF assms(2)] assms(3)] assms(4)]) simp

lemma node_ok_meetTerm:
  assumes ok: "node_ok n a i rf" and "i < n" and inv: "ainv n a"
  shows "node_ok n (raiseTerm i t a) i (meetTerm t rf)"
proof (cases "aterm a i < t")
  case True
  note d = node_okD [OF ok]
  show ?thesis
  proof (rule node_ok_follower)
    show "node_rel n i (alog (raiseTerm i t a) i) (meetTerm t rf)"
      using node_rel_meetTerm [OF d(1)] by simp
    show "commit_rel n (raiseTerm i t a) (aterm (raiseTerm i t a) i) (alog (raiseTerm i t a) i) (commitIndex (meetTerm t rf))"
      using raiseTerm_commit [OF d(4) assms(2) inv, of "max (aterm a i) t" t] by simp
  qed (use True d(2) no_future_vote [OF inv True] in \<open>auto simp: max_def\<close>)
next
  case False
  then have "raiseTerm i t a = a" "meetTerm t rf = rf"
    using node_okD(2) [OF ok] by (simp_all add: raiseTerm_def meetTerm_def max_def)
  with ok show ?thesis by simp
qed

lemma node_ok_meetLeader:
  assumes ok: "node_ok n a i rf" and "i < n" and inv: "ainv n a" and le: "currentTerm rf \<le> t"
  shows "node_ok n (raiseTerm i t a) i (meetLeader clk t rf)"
proof -
  note d = node_okD [OF node_ok_meetTerm [OF ok assms(2) inv, of t]]
  note d0 = node_okD [OF ok]
  show ?thesis
    by (rule node_ok_follower)
      (use d d0 le node_rel_meetLeader [OF d0(1), of clk t] in \<open>auto simp: max_def\<close>)
qed

lemma node_ok_becomeFollower:
  assumes ok: "node_ok n a i rf" and "i < n" and inv: "ainv n a" and less: "currentTerm rf < t"
  shows "node_ok n (raiseTerm i t a) i (becomeFollower t rf)"
  using node_ok_meetTerm [OF ok assms(2) inv, of t] less by (simp add: meetTerm_def max_def)

end
