(* ===== verification/RaftSim.thy ===== *)
theory RaftSim
  imports RaftRefine
begin

section \<open>Every handler moves the abstract state\<close>

text \<open>
  One lemma for each handler: on a peer in the relation of \<open>RaftRefine\<close>, the handler returns,
  the abstract state moves by actions of that peer, and the relation holds again, for the
  peer and for the reply that is sent.
\<close>

lemma commit_rel_le:
  assumes "commit_rel n a T F c" and "c' \<le> c"
  shows "commit_rel n a T F c'"
proof (cases "c' \<le> 0")
  case False
  with assms obtain t k where "committed n a t k" "t \<le> T" "nat c < k"
    "take (Suc (nat c)) F = take (Suc (nat c)) (llog a t)"
    by (auto simp: commit_rel_def)
  moreover have "Suc (nat c') \<le> Suc (nat c)" "nat c' \<le> nat c" using assms(2) by simp_all
  ultimately show ?thesis unfolding commit_rel_def
    by (intro disjI2 exI [of _ t] exI [of _ k] conjI) (auto elim: take_eq_mono)
qed (simp add: commit_rel_def)

subsection \<open>Elections\<close>

lemma ticker_sim:
  assumes ok: "node_ok n a i rf" and "i < n" and inv: "ainv n a"
    and run: "ticker clk rf = Some (rf', Some (args, ps))"
  obtains b where "moves n i a b" and "node_ok n b i rf'" and "candidate_ok b i args"
    and "set ps = {..<n} - {i}"
proof -
  note d = node_okD [OF ok]
  let ?t = "aterm a i + 1"
  let ?b = "a\<lparr>aterm := (aterm a)(i := ?t), avote := (avote a)(?t := (avote a ?t)(i := Some (i, alog a i)))\<rparr>"
  have mv: "moves n i a ?b"
    by (rule moves_step [OF astep.candidacy [OF assms(2) refl]]) (simp add: others_def)
  have eq: "rf' = candidateState clk rf" "rv_Term args = ?t" "CandidateId args = int i"
    "LastLogIndex args = int (length (alog a i)) - 1" "LastLogTerm args = le_Term (last (alog a i))"
    "ps = filter (\<lambda>peer. peer \<noteq> i) [0..<n]"
    using run startElection_rel [OF d(1), of clk] d(2) by (auto simp: ticker_def split: if_splits)
  have "commit_rel n ?b (aterm ?b i) (alog ?b i) (commitIndex rf)"
    by (rule commit_rel_mono [OF d(4) moves_extends [OF mv inv]]) simp_all
  then have "node_ok n ?b i rf'"
    using d(1,2) node_relD(2) [OF d(1)] node_rel_candidate [OF d(1), of clk] no_future_leader [OF inv, of i ?t]
    unfolding node_ok_def role_ok_def eq(1) by simp
  moreover have "candidate_ok ?b i args" using eq by (simp add: candidate_ok_def)
  moreover have "set ps = {..<n} - {i}" using eq(6) by auto
  ultimately show thesis using that mv by blast
qed

lemma RequestVote_sim:
  assumes ok: "node_ok n a i rf" and "i < n" and inv: "ainv n a"
    and cand: "candidate_ok a c args" and "i \<noteq> c"
  obtains rf' reply b where "RequestVote clk rf args = Some (rf', reply)" and "moves n i a b"
    and "node_ok n b i rf'" and "VoteGranted reply \<Longrightarrow> voted b (rv_Term args) i c"
proof -
  note d = node_okD [OF ok]
  let ?t = "rv_Term args"
  let ?rf1 = "meetTerm ?t rf" and ?b = "raiseTerm i ?t a"
  obtain clog where c: "CandidateId args = int c" "avote a ?t c = Some (c, clog)"
    "LastLogIndex args = int (length clog) - 1" "LastLogTerm args = le_Term (last clog)"
    using cand by (auto simp: candidate_ok_def)
  note eq = RequestVote_rel [OF d(1) c(3,4), of clk]
  note mv = raiseTerm_moves [OF assms(2), of a ?t]
  note ok1 = node_ok_meetTerm [OF ok assms(2) inv, of ?t]
  note d1 = node_okD [OF ok1] and inv1 = moves_inv [OF mv inv]
  consider "?t < currentTerm rf"
    | "currentTerm rf \<le> ?t" "\<not> ((votedFor ?rf1 = -1 \<or> votedFor ?rf1 = int c) \<and> upToDate clog (alog a i))"
    | "currentTerm rf \<le> ?t" "votedFor ?rf1 = -1 \<or> votedFor ?rf1 = int c" "upToDate clog (alog a i)"
    by linarith
  then show thesis
  proof cases
    case 1
    then have "RequestVote clk rf args = Some (rf, \<lparr>rvr_Term = currentTerm rf, VoteGranted = False\<rparr>)"
      using eq by simp
    then show thesis by (rule that [OF _ moves_refl ok]) simp
  next
    case 2
    then have "RequestVote clk rf args = Some (?rf1, \<lparr>rvr_Term = ?t, VoteGranted = False\<rparr>)"
      using eq c(1) by (auto simp: Let_def)
    then show thesis by (rule that [OF _ mv ok1]) simp
  next
    case 3
    let ?rf' = "persist (resetElectionTimer clk (?rf1\<lparr>votedFor := int c\<rparr>))"
    have run: "RequestVote clk rf args = Some (?rf', \<lparr>rvr_Term = ?t, VoteGranted = True\<rparr>)"
      using eq c(1) 3 by (auto simp: Let_def)
    have trm: "aterm ?b i = ?t" using 3(1) d(2) by simp
    have vote1: "voteOf (avote a ?t i) = -1 \<or> voteOf (avote a ?t i) = int c"
      using 3(2) d1(3) trm by simp
    have "avote a ?t i \<noteq> Some (i, v)" for v using vote1 assms(5) by auto
    then have "role ?rf1 \<noteq> Candidate" and "role ?rf1 \<noteq> Leader"
      using d1(5,7) vote_inv_ldrD(2) [OF ainvD(2) [OF inv1], of ?t i] trm by auto
    then have fol: "role ?rf1 = Follower" by (cases "role ?rf1") auto
    define b where "b = (if avote a ?t i = None
      then ?b\<lparr>avote := (avote ?b)(?t := (avote ?b ?t)(i := Some (c, alog ?b i)))\<rparr> else ?b)"
    have mv2: "moves n i ?b b"
    proof (cases "avote a ?t i")
      case None
      have "astep n ?b (?b\<lparr>avote := (avote ?b)(?t := (avote ?b ?t)(i := Some (c, alog ?b i)))\<rparr>)"
        by (rule astep.vote [where clog = clog]) (use assms(2) None trm c(2) 3(3) in simp_all)
      then show ?thesis using None unfolding b_def by (simp add: moves_step others_def)
    qed (simp add: b_def)
    have b: "alog b = alog a" "aterm b i = ?t" "\<exists>v. avote b ?t i = Some (c, v)"
      using vote1 trm voteOf_eq [of "avote a ?t i"] by (auto simp: b_def)
    have "node_ok n b i ?rf'"
    proof (rule node_ok_follower)
      show "node_rel n i (alog b i) ?rf'" using node_rel_vote [OF d1(1), of clk "int c"] b(1) by simp
      show "commit_rel n b (aterm b i) (alog b i) (commitIndex ?rf')"
        using commit_rel_mono [OF d1(4) moves_extends [OF mv2 inv1], of ?t "alog a i"] trm b
        by (simp add: persist_def resetElectionTimer_def)
    qed (use b d1(2) trm fol in \<open>auto simp: persist_def resetElectionTimer_def\<close>)
    with run moves_trans [OF mv mv2] b(3) show thesis
      by (intro that) (simp_all add: voted_def)
  qed
qed

lemma voteReply_sim:
  assumes ok: "node_ok n a i rf" and "i < n" and inv: "ainv n a"
    and C: "C \<subseteq> {..<n} - {i}" "\<And>q. q \<in> C \<Longrightarrow> voted a t q i"
    and p: "p < n" "p \<noteq> i" "p \<notin> C" "VoteGranted reply \<Longrightarrow> voted a t p i"
    and run: "voteReply rf t (1 + int (card C)) reply = (rf', votes, ts)"
  obtains b C' where "moves n i a b" and "node_ok n b i rf'" and "votes = 1 + int (card C')"
    and "C' = C \<or> C' = insert p C \<and> VoteGranted reply" and "ts = [] \<or> ts = broadcastAppendEntries rf'"
proof -
  note d = node_okD [OF ok]
  have card: "card (insert p C) = Suc (card C)"
    using p(3) C(1) finite_subset [OF C(1)] by simp
  consider (idle) "currentTerm rf \<noteq> t \<or> role rf \<noteq> Candidate" | (newer) "rvr_Term reply > currentTerm rf" "currentTerm rf = t" "role rf = Candidate"
    | (no) "\<not> VoteGranted reply" "\<not> rvr_Term reply > currentTerm rf" "currentTerm rf = t" "role rf = Candidate"
    | (yes) "VoteGranted reply" "\<not> rvr_Term reply > currentTerm rf" "currentTerm rf = t" "role rf = Candidate"
      "\<not> 1 + int (card C) + 1 > int (peers rf div 2)"
    | (wins) "VoteGranted reply" "\<not> rvr_Term reply > currentTerm rf" "currentTerm rf = t" "role rf = Candidate"
      "1 + int (card C) + 1 > int (peers rf div 2)"
    by blast
  then show thesis
  proof cases
    case newer
    then have "rf' = becomeFollower (rvr_Term reply) rf" "votes = 1 + int (card C)" "ts = []"
      using run by (auto simp: voteReply_def)
    then show thesis
      using that [OF raiseTerm_moves [OF assms(2), of a "rvr_Term reply"], of C]
        node_ok_becomeFollower [OF ok assms(2) inv newer(1)] by simp
  next
    case yes
    then have "rf' = rf" "votes = 1 + int (card (insert p C))" "ts = []"
      using run card by (auto simp: voteReply_def)
    then show thesis using that [OF moves_refl, of "insert p C"] ok yes(1) by simp
  next
    case wins
    have t: "t = aterm a i" using wins(3) d(2) by simp
    obtain rf2 where rf2: "becomeLeader rf = (rf2, broadcastAppendEntries rf2)" "node_rel n i (alog a i) rf2"
      "role rf2 = Leader" "indices_ok n (alog a i) rf2" "\<And>q. q < n \<Longrightarrow> matchIndex rf2 ! q = 0"
      "currentTerm rf2 = currentTerm rf" "votedFor rf2 = votedFor rf" "commitIndex rf2 = commitIndex rf"
      using becomeLeader_rel [OF d(1) wins(4)] by metis
    have res: "rf' = rf2" "votes = 1 + int (card (insert p C))" "ts = broadcastAppendEntries rf'"
      using run wins rf2(1) card by (auto simp: voteReply_def)
    let ?Q = "insert i (insert p C)"
    have "card ?Q = card C + 2" using C(1) card p(2) finite_subset [OF C(1)] by (subst card_insert_disjoint) auto
    then have maj: "majority n ?Q"
      using wins(5) node_relD(1) [OF d(1)] C(1) p(1) assms(2) by (auto simp: majority_def)
    have own: "avote a t i = Some (i, alog a i)" using d(5) wins(4) t by simp
    let ?b = "a\<lparr>aldr := (aldr a)(t := Some i), llog := (llog a)(t := alog a i),
                aack := (aack a)(t := (aack a t)(i := length (alog a i)))\<rparr>"
    have "astep n a ?b"
    proof (rule astep.elect [OF assms(2) t [symmetric] own _ maj])
      show "aldr a t \<noteq> Some i" using d(6) wins(4) t by simp
      show "\<exists>v. avote a t q = Some (i, v)" if "q \<in> ?Q" for q
        using that own C(2) p(4) [OF wins(1)] by (auto simp: voted_def)
    qed
    then have mv: "moves n i a ?b" by (rule moves_step) (simp add: others_def)
    have "node_ok n ?b i rf'"
      unfolding res(1)
    proof (rule node_ok_leader)
      show "commit_rel n ?b (aterm ?b i) (alog ?b i) (commitIndex rf2)"
        using commit_rel_mono [OF d(4) moves_extends [OF mv inv], of "aterm a i" "alog a i"] rf2(8) by simp
      show "match_ok n ?b (aterm ?b i) i (matchIndex rf2)" using rf2(5) by (simp add: match_ok_def)
    qed (use rf2 d(2,3) t in simp_all)
    with mv res wins(1) show thesis by (intro that [of ?b "insert p C"]) simp_all
  qed (use run ok that [OF moves_refl, of C] in \<open>auto simp: voteReply_def\<close>)
qed

subsection \<open>Requests of a leader\<close>

text \<open>The action \<open>accept\<close>, after the peer has taken the leader's term.\<close>

definition acceptState :: "nat \<Rightarrow> int \<Rightarrow> nat \<Rightarrow> 'c araft \<Rightarrow> 'c araft" where
  "acceptState i t m a = a\<lparr>alog := (alog a)(i := acceptLog m (alog a i) (llog a t)),
     aack := (aack a)(t := (aack a t)(i := max (aack a t i) m))\<rparr>"

lemma acceptState_fields [simp]:
  "alog (acceptState i t m a) i = acceptLog m (alog a i) (llog a t)"
  "aterm (acceptState i t m a) = aterm a" "avote (acceptState i t m a) = avote a"
  "aldr (acceptState i t m a) = aldr a" "llog (acceptState i t m a) = llog a"
  "aack (acceptState i t m a) t i = max (aack a t i) m"
  by (simp_all add: acceptState_def)

lemma acceptState_moves:
  assumes "i < n" and "aterm a i = t" and "aldr a t = Some l" and "i \<noteq> l"
    and "m \<le> length (llog a t)" and "0 < m"
  shows "moves n i a (acceptState i t m a)"
  by (rule moves_step [OF astep.accept [OF assms refl, folded acceptLog_def, folded acceptState_def]])
    (simp add: others_def acceptState_def)

text \<open>The commit index after the leader's entries and its commit index \<open>lc\<close> have been taken over.\<close>

lemma commit_rel_accept:
  assumes inv: "ainv n a" and mv: "moves n i a b" and old: "commit_rel n a t F c" and new: "commit_rel n a t G lc"
    and agree: "take (Suc (nat c)) F = take (Suc (nat c)) G" and m: "nat lc < m"
  shows "commit_rel n b t (acceptLog m F G) (max c lc)"
proof (cases "c < lc")
  case True
  have "take m (acceptLog m F G) = take m G" by (simp add: acceptLog_def)
  then have "take (Suc (nat lc)) (acceptLog m F G) = take (Suc (nat lc)) G"
    by (rule take_eq_mono) (use m in simp)
  with True show ?thesis
    using commit_rel_mono [OF new moves_extends [OF mv inv] order_refl] by (simp add: max_def)
next
  case False
  then show ?thesis
    using commit_rel_mono [OF old moves_extends [OF mv inv] order_refl acceptLog_keeps [OF agree]]
    by (simp add: max_def)
qed

text \<open>What both handlers of a leader's requests start from.\<close>

lemma leader_request:
  assumes ok: "node_ok n a i rf" and "i < n" and inv: "ainv n a" and ldr: "aldr a t = Some l"
    and le: "currentTerm rf \<le> t"
  shows "sourced (llog a) (alog a i)" and "sourced (llog a) (llog a t)"
    and "take (Suc (nat (commitIndex rf))) (alog a i) = take (Suc (nat (commitIndex rf))) (llog a t)"
    and "commitIndex rf < int (length (llog a t))"
    and "commit_rel n (raiseTerm i t a) t (alog a i) (commitIndex rf)"
proof -
  note d = node_okD [OF ok]
  show s: "sourced (llog a) (alog a i)" by (rule log_invD(1) [OF ainvD(1) [OF inv]])
  show "sourced (llog a) (llog a t)" by (rule log_invD(2) [OF ainvD(1) [OF inv] ldr])
  show eq: "take (Suc (nat (commitIndex rf))) (alog a i) = take (Suc (nat (commitIndex rf))) (llog a t)"
    by (rule commit_rel_leader [OF inv d(4) _ ldr s]) (use d(2) le in simp)
  show "commitIndex rf < int (length (llog a t))"
    using take_eq_length [OF eq] node_relD(3-5) [OF d(1)] by linarith
  show "commit_rel n (raiseTerm i t a) t (alog a i) (commitIndex rf)"
    by (rule raiseTerm_commit [OF d(4) assms(2) inv]) (use d(2) le in simp)
qed

lemma refusal_index:
  assumes "refusal F rf args reply" and "fromLeader G args" and "node_rel n i F rf"
    and "commitIndex rf < int (length G)"
  shows "ConflictIndex reply \<le> int (length G)"
  using assms(1,2,4) node_relD(4) [OF assms(3)]
  by (auto simp: refusal_def conflictReply_def fromLeader_def split: if_splits)

lemma AppendEntries_sim:
  assumes ok: "node_ok n a i rf" and "i < n" and inv: "ainv n a"
    and args: "append_ok n a l t args" and "i \<noteq> l"
  obtains rf' reply b where "AppendEntries clk rf args = Some (rf', reply)" and "moves n i a b"
    and "node_ok n b i rf'" and "appendReply_ok b t i args reply"
proof (cases "currentTerm rf \<le> t")
  case False
  have "AppendEntries clk rf args = Some (rf, \<lparr>aer_Term = currentTerm rf, Success = False, ConflictTerm = -1, ConflictIndex = -1\<rparr>)"
    using False args by (simp add: AppendEntries_def append_ok_def)
  then show thesis by (rule that [OF _ moves_refl ok]) (use False in \<open>simp add: appendReply_ok_def\<close>)
next
  case True
  note d = node_okD [OF ok]
  have ldr: "aldr a t = Some l" and trm: "ae_Term args = t" and from_l: "fromLeader (llog a t) args"
    and commit: "commit_rel n a t (llog a t) (LeaderCommit args)"
    using args by (auto simp: append_ok_def)
  note req = leader_request [OF ok assms(2) inv ldr True]
  note mv1 = raiseTerm_moves [OF assms(2), of a t]
  note inv1 = moves_inv [OF mv1 inv]
  have le: "currentTerm rf \<le> ae_Term args" using True trm by simp
  show thesis
  proof (cases rule: AppendEntries_rel [OF d(1) req(1,2) from_l le req(3), of clk])
    case (1 reply)
    have "appendReply_ok (raiseTerm i t a) t i args reply"
      using 1(2,3) trm refusal_index [OF 1(4) from_l d(1) req(4)] by (simp add: appendReply_ok_def)
    with node_ok_meetLeader [OF ok assms(2) inv True, of clk] show thesis
      using that [OF 1(1) mv1] trm by simp
  next
    case (2 rf' reply)
    let ?m = "Suc (lastNew args)" and ?a = "raiseTerm i t a"
    let ?b = "acceptState i t ?m ?a"
    have m: "?m \<le> length (llog a t)" "nat (LeaderCommit args) < ?m"
      using from_l by (auto simp: fromLeader_def lastNew_def)
    have trm_i: "aterm ?a i = t" using True d(2) by simp
    have mv2: "moves n i ?a ?b"
      by (rule acceptState_moves [OF assms(2) trm_i]) (use ldr assms(5) m in simp_all)
    have "node_ok n ?b i rf'"
    proof (rule node_ok_follower)
      show "commit_rel n ?b (aterm ?b i) (alog ?b i) (commitIndex rf')"
        using commit_rel_accept [OF inv1 mv2 req(5) _ req(3) m(2)]
          raiseTerm_commit [OF commit assms(2) inv order_refl, of t] 2(5) trm_i by simp
      show "votedFor rf' = voteOf (avote ?b (aterm ?b i) i)"
        using 2(8) d(2,3) True trm no_future_vote [OF inv, of i t] by (auto simp: max_def)
    qed (use 2(4,6,7) trm trm_i in simp_all)
    moreover have "appendReply_ok ?b t i args reply"
      using 2(2,3) trm  by (simp add: appendReply_ok_def)
    ultimately show thesis using that [OF 2(1) moves_trans [OF mv1 mv2]] by blast
  qed
qed

lemma msg_ok_snapshot:
  assumes "install_ok n a l t args" and "0 < is_LastIncludedIndex args"
  shows "msg_ok n a (snapshotMsg args)"
proof -
  let ?j = "is_LastIncludedIndex args"
  obtain t' k where k: "committed n a t' k" "nat ?j < k" "take (Suc (nat ?j)) (llog a t) = take (Suc (nat ?j)) (llog a t')"
    using assms by (auto simp: install_ok_def commit_rel_def)
  have j: "nat ?j < length (llog a t)" "is_LastIncludedTerm args = le_Term (llog a t ! nat ?j)"
    using assms(1) by (auto simp: install_ok_def snapFromLeader_def)
  have "llog a t ! nat ?j = llog a t' ! nat ?j" by (rule take_eq_nth [OF k(3)]) (use j in simp_all)
  with k(1,2) j(2) assms(2) show ?thesis unfolding msg_ok_def by (auto simp: snapshotMsg_def)
qed

lemma InstallSnapshot_sim:
  assumes ok: "node_ok n a i rf" and "i < n" and inv: "ainv n a"
    and args: "install_ok n a l t args" and "i \<noteq> l"
  obtains rf' reply out b where "InstallSnapshot clk rf args = Some (rf', reply, out)" and "moves n i a b"
    and "node_ok n b i rf'" and "installReply_ok b t i args reply" and "\<And>m. out = Some m \<Longrightarrow> msg_ok n b m"
proof (cases "currentTerm rf \<le> t")
  case False
  have "InstallSnapshot clk rf args = Some (rf, \<lparr>isr_Term = currentTerm rf\<rparr>, None)"
    using False args by (simp add: InstallSnapshot_def install_ok_def)
  then show thesis by (rule that [OF _ moves_refl ok]) (use False in \<open>simp_all add: installReply_ok_def\<close>)
next
  case True
  note d = node_okD [OF ok]
  define j where "j = nat (is_LastIncludedIndex args)"
  have ldr: "aldr a t = Some l" and trm: "is_Term args = t" and snap: "snapFromLeader (llog a t) j args"
    and commit: "commit_rel n a t (llog a t) (is_LastIncludedIndex args)"
    using args by (auto simp: install_ok_def j_def)
  have j: "is_LastIncludedIndex args = int j" "Suc j \<le> length (llog a t)" using snap by (auto simp: snapFromLeader_def)
  note req = leader_request [OF ok assms(2) inv ldr True]
  note mv1 = raiseTerm_moves [OF assms(2), of a t]
  note inv1 = moves_inv [OF mv1 inv]
  have le: "currentTerm rf \<le> is_Term args" using True trm by simp
  let ?a = "raiseTerm i t a"
  let ?b = "acceptState i t (Suc j) ?a"
  have trm_i: "aterm ?a i = t" using True d(2) by simp
  have mv2: "moves n i ?a ?b"
    by (rule acceptState_moves [OF assms(2) trm_i]) (use ldr assms(5) j in simp_all)
  note mv = moves_trans [OF mv1 mv2]
  have vote: "(if t > currentTerm rf then -1 else votedFor rf) = voteOf (avote ?b (aterm ?b i) i)"
    using d(2,3) True no_future_vote [OF inv, of i t] by (auto simp: max_def)
  have commit': "commit_rel n ?b (aterm ?b i) (alog ?b i) (max (commitIndex rf) (int j))"
    using commit_rel_accept [OF inv1 mv2 req(5) _ req(3), of "int j" "Suc j"]
      raiseTerm_commit [OF commit assms(2) inv order_refl, of t] trm_i j(1) by simp
  have reply: "installReply_ok ?b t i args \<lparr>isr_Term = is_Term args\<rparr>" using trm j(1) by (simp add: installReply_ok_def)
  show thesis
  proof (cases rule: InstallSnapshot_rel [OF d(1) req(1,2) snap le req(3), of clk])
    case 1
    have keep: "take (Suc j) (alog a i) = take (Suc j) (llog a t)"
      by (rule take_eq_mono [OF req(3)]) (use 1(2) node_relD(4) [OF d(1)] in simp)
    then have same: "alog ?b i = alog a i" by (simp add: acceptLog_def)
    have mx: "max (commitIndex rf) (int j) = commitIndex rf" using 1(2) node_relD(4) [OF d(1)] by simp
    have "node_ok n ?b i (meetLeader clk t rf)"
    proof (rule node_ok_follower)
      show "commit_rel n ?b (aterm ?b i) (alog ?b i) (commitIndex (meetLeader clk t rf))"
        using commit' [unfolded mx] by simp
    qed (use same node_rel_meetLeader [OF d(1), of clk t] d(2) True vote in simp_all)
    then show thesis using that [OF 1(1) mv _ reply] trm by simp
  next
    case (2 rf')
    have "node_ok n ?b i rf'"
      by (rule node_ok_follower) (use 2(4,5,7-9) trm trm_i commit' vote in simp_all)
    moreover have "msg_ok n ?b (snapshotMsg args)"
      using msg_ok_mono [OF msg_ok_snapshot [OF args] moves_extends [OF mv inv]] 2(2) j(1) node_relD(3) [OF d(1)] by simp
    ultimately show thesis using that [OF 2(1) mv _ reply] by simp
  qed
qed

subsection \<open>The leader\<close>

lemma leader_log:
  assumes "node_ok n a i rf" and "role rf = Leader" and inv: "ainv n a"
  shows "llog a (aterm a i) = alog a i" and "aack a (aterm a i) i = length (alog a i)"
  using ack_invD(4,5) [OF ainvD(3) [OF inv] node_okD(7) [OF assms(1,2)]] by simp_all

lemma replicateTo_sim:
  assumes ok: "node_ok n a i rf" and inv: "ainv n a" and "p < n"
  obtains out where "replicateTo rf p t = Some out" and "stage_ok n a i p t (outStage out)"
proof (cases "role rf = Leader \<and> currentTerm rf = t")
  case False
  then have "replicateTo rf p t = Some NoCall" by (auto simp: replicateTo_def)
  then show thesis by (rule that) (simp add: outStage_def)
next
  case True
  note d = node_okD [OF ok]
  have t: "t = currentTerm rf" "aterm a i = t" using True d(2) by simp_all
  note ldr = d(7-9) [OF conjunct1 [OF True]] and ll = leader_log [OF ok conjunct1 [OF True] inv]
  show thesis
  proof (cases rule: replicateTo_rel [OF d(1) conjunct1 [OF True] ldr(2) assms(3)])
    case (1 args)
    have lii: "is_LastIncludedIndex args = lastIncludedIndex rf"
      using 1(2) node_relD(3) [OF d(1)] by (simp add: snapFromLeader_def)
    have "commit_rel n a t (alog a i) (lastIncludedIndex rf)"
      using commit_rel_le [OF d(4)] node_relD(4) [OF d(1)] t(2) by simp
    then have "install_ok n a i t args"
      using 1(2,3) ldr(1) ll(1) t lii by (simp add: install_ok_def)
    with 1(1) t(1) show thesis using that [of "CallInstallSnapshot args"] by (simp add: outStage_def)
  next
    case (2 args)
    then have "append_ok n a i t args" using ldr(1) ll(1) t d(4) by (simp add: append_ok_def)
    with 2(1) t(1) show thesis using that [of "CallAppendEntries args"] by (simp add: outStage_def)
  qed
qed

lemma Start_sim:
  assumes ok: "node_ok n a i rf" and "i < n" and inv: "ainv n a" and run: "Start rf cmd = (rf', res, ts)"
  obtains b where "moves n i a b" and "node_ok n b i rf'" and "ts = [] \<or> ts = broadcastAppendEntries rf'"
proof (cases "role rf = Leader")
  case False
  then show thesis using run that [OF moves_refl] ok by (simp add: Start_def)
next
  case True
  note d = node_okD [OF ok]
  note ldr = d(7-9) [OF True] and ll = leader_log [OF ok True inv]
  let ?e = "\<lparr>le_Term = currentTerm rf, le_Command = Some cmd\<rparr>"
  let ?t = "aterm a i" and ?l = "alog a i @ [?e]"
  let ?b = "a\<lparr>alog := (alog a)(i := ?l), llog := (llog a)(?t := ?l), aack := (aack a)(?t := (aack a ?t)(i := length ?l))\<rparr>"
  have "astep n a ?b" by (rule astep.extend [OF ldr(1) assms(2) refl]) (use d(2) ll in simp_all)
  then have mv: "moves n i a ?b" by (rule moves_step) (simp add: others_def)
  show thesis
  proof (rule Start_rel [OF d(1) True, of cmd])
    fix rf2 assume rf2: "Start rf cmd = (rf2, (int (length (alog a i)), currentTerm rf, True), broadcastAppendEntries rf2)"
      "node_rel n i ?l rf2" "currentTerm rf2 = currentTerm rf" "votedFor rf2 = votedFor rf" "role rf2 = Leader"
      "commitIndex rf2 = commitIndex rf" "nextIndex rf2 = nextIndex rf" "matchIndex rf2 = matchIndex rf"
    have res: "rf' = rf2" "ts = broadcastAppendEntries rf'"
      using trans [OF rf2(1) [symmetric] run] by auto
    have c: "commitIndex rf < int (length (alog a i))" "0 \<le> commitIndex rf" using node_relD(3-5) [OF d(1)] by simp_all
    have "node_ok n ?b i rf'"
      unfolding res(1)
    proof (rule node_ok_leader)
      show "commit_rel n ?b (aterm ?b i) (alog ?b i) (commitIndex rf2)"
        using commit_rel_mono [OF d(4) moves_extends [OF mv inv], of ?t ?l] rf2(6) c by simp
      show "indices_ok n (alog ?b i) rf2"
        using ldr(2) rf2(7,8) unfolding indices_ok_def by fastforce
      show "match_ok n ?b (aterm ?b i) i (matchIndex rf2)" using ldr(3) rf2(8) by (simp add: match_ok_def)
    qed (use rf2 d(2,3) ldr in simp_all)
    then show thesis using that [OF mv] res(2) by blast
  qed
qed

text \<open>The effect of a new match, and the commit index that follows from the arrays.\<close>

lemma node_ok_setMatch:
  assumes ok: "node_ok n a i rf" and ldr: "role rf = Leader" and inv: "ainv n a"
    and m: "0 \<le> m" "m = 0 \<or> nat m < aack a (aterm a i) p"
  shows "node_ok n a i (setMatch p m rf)"
proof -
  note d = node_okD [OF ok]
  note ll = leader_log [OF ok ldr inv]
  have "m < int (length (alog a i))"
    using m ack_invD(1) [OF ainvD(3) [OF inv], of "aterm a i" p] ll(1) node_rel_ne [OF d(1)] by auto
  note r = setMatch_rel [OF d(1) d(8) [OF ldr] m(1) this, of p]
  show ?thesis
    by (rule node_ok_leader)
      (use d ldr r m d(9) [OF ldr] in \<open>auto simp: match_ok_def nth_update_if\<close>)
qed

lemma advanceCommit_sim:
  assumes ok: "node_ok n a i rf" and "i < n" and ldr: "role rf = Leader" and inv: "ainv n a"
  obtains rf' where "advanceCommit rf = Some rf'" and "node_ok n a i rf'"
proof -
  note d = node_okD [OF ok]
  note l = d(7-9) [OF ldr] and ll = leader_log [OF ok ldr inv]
  have last: "lastLogIndex rf < int (length (alog a i))" using node_rel_last [OF d(1)] by simp
  from advanceLoop_rel [OF d(1) assms(2) indices_okD(2) [OF l(2)] last]
  show thesis
  proof (elim disjE exE conjE)
    fix c assume c: "lastCommittable n i (alog a i) rf (lastLogIndex rf) c"
      "advanceLoop rf (lastLogIndex rf) = Some (rf\<lparr>commitIndex := c, applyCond := True\<rparr>)"
    let ?rf = "rf\<lparr>commitIndex := c, applyCond := True\<rparr>" and ?t = "aterm a i"
    have c': "commitIndex rf < c" "c < int (length (alog a i))" "le_Term (alog a i ! nat c) = ?t"
      "majority n (holders n i rf c)"
      using c(1) last d(2) by (auto simp: lastCommittable_def committable_def)
    have pos: "0 < c" using c'(1) node_relD(3,4) [OF d(1)] by simp
    have "nat c < aack a ?t q" if "q \<in> holders n i rf c" for q
    proof (cases "q = i")
      case False
      then have q: "q < n" "c \<le> matchIndex rf ! q" using that by (auto simp: holders_def)
      then show ?thesis using l(3) False pos unfolding match_ok_def
        by (smt (verit) nat_less_eq_zless nat_mono order_le_less_trans)
    qed (use c'(2) ll(2) pos in simp)
    then have "committed n a ?t (Suc (nat c))"
      using c'(2-4) l(1) ll(1) pos unfolding committed_def proposed_def by (auto simp: Suc_le_eq)
    then have "commit_rel n a ?t (alog a i) c"
      using ll(1) unfolding commit_rel_def by (intro disjI2 exI [of _ ?t] exI [of _ "Suc (nat c)"]) simp
    moreover have "persisted ?rf" by (rule persisted_same [OF node_relD(10) [OF d(1)]]) simp_all
    then have "node_rel n i (alog a i) ?rf" using node_relD [OF d(1)] c' by (simp add: node_rel_def)
    ultimately have "node_ok n a i ?rf"
      by (intro node_ok_leader) (use d(2,3) ldr l in \<open>simp_all add: indices_ok_def\<close>)
    with c(2) show thesis using that by (simp add: advanceCommit_def)
  qed (use that ok in \<open>simp add: advanceCommit_def\<close>)
qed

lemma backUp_sim:
  assumes ok: "node_ok n a i rf" and ldr: "role rf = Leader" and "p < n"
    and c: "ConflictIndex reply \<le> int (length (alog a i))"
  obtains rf' where "backUp rf p reply = Some rf'" and "node_ok n a i rf'"
proof (rule backUp_rel [OF node_okD(1) [OF ok] node_okD(8) [OF ok ldr] assms(3), of reply])
  fix v assume v: "backUp rf p reply = Some (rf\<lparr>nextIndex := (nextIndex rf)[p := v]\<rparr>)" "resumeAt (alog a i) rf p reply v"
  note d = node_okD [OF ok]
  have "1 \<le> v" "v \<le> int (length (alog a i))"
    using v(2) c indices_okD(3,4) [OF d(8) [OF ldr] assms(3)] node_relD(3-5) [OF d(1)]
    by (auto simp: resumeAt_def split: if_splits)
  then have "indices_ok n (alog a i) (rf\<lparr>nextIndex := (nextIndex rf)[p := v]\<rparr>)"
    using d(8) [OF ldr] by (auto simp: indices_ok_def nth_update_if)
  then have "node_ok n a i (rf\<lparr>nextIndex := (nextIndex rf)[p := v]\<rparr>)"
    by (intro node_ok_leader) (use d(2-4) d(7,9) [OF ldr] ldr node_rel_arrays(1) [OF d(1)] in simp_all)
  with v(1) show thesis by (rule that)
qed

lemma appendReply_sim:
  assumes ok: "node_ok n a i rf" and "i < n" and inv: "ainv n a" and "p < n"
    and args: "append_ok n a i t args" and reply: "appendReply_ok a t p args reply"
  obtains rf' b where "appendReply rf p t args reply = Some rf'" and "moves n i a b" and "node_ok n b i rf'"
proof -
  note d = node_okD [OF ok]
  consider (idle) "role rf \<noteq> Leader \<or> currentTerm rf \<noteq> t"
    | (newer) "role rf = Leader" "currentTerm rf = t" "aer_Term reply > currentTerm rf"
    | (stored) "role rf = Leader" "currentTerm rf = t" "\<not> aer_Term reply > currentTerm rf" "Success reply"
    | (refused) "role rf = Leader" "currentTerm rf = t" "\<not> aer_Term reply > currentTerm rf" "\<not> Success reply"
    by blast
  then show thesis
  proof cases
    case idle
    then have "appendReply rf p t args reply = Some rf" by (auto simp: appendReply_def)
    then show thesis using that [OF _ moves_refl] ok by simp
  next
    case newer
    then have "appendReply rf p t args reply = Some (becomeFollower (aer_Term reply) rf)" by (simp add: appendReply_def)
    then show thesis
      using that [OF _ raiseTerm_moves [OF assms(2)]] node_ok_becomeFollower [OF ok assms(2) inv newer(3)] by blast
  next
    case stored
    let ?m = "PrevLogIndex args + int (length (Entries args))"
    have m: "?m = int (lastNew args)" "lastNew args < aack a (aterm a i) p"
      using args reply stored d(2) by (auto simp: append_ok_def appendReply_ok_def fromLeader_def lastNew_def)
    define rf1 where "rf1 = (if ?m > matchIndex rf ! p then setMatch p ?m rf else rf)"
    have ok1: "node_ok n a i rf1"
      using node_ok_setMatch [OF ok stored(1) inv, of ?m p] m ok by (simp add: rf1_def)
    have ldr1: "role rf1 = Leader" using stored(1) by (simp add: rf1_def)
    have "appendReply rf p t args reply = advanceCommit rf1"
      using stored indices_okD(1,2) [OF d(8) [OF stored(1)]] assms(4)
      by (simp add: appendReply_def rf1_def setMatch_def Let_def)
    then show thesis
      using that [OF _ moves_refl] advanceCommit_sim [OF ok1 assms(2) ldr1 inv] by metis
  next
    case refused
    have "ConflictIndex reply \<le> int (length (alog a i))"
      using reply refused d(2) leader_log(1) [OF ok refused(1) inv] by (auto simp: appendReply_ok_def)
    moreover have "appendReply rf p t args reply = backUp rf p reply" using refused by (simp add: appendReply_def)
    ultimately show thesis
      using that [OF _ moves_refl] backUp_sim [OF ok refused(1) assms(4), of reply] by metis
  qed
qed

lemma installReply_sim:
  assumes ok: "node_ok n a i rf" and "i < n" and inv: "ainv n a" and "p < n"
    and args: "install_ok n a i t args" and reply: "installReply_ok a t p args reply" and "p \<noteq> i"
  obtains rf' b where "installReply rf p t args reply = Some rf'" and "moves n i a b" and "node_ok n b i rf'"
proof -
  note d = node_okD [OF ok]
  consider (idle) "role rf \<noteq> Leader \<or> currentTerm rf \<noteq> t"
    | (newer) "role rf = Leader" "currentTerm rf = t" "isr_Term reply > currentTerm rf"
    | (stored) "role rf = Leader" "currentTerm rf = t" "isr_Term reply \<le> currentTerm rf"
    by linarith
  then show thesis
  proof cases
    case idle
    then have "installReply rf p t args reply = Some rf" by (auto simp: installReply_def)
    then show thesis using that [OF _ moves_refl] ok by simp
  next
    case newer
    then have "installReply rf p t args reply = Some (becomeFollower (isr_Term reply) rf)" by (simp add: installReply_def)
    then show thesis
      using that [OF _ raiseTerm_moves [OF assms(2)]] node_ok_becomeFollower [OF ok assms(2) inv newer(3)] by blast
  next
    case stored
    let ?m = "max (matchIndex rf ! p) (is_LastIncludedIndex args)"
    have "nat (is_LastIncludedIndex args) < aack a (aterm a i) p"
      using reply stored d(2) by (auto simp: installReply_ok_def)
    then have "0 \<le> ?m" "?m = 0 \<or> nat ?m < aack a (aterm a i) p"
      using d(9) [OF stored(1)] assms(4,7) indices_okD(5) [OF d(8) [OF stored(1)] assms(4)]
      by (auto simp: match_ok_def max_def)
    then have "node_ok n a i (setMatch p ?m rf)" by (rule node_ok_setMatch [OF ok stored(1) inv])
    moreover have "installReply rf p t args reply = Some (setMatch p ?m rf)"
      using installReply_rel [OF d(8) [OF stored(1)] stored(1) assms(4) stored(3), of args] stored(2) by simp
    ultimately show thesis using that [OF _ moves_refl] by blast
  qed
qed

subsection \<open>The applier and the service\<close>

lemma applier_sim:
  assumes ok: "node_ok n a i rf" and inv: "ainv n a"
  obtains rf' out where "applier rf = Some (rf', out)" and "node_ok n a i rf'"
    and "\<And>m. out = Deliver m \<Longrightarrow> msg_ok n a m"
proof (rule applier_rel [OF node_okD(1) [OF ok]])
  fix rf' assume w: "applier rf = Some (rf', Wait)" "rf' = rf\<lparr>applyCond := False\<rparr>" "node_rel n i (alog a i) rf'"
  have "node_ok n a i rf'" by (rule node_ok_same [OF ok w(3)]) (use w(2) in simp_all)
  with w(1) show thesis by (rule that) simp
next
  note d = node_okD [OF ok]
  fix rf' let ?k = "lastApplied rf + 1"
  let ?m = "commandMsg (le_Command (alog a i ! nat ?k)) ?k"
  assume w: "applier rf = Some (rf', Deliver ?m)" "rf' = rf\<lparr>lastApplied := ?k\<rparr>" "node_rel n i (alog a i) rf'"
    "lastApplied rf < commitIndex rf"
  have ok': "node_ok n a i rf'" by (rule node_ok_same [OF ok w(3)]) (use w(2) in simp_all)
  have k: "0 < ?k" "?k \<le> commitIndex rf" "commitIndex rf < int (length (alog a i))"
    using node_relD(5,6) [OF d(1)] w(4) by simp_all
  then obtain t k where t: "committed n a t k" "nat (commitIndex rf) < k"
    "take (Suc (nat (commitIndex rf))) (alog a i) = take (Suc (nat (commitIndex rf))) (llog a t)"
    using d(4) by (auto simp: commit_rel_def)
  have "alog a i ! nat ?k = llog a t ! nat ?k"
    by (rule take_eq_nth [OF t(3)]) (use k in auto)
  then have "msg_ok n a ?m"
    using t(1,2) k unfolding msg_ok_def by (auto simp: commandMsg_def intro!: exI [of _ t] exI [of _ k])
  with ok' show thesis using that [OF w(1)] by simp
qed

lemma Snapshot_sim:
  assumes ok: "node_ok n a i rf"
  obtains rf' where "Snapshot rf index snap = Some rf'" and "node_ok n a i rf'"
  by (rule Snapshot_rel [OF node_okD(1) [OF ok], of index snap]) (rule that, assumption, rule node_ok_same [OF ok], assumption+)

lemma crash_sim:
  assumes ok: "node_ok n a i rf"
  shows "node_ok n a i (Make clk n i (Copy (persister rf)))"
proof -
  note d = node_okD [OF ok] and m = Make_rel [OF node_okD(1) [OF ok], of clk]
  have "commit_rel n a (aterm a i) (alog a i) (lastIncludedIndex rf)"
    by (rule commit_rel_le [OF d(4) node_relD(4) [OF d(1)]])
  with m d(2,3) show ?thesis by (intro node_ok_follower) simp_all
qed

end
