(* ===== verification/RaftSafety.thy ===== *)
theory RaftSafety
  imports RaftSim
begin

section \<open>The safety of the cluster\<close>

text \<open>
  The simulation of every step of the cluster by the abstract protocol, and what follows for
  the states that the cluster reaches: no handler panics, there is one leader per term, logs
  that agree on a term at an index agree up to it, the entries a peer has committed are in the
  log of every later leader, and no two services are ever handed different commands at
  the same index.
\<close>

subsection \<open>Updates of the cluster\<close>

lemma cluster_relD:
  assumes "cluster_rel n s a"
  shows "i < n \<Longrightarrow> node_ok n a i (nodes s i)"
    and "e < length (elections s) \<Longrightarrow> election_ok n a (elections s ! e)"
    and "k < length (repls s) \<Longrightarrow> repl_ok n a (repls s ! k)"
    and "sending s i = Some m \<Longrightarrow> msg_ok n a m"
    and "m \<in> set (delivered s i) \<Longrightarrow> msg_ok n a m"
  using assms by (auto simp: cluster_rel_def)

lemma cluster_rel_setElection:
  assumes "cluster_rel n s a" and "election_ok n a el"
  shows "cluster_rel n (setElection s e el) a"
  using assms set_update_subset_insert [of "elections s" e el]
  by (auto simp: cluster_rel_def setElection_def)

lemma cluster_rel_addElection:
  assumes "cluster_rel n s a" and "election_ok n a el"
  shows "cluster_rel n (s\<lparr>elections := elections s @ [el]\<rparr>) a"
  using assms by (auto simp: cluster_rel_def)

lemma cluster_rel_setRepl:
  assumes "cluster_rel n s a" and "k < length (repls s)"
    and "stage_ok n a (rp_caller (repls s ! k)) (rp_server (repls s ! k)) (rp_term (repls s ! k)) st"
  shows "cluster_rel n (setRepl s k st) a"
proof -
  have "repl_ok n a ((repls s ! k)\<lparr>rp_stage := st\<rparr>)"
    using cluster_relD(3) [OF assms(1,2)] assms(3) by (simp add: repl_ok_def)
  then show ?thesis
    using assms(1) set_update_subset_insert [of "repls s" k "(repls s ! k)\<lparr>rp_stage := st\<rparr>"]
    by (auto simp: cluster_rel_def setRepl_def)
qed

lemma cluster_rel_addRepls:
  assumes "cluster_rel n s a" and "i < n" and "\<And>p t. (p, t) \<in> set ts \<Longrightarrow> p < n \<and> p \<noteq> i"
  shows "cluster_rel n (addRepls s i ts) a"
proof -
  have "repl_ok n a r" if "r \<in> set (spawn i e ts)" for r :: "('a, 'b) repl" and e
    using that assms(2,3) by (auto simp: spawn_def repl_ok_def)
  with assms(1) show ?thesis by (auto simp: cluster_rel_def addRepls_def)
qed

lemma cluster_rel_deliver:
  assumes "cluster_rel n s a" and "msg_ok n a m"
  shows "cluster_rel n (deliver s i m) a"
  using assms by (auto simp: cluster_rel_def deliver_def)

lemma cluster_rel_sending:
  assumes "cluster_rel n s a" and "\<And>m. out = Some m \<Longrightarrow> msg_ok n a m"
  shows "cluster_rel n (s\<lparr>sending := (sending s)(i := out)\<rparr>) a"
  using assms by (auto simp: cluster_rel_def)

lemma broadcast_targets:
  assumes "node_rel n i F rf" and "(p, t) \<in> set (broadcastAppendEntries rf)"
  shows "p < n \<and> p \<noteq> i"
  using assms(2) node_relD(1,2) [OF assms(1)] by (auto simp: broadcastAppendEntries_def)

lemma election_ok_setStage:
  assumes "election_ok n a el" and "el_stage el p \<noteq> VDone"
    and "\<And>reply. st = VAnswered reply \<Longrightarrow> VoteGranted reply \<Longrightarrow> voted a (rv_Term (el_args el)) p (el_caller el)"
  shows "election_ok n a (setStage el p st)"
proof -
  obtain C where C: "C \<subseteq> {..<n} - {el_caller el}" "el_votes el = 1 + int (card C)"
    "\<And>q. q \<in> C \<Longrightarrow> el_stage el q = VDone" "\<And>q. q \<in> C \<Longrightarrow> voted a (rv_Term (el_args el)) q (el_caller el)"
    using assms(1) unfolding election_ok_def by blast
  have "\<forall>q\<in>C. el_stage (setStage el p st) q = VDone"
    using C(3) assms(2) by (auto simp: setStage_def)
  with C assms show ?thesis
    unfolding election_ok_def by (auto simp: setStage_def intro!: exI [of _ C])
qed

lemma election_ok_lost:
  assumes "election_ok n a el"
  shows "election_ok n a (setStage el p VDone)"
proof (cases "el_stage el p = VDone")
  case True
  then have "(el_stage el)(p := VDone) = el_stage el" by auto
  then have "setStage el p VDone = el" by (cases el) (simp add: setStage_def)
  with assms show ?thesis by simp
qed (rule election_ok_setStage [OF assms]; simp)

lemma election_ok_votes:
  assumes "election_ok n a el" and "C \<subseteq> {..<n} - {el_caller el}" and "v = 1 + int (card C)"
    and "\<And>q. q \<in> C \<Longrightarrow> el_stage el q = VDone \<and> voted a (rv_Term (el_args el)) q (el_caller el)"
  shows "election_ok n a (el\<lparr>el_votes := v\<rparr>)"
proof -
  have "\<exists>C. C \<subseteq> {..<n} - {el_caller el} \<and> v = 1 + int (card C) \<and>
      (\<forall>p\<in>C. el_stage el p = VDone \<and> voted a (rv_Term (el_args el)) p (el_caller el))"
    using assms(2-4) by blast
  with assms(1) show ?thesis by (simp add: election_ok_def)
qed

lemma election_ok_new:
  assumes "candidate_ok a i args" and "i < n" and "set ps = {..<n} - {i}"
  shows "election_ok n a (newElection i ep args ps)"
proof -
  have "\<exists>C. C \<subseteq> {..<n} - {i} \<and> initialVotes = 1 + int (card C) \<and>
      (\<forall>p\<in>C. (if p \<in> set ps then VSent else VDone) = VDone \<and> voted a (rv_Term args) p i)"
    by (rule exI [of _ "{}"]) (simp add: initialVotes_def)
  with assms show ?thesis by (simp add: election_ok_def newElection_def)
qed

subsection \<open>The simulation\<close>

lemma cluster_init_rel: "clusterInit n s \<Longrightarrow> cluster_rel n s ainit"
  by (auto simp: clusterInit_def cluster_rel_def ainit_def commit_rel_def Make_fresh intro!: node_ok_follower)

lemma vote_reply_sim:
  assumes rel: "cluster_rel n s a" and inv: "ainv n a" and e: "e < length (elections s)"
    and el: "el = elections s ! e" and i: "i = el_caller el" and st: "el_stage el p = VAnswered reply"
    and run: "voteReply (nodes s i) (rv_Term (el_args el)) (el_votes el) reply = (rf, votes, ts)"
  shows "\<exists>b. moves n i a b \<and> cluster_rel n
     (addRepls (setElection (setNode s i rf) e ((setStage el p VDone)\<lparr>el_votes := votes\<rparr>)) i ts) b"
proof -
  let ?t = "rv_Term (el_args el)"
  have ok: "election_ok n a el" using cluster_relD(2) [OF rel e] el by simp
  then obtain C where C: "C \<subseteq> {..<n} - {i}" "el_votes el = 1 + int (card C)"
    "\<And>q. q \<in> C \<Longrightarrow> el_stage el q = VDone" "\<And>q. q \<in> C \<Longrightarrow> voted a ?t q i"
    unfolding election_ok_def i by blast
  have "i < n \<and> p < n \<and> p \<noteq> i \<and> (VoteGranted reply \<longrightarrow> voted a ?t p i)"
    using ok st unfolding election_ok_def i by (metis vote_stage.distinct(5))
  moreover have "p \<notin> C" using C(3) [of p] st by auto
  ultimately have n: "i < n" "p < n" "p \<noteq> i" "p \<notin> C" "VoteGranted reply \<Longrightarrow> voted a ?t p i"
    by simp_all
  have run': "voteReply (nodes s i) ?t (1 + int (card C)) reply = (rf, votes, ts)"
    using run C(2) by simp
  show ?thesis
  proof (rule voteReply_sim [OF cluster_relD(1) [OF rel n(1)] n(1) inv C(1,4) n(2-5) run'])
    fix b C' assume b: "moves n i a b" "node_ok n b i rf" "votes = 1 + int (card C')"
      "C' = C \<or> C' = insert p C \<and> VoteGranted reply" "ts = [] \<or> ts = broadcastAppendEntries rf"
    let ?el = "(setStage el p VDone)\<lparr>el_votes := votes\<rparr>"
    note ext = moves_extends [OF b(1) inv]
    have vt: "voted b ?t q i" if "q \<in> C'" for q
      using that b(4) voted_mono [OF _ ext] C(4) n(5) by auto
    have dn: "el_stage (setStage el p VDone) q = VDone" if "q \<in> C'" for q
      using that b(4) C(3) [of q] by (auto simp: setStage_def)
    have "C' \<subseteq> {..<n} - {i}" using b(4) C(1) n by auto
    then have "election_ok n b ?el"
      using vt dn b(3) by (intro election_ok_votes [OF election_ok_lost [OF election_ok_mono [OF ok ext]]])
        (simp_all add: i, simp_all add: setStage_def)
    then have "cluster_rel n (setElection (setNode s i rf) e ?el) b"
      by (rule cluster_rel_setElection [OF cluster_rel_move [OF rel b(1) inv b(2)]])
    then have "cluster_rel n (addRepls (setElection (setNode s i rf) e ?el) i ts) b"
      by (rule cluster_rel_addRepls [OF _ n(1)]) (use b(5) broadcast_targets [OF node_okD(1) [OF b(2)]] in auto)
    with b(1) show ?thesis by blast
  qed
qed

lemma stage_at:
  assumes "cluster_rel n s a" and "k < length (repls s)" and "r = repls s ! k"
  shows "rp_caller r < n" and "rp_server r < n" and "rp_server r \<noteq> rp_caller r"
    and "stage_ok n a (rp_caller r) (rp_server r) (rp_term r) (rp_stage r)"
  using cluster_relD(3) [OF assms(1,2)] assms(3) by (auto simp: repl_ok_def)

text \<open>A step of a peer followed by a new stage of a goroutine of \<^verbatim>\<open>replicateTo\<close>.\<close>

lemma node_then_repl:
  assumes rel: "cluster_rel n s a" and inv: "ainv n a" and mv: "moves n i a b" and ok: "node_ok n b i rf"
    and k: "k < length (repls s)" and r: "r = repls s ! k"
    and st: "stage_ok n b (rp_caller r) (rp_server r) (rp_term r) st"
  shows "\<exists>b. (astep n)\<^sup>*\<^sup>* a b \<and> cluster_rel n (setRepl (setNode s i rf) k st) b"
proof -
  have "cluster_rel n (setRepl (setNode s i rf) k st) b"
    by (rule cluster_rel_setRepl [OF cluster_rel_move [OF rel mv inv ok]]) (use k st r in \<open>simp_all add: setNode_def\<close>)
  with mv show ?thesis by (auto simp: moves_def)
qed

lemma cluster_sim:
  assumes "clusterStep n s s'" and "cluster_rel n s a" and "ainv n a"
  shows "\<exists>b. (astep n)\<^sup>*\<^sup>* a b \<and> cluster_rel n s' b"
  using assms
proof (induction rule: clusterStep.induct)
  case (tick i s clk rf args ps)
  show ?case
  proof (rule ticker_sim [OF cluster_relD(1) [OF tick.prems(1) tick.hyps(1)] tick.hyps(1) tick.prems(2) tick.hyps(3)])
    fix b assume b: "moves n i a b" "node_ok n b i rf" "candidate_ok b i args" "set ps = {..<n} - {i}"
    have "election_ok n b (newElection i (epoch s i) args ps)"
      by (rule election_ok_new [OF b(3) tick.hyps(1) b(4)])
    then have "cluster_rel n ((setNode s i rf)\<lparr>elections := elections (setNode s i rf) @ [newElection i (epoch s i) args ps]\<rparr>) b"
      by (rule cluster_rel_addElection [OF cluster_rel_move [OF tick.prems(1) b(1) tick.prems(2) b(2)]])
    with b(1) show ?case by (auto simp: moves_def setNode_def)
  qed
next
  case (vote_handle e s el p clk rf reply)
  have el: "election_ok n a el" using cluster_relD(2) [OF vote_handle.prems(1) vote_handle.hyps(1)] vote_handle.hyps(2) by simp
  then have c: "candidate_ok a (el_caller el) (el_args el)" "p \<noteq> el_caller el"
    using vote_handle.hyps(4) by (auto simp: election_ok_def)
  show ?case
  proof (rule RequestVote_sim [OF cluster_relD(1) [OF vote_handle.prems(1) vote_handle.hyps(3)]
        vote_handle.hyps(3) vote_handle.prems(2) c, of clk])
    fix rf' reply' b assume b: "RequestVote clk (nodes s p) (el_args el) = Some (rf', reply')" "moves n p a b" "node_ok n b p rf'"
      "VoteGranted reply' \<Longrightarrow> voted b (rv_Term (el_args el)) p (el_caller el)"
    have same: "rf' = rf" "reply' = reply" using b(1) vote_handle.hyps(5) by simp_all
    have "election_ok n b (setStage el p (VAnswered reply))"
      by (rule election_ok_setStage [OF election_ok_mono [OF el moves_extends [OF b(2) vote_handle.prems(2)]]])
        (use vote_handle.hyps(4) b(4) same in auto)
    with cluster_rel_setElection [OF cluster_rel_move [OF vote_handle.prems(1) b(2) vote_handle.prems(2) b(3)]]
    show ?case using b(2) same by (auto simp: moves_def)
  qed
next
  case (vote_lost e s el p)
  then have "election_ok n a (setStage el p VDone)" using cluster_relD(2) election_ok_lost by blast
  with vote_lost show ?case using cluster_rel_setElection by blast
next
  case (vote_reply e s el i p reply rf votes ts)
  then show ?case using vote_reply_sim [of n s a e el i p reply rf votes ts] by (auto simp: moves_def)
next
  case (beat i s)
  have "cluster_rel n (addRepls s i (heartbeat (nodes s i))) a"
    by (rule cluster_rel_addRepls [OF beat.prems(1) beat.hyps(1)])
      (use broadcast_targets [OF node_okD(1) [OF cluster_relD(1) [OF beat.prems(1) beat.hyps(1)]]]
       in \<open>auto simp: heartbeat_def split: if_splits\<close>)
  then show ?case by blast
next
  case (start_cmd i s cmd rf res ts)
  show ?case
  proof (rule Start_sim [OF cluster_relD(1) [OF start_cmd.prems(1) start_cmd.hyps(1)] start_cmd.hyps(1) start_cmd.prems(2) start_cmd.hyps(2)])
    fix b assume b: "moves n i a b" "node_ok n b i rf" "ts = [] \<or> ts = broadcastAppendEntries rf"
    have "cluster_rel n (addRepls (setNode s i rf) i ts) b"
      by (rule cluster_rel_addRepls [OF cluster_rel_move [OF start_cmd.prems(1) b(1) start_cmd.prems(2) b(2)] start_cmd.hyps(1)])
        (use b(3) broadcast_targets [OF node_okD(1) [OF b(2)]] in auto)
    with b(1) show ?case by (auto simp: moves_def)
  qed
next
  case (take_snapshot i s index snap rf)
  then have "node_ok n a i rf"
    using Snapshot_sim [OF cluster_relD(1) [OF take_snapshot.prems(1) take_snapshot.hyps(1)], of index snap] by force
  with take_snapshot show ?case using cluster_rel_move [OF _ moves_refl] by blast
next
  case (send k s r out)
  note r = stage_at [OF send.prems(1) send.hyps(1,2)]
  obtain out' where "replicateTo (nodes s (rp_caller r)) (rp_server r) (rp_term r) = Some out'"
    "stage_ok n a (rp_caller r) (rp_server r) (rp_term r) (outStage out')"
    using replicateTo_sim [OF cluster_relD(1) [OF send.prems(1) r(1)] send.prems(2) r(2)] by metis
  then have "cluster_rel n (setRepl s k (outStage out)) a"
    using cluster_rel_setRepl [OF send.prems(1) send.hyps(1)] send.hyps(2,5) by simp
  then show ?case by blast
next
  case (append_handle k s r args clk rf reply)
  note r = stage_at [OF append_handle.prems(1) append_handle.hyps(1,2)]
  have args: "append_ok n a (rp_caller r) (rp_term r) args" using r(4) append_handle.hyps(3) by simp
  show ?case
  proof (rule AppendEntries_sim [OF cluster_relD(1) [OF append_handle.prems(1) r(2)] r(2) append_handle.prems(2) args r(3), of clk])
    fix rf' reply' b assume b: "AppendEntries clk (nodes s (rp_server r)) args = Some (rf', reply')"
      "moves n (rp_server r) a b" "node_ok n b (rp_server r) rf'" "appendReply_ok b (rp_term r) (rp_server r) args reply'"
    show ?case
      by (rule node_then_repl [OF append_handle.prems b(2) _ append_handle.hyps(1,2)])
        (use b append_handle.hyps(4) append_ok_mono [OF args moves_extends [OF b(2) append_handle.prems(2)]] in simp_all)
  qed
next
  case (append_reply k s r args reply rf)
  note r = stage_at [OF append_reply.prems(1) append_reply.hyps(1,2)]
  have st: "append_ok n a (rp_caller r) (rp_term r) args" "appendReply_ok a (rp_term r) (rp_server r) args reply"
    using r(4) append_reply.hyps(3) by simp_all
  show ?case
  proof (rule appendReply_sim [OF cluster_relD(1) [OF append_reply.prems(1) r(1)] r(1) append_reply.prems(2) r(2) st])
    fix rf' b assume b: "appendReply (nodes s (rp_caller r)) (rp_server r) (rp_term r) args reply = Some rf'"
      "moves n (rp_caller r) a b" "node_ok n b (rp_caller r) rf'"
    show ?case
      by (rule node_then_repl [OF append_reply.prems b(2) _ append_reply.hyps(1,2)])
        (use b append_reply.hyps(5) in simp_all)
  qed
next
  case (install_handle k s r args clk rf reply out)
  note r = stage_at [OF install_handle.prems(1) install_handle.hyps(1,2)]
  have args: "install_ok n a (rp_caller r) (rp_term r) args" using r(4) install_handle.hyps(3) by simp
  show ?case
  proof (rule InstallSnapshot_sim [OF cluster_relD(1) [OF install_handle.prems(1) r(2)] r(2) install_handle.prems(2) args r(3), of clk])
    fix rf' reply' out' b assume b: "InstallSnapshot clk (nodes s (rp_server r)) args = Some (rf', reply', out')"
      "moves n (rp_server r) a b" "node_ok n b (rp_server r) rf'" "installReply_ok b (rp_term r) (rp_server r) args reply'"
      "\<And>m. out' = Some m \<Longrightarrow> msg_ok n b m"
    show ?case
      by (rule node_then_repl [OF install_handle.prems b(2) _ install_handle.hyps(1,2)])
        (use b install_handle.hyps(4) install_ok_mono [OF args moves_extends [OF b(2) install_handle.prems(2)]]
         in \<open>auto split: option.splits\<close>)
  qed
next
  case (install_deliver k s r args reply m)
  note r = stage_at [OF install_deliver.prems(1) install_deliver.hyps(1,2)]
  have m: "install_ok n a (rp_caller r) (rp_term r) args" "installReply_ok a (rp_term r) (rp_server r) args reply" "msg_ok n a m"
    using r(4) install_deliver.hyps(3) by simp_all
  have "cluster_rel n (setRepl (deliver s (rp_server r) m) k (InstallAnswered args reply)) a"
    by (rule cluster_rel_setRepl [OF cluster_rel_deliver [OF install_deliver.prems(1) m(3)]])
      (use m install_deliver.hyps(1,2) in \<open>simp_all add: deliver_def\<close>)
  then show ?case by blast
next
  case (install_reply k s r args reply rf)
  note r = stage_at [OF install_reply.prems(1) install_reply.hyps(1,2)]
  have st: "install_ok n a (rp_caller r) (rp_term r) args" "installReply_ok a (rp_term r) (rp_server r) args reply"
    using r(4) install_reply.hyps(3) by simp_all
  show ?case
  proof (rule installReply_sim [OF cluster_relD(1) [OF install_reply.prems(1) r(1)] r(1) install_reply.prems(2) r(2) st r(3)])
    fix rf' b assume b: "installReply (nodes s (rp_caller r)) (rp_server r) (rp_term r) args reply = Some rf'"
      "moves n (rp_caller r) a b" "node_ok n b (rp_caller r) rf'"
    show ?case
      by (rule node_then_repl [OF install_reply.prems b(2) _ install_reply.hyps(1,2)])
        (use b install_reply.hyps(5) in simp_all)
  qed
next
  case (repl_lost k s)
  then have "cluster_rel n (setRepl s k ReplDone) a" by (intro cluster_rel_setRepl) simp_all
  then show ?case by blast
next
  case (apply_step i s rf out)
  show ?case
  proof (rule applier_sim [OF cluster_relD(1) [OF apply_step.prems(1) apply_step.hyps(1)] apply_step.prems(2)])
    fix rf' out' assume b: "applier (nodes s i) = Some (rf', out')" "node_ok n a i rf'" "\<And>m. out' = Deliver m \<Longrightarrow> msg_ok n a m"
    have "cluster_rel n (setNode s i rf) a"
      using cluster_rel_move [OF apply_step.prems(1) moves_refl apply_step.prems(2) b(2)] b(1) apply_step.hyps(4) by simp
    then have "cluster_rel n ((setNode s i rf)\<lparr>sending := (sending (setNode s i rf))(i := (case out of Deliver m \<Rightarrow> Some m | _ \<Rightarrow> None))\<rparr>) a"
      by (rule cluster_rel_sending) (use b(1,3) apply_step.hyps(4) in \<open>auto split: apply_out.splits\<close>)
    then show ?case by (auto simp: setNode_def)
  qed
next
  case (apply_send i s m)
  have "cluster_rel n ((deliver s i m)\<lparr>sending := (sending (deliver s i m))(i := None)\<rparr>) a"
    by (rule cluster_rel_sending [OF cluster_rel_deliver [OF apply_send.prems(1) cluster_relD(4) [OF apply_send.prems(1) apply_send.hyps(2)]]]) simp
  then show ?case by (auto simp: deliver_def)
next
  case (crash i s clk)
  have "cluster_rel n (setNode s i (Make clk n i (Copy (persister (nodes s i))))) a"
    by (rule cluster_rel_move [OF crash.prems(1) moves_refl crash.prems(2) crash_sim [OF cluster_relD(1) [OF crash.prems(1) crash.hyps(1)]]])
  then have "cluster_rel n ((setNode s i (Make clk n i (Copy (persister (nodes s i)))))\<lparr>epoch := (epoch s)(i := Suc (epoch s i)),
      sending := (sending s)(i := None), delivered := (delivered s)(i := [])\<rparr>) a"
    by (auto simp: cluster_rel_def setNode_def)
  then show ?case by blast
next
  case (kill i s)
  have "node_ok n a i (Kill (nodes s i))"
    using cluster_relD(1) [OF kill.prems(1) kill.hyps(1)]
    by (rule node_ok_same) (simp_all add: Kill_def node_rel_arrays(5) node_okD(1) [OF cluster_relD(1) [OF kill.prems(1) kill.hyps(1)]])
  with kill show ?case using cluster_rel_move [OF _ moves_refl] by blast
qed

lemma cluster_sims:
  assumes "(clusterStep n)\<^sup>*\<^sup>* s s'" and "cluster_rel n s a" and "ainv n a"
  shows "\<exists>b. (astep n)\<^sup>*\<^sup>* a b \<and> cluster_rel n s' b"
  using assms
proof (induction rule: rtranclp_induct)
  case (step u v)
  then obtain b where b: "(astep n)\<^sup>*\<^sup>* a b" "cluster_rel n u b" by blast
  then obtain c where "(astep n)\<^sup>*\<^sup>* b c" "cluster_rel n v c"
    using cluster_sim [OF step.hyps(2) b(2) ainv_steps [OF b(1) step.prems(2)]] by blast
  with b(1) show ?case by (meson rtranclp_trans)
qed blast

lemma cluster_reach_rel:
  assumes "clusterReach n s"
  shows "\<exists>a. ainv n a \<and> cluster_rel n s a"
  using assms
proof (induction rule: reaches_invariant)
  case (init s)
  then show ?case using cluster_init_rel ainv_init by blast
next
  case (step s t)
  then show ?case using cluster_sim ainv_steps by blast
qed

text \<open>Two states of one run, with the abstract states that stand for them.\<close>

lemma cluster_two:
  assumes "clusterReach n s" and "(clusterStep n)\<^sup>*\<^sup>* s s'"
  obtains a b where "ainv n a" and "cluster_rel n s a" and "ainv n b" and "cluster_rel n s' b" and "extends a b"
proof -
  obtain a where a: "ainv n a" "cluster_rel n s a" using cluster_reach_rel [OF assms(1)] by blast
  obtain b where b: "(astep n)\<^sup>*\<^sup>* a b" "cluster_rel n s' b" using cluster_sims [OF assms(2) a(2,1)] by blast
  show thesis using that [OF a ainv_steps [OF b(1) a(1)] b(2) asteps_extends [OF b(1) a(1)]] .
qed

text \<open>Two services never receive different commands at the same index.\<close>

lemma delivered_agree:
  assumes "clusterReach n s" and "(clusterStep n)\<^sup>*\<^sup>* s s'"
    and "m \<in> set (delivered s i)" and "m' \<in> set (delivered s' j)"
    and "CommandValid m" and "CommandValid m'" and "CommandIndex m = CommandIndex m'"
  shows "Command m = Command m'"
proof -
  obtain a b where ab: "ainv n a" "cluster_rel n s a" "ainv n b" "cluster_rel n s' b" "extends a b"
    using cluster_two [OF assms(1,2)] .
  have "msg_ok n b m" "msg_ok n b m'"
    using cluster_relD(5) [OF ab(2) assms(3)] cluster_relD(5) [OF ab(4) assms(4)] msg_ok_mono ab(5) by blast+
  then obtain t k t' k' where
    "committed n b t k" "nat (CommandIndex m) < k" "Command m = le_Command (llog b t ! nat (CommandIndex m))"
    "committed n b t' k'" "nat (CommandIndex m') < k'" "Command m' = le_Command (llog b t' ! nat (CommandIndex m'))"
    using assms(5,6) by (auto simp: msg_ok_def)
  then show ?thesis using committed_agree [OF ab(3)] assms(7) by metis
qed

text \<open>Two leaders of one term, at whatever times, are the same peer.\<close>

lemma leader_agree:
  assumes "clusterReach n s" and "(clusterStep n)\<^sup>*\<^sup>* s s'" and "i < n" and "j < n"
    and "role (nodes s i) = Leader" and "role (nodes s' j) = Leader"
    and "currentTerm (nodes s i) = currentTerm (nodes s' j)"
  shows "i = j"
proof -
  obtain a b where ab: "ainv n a" "cluster_rel n s a" "ainv n b" "cluster_rel n s' b" "extends a b"
    using cluster_two [OF assms(1,2)] .
  note di = node_okD [OF cluster_relD(1) [OF ab(2) assms(3)]] and dj = node_okD [OF cluster_relD(1) [OF ab(4) assms(4)]]
  show ?thesis
    using extendsD(1) [OF ab(5) di(7) [OF assms(5)]] dj(7) [OF assms(6)] di(2) dj(2) assms(7) by simp
qed

subsection \<open>Panics\<close>

text \<open>
  The states in which some goroutine of the cluster can run into a run-time panic with its next
  step: the guards are those of \<open>clusterStep\<close>, and the handler has no result.
\<close>

inductive clusterPanic :: "nat \<Rightarrow> ('c, 'd) cluster \<Rightarrow> bool" for n where
  "i < n \<Longrightarrow> ticker clk (nodes s i) = None \<Longrightarrow> clusterPanic n s"
| "e < length (elections s) \<Longrightarrow> el = elections s ! e \<Longrightarrow> p < n \<Longrightarrow> el_stage el p = VSent \<Longrightarrow>
    RequestVote clk (nodes s p) (el_args el) = None \<Longrightarrow> clusterPanic n s"
| "i < n \<Longrightarrow> Snapshot (nodes s i) index snap = None \<Longrightarrow> clusterPanic n s"
| "k < length (repls s) \<Longrightarrow> r = repls s ! k \<Longrightarrow>
    replicateTo (nodes s (rp_caller r)) (rp_server r) (rp_term r) = None \<Longrightarrow> clusterPanic n s"
| "k < length (repls s) \<Longrightarrow> r = repls s ! k \<Longrightarrow> rp_stage r = AppendSent args \<Longrightarrow>
    AppendEntries clk (nodes s (rp_server r)) args = None \<Longrightarrow> clusterPanic n s"
| "k < length (repls s) \<Longrightarrow> r = repls s ! k \<Longrightarrow> rp_stage r = AppendAnswered args reply \<Longrightarrow>
    appendReply (nodes s (rp_caller r)) (rp_server r) (rp_term r) args reply = None \<Longrightarrow> clusterPanic n s"
| "k < length (repls s) \<Longrightarrow> r = repls s ! k \<Longrightarrow> rp_stage r = InstallSent iargs \<Longrightarrow>
    InstallSnapshot clk (nodes s (rp_server r)) iargs = None \<Longrightarrow> clusterPanic n s"
| "k < length (repls s) \<Longrightarrow> r = repls s ! k \<Longrightarrow> rp_stage r = InstallAnswered iargs ireply \<Longrightarrow>
    installReply (nodes s (rp_caller r)) (rp_server r) (rp_term r) iargs ireply = None \<Longrightarrow> clusterPanic n s"
| "i < n \<Longrightarrow> applier (nodes s i) = None \<Longrightarrow> clusterPanic n s"

lemma cluster_rel_no_panic:
  assumes "clusterPanic n s" and rel: "cluster_rel n s a" and inv: "ainv n a"
  shows False
  using assms(1)
proof cases
  case (1 i clk)
  then show False
    using startElection_rel [OF node_okD(1) [OF cluster_relD(1) [OF rel 1(1)]], of clk]
    by (auto simp: ticker_def split: if_splits)
next
  case (2 e el p clk)
  have "candidate_ok a (el_caller el) (el_args el)" "p \<noteq> el_caller el"
    using cluster_relD(2) [OF rel 2(1)] 2(2,4) by (auto simp: election_ok_def)
  then show False
    using RequestVote_sim [OF cluster_relD(1) [OF rel 2(3)] 2(3) inv, of "el_caller el" "el_args el" clk] 2(5)
    by (metis option.distinct(1))
next
  case (3 i index snap)
  then show False using Snapshot_sim [OF cluster_relD(1) [OF rel 3(1)], of index snap] by (metis option.distinct(1))
next
  case (4 k r)
  note r = stage_at [OF rel 4(1,2)]
  show False using replicateTo_sim [OF cluster_relD(1) [OF rel r(1)] inv r(2), of "rp_term r"] 4(3) by (metis option.distinct(1))
next
  case (5 k r args clk)
  note r = stage_at [OF rel 5(1,2)]
  show False
    using AppendEntries_sim [OF cluster_relD(1) [OF rel r(2)] r(2) inv _ r(3), of "rp_term r" args clk] r(4) 5(3,4)
    by (metis option.distinct(1) stage_ok.simps(2))
next
  case (6 k r args reply)
  note r = stage_at [OF rel 6(1,2)]
  show False
    using appendReply_sim [OF cluster_relD(1) [OF rel r(1)] r(1) inv r(2), of "rp_term r" args reply] r(4) 6(3,4)
    by (metis option.distinct(1) stage_ok.simps(3))
next
  case (7 k r args clk)
  note r = stage_at [OF rel 7(1,2)]
  show False
    using InstallSnapshot_sim [OF cluster_relD(1) [OF rel r(2)] r(2) inv _ r(3), of "rp_term r" args clk] r(4) 7(3,4)
    by (metis option.distinct(1) stage_ok.simps(4))
next
  case (8 k r args reply)
  note r = stage_at [OF rel 8(1,2)]
  show False
    using installReply_sim [OF cluster_relD(1) [OF rel r(1)] r(1) inv r(2) _ _ r(3), of "rp_term r" args reply] r(4) 8(3,4)
    by (metis option.distinct(1) stage_ok.simps(6))
next
  case (9 i)
  then show False using applier_sim [OF cluster_relD(1) [OF rel 9(1)] inv] by (metis option.distinct(1))
qed

subsection \<open>What two states of a run agree on\<close>

text \<open>What the retained part of a peer's log says about its whole log.\<close>

lemma entryAt_rel:
  assumes "node_rel n i F rf" and "entryAt rf k = Some e" and "lastIncludedIndex rf < k"
  shows "k < int (length F)" and "F ! nat k = e"
proof -
  have "nat (k - lastIncludedIndex rf) < length (log rf)"
    using assms(2) by (auto simp: entryAt_def slice_get_def split: if_splits)
  then show "k < int (length F)"
    using node_relD(3,8) [OF assms(1)] assms(3) node_rel_length [OF assms(1)] by simp
  then show "F ! nat k = e" using node_rel_entry [OF assms(1,3)] assms(2) by simp
qed

lemma termAt_rel:
  assumes "node_rel n i F rf" and "termAt rf k = Some t" and "lastIncludedIndex rf \<le> k"
  shows "k < int (length F)" and "le_Term (F ! nat k) = t"
proof -
  have "nat (k - lastIncludedIndex rf) < length (log rf)"
    using assms(2) by (auto simp: termAt_def slice_get_def split: if_splits)
  then show "k < int (length F)"
    using node_relD(3,8) [OF assms(1)] assms(3) node_rel_length [OF assms(1)] by simp
  then show "le_Term (F ! nat k) = t" using node_rel_term [OF assms(1,3)] assms(2) by simp
qed

lemma commit_rel_agree:
  assumes inv: "ainv n a" and c: "commit_rel n a T F c" and c': "commit_rel n a T' F' c'"
    and k: "0 < k" "int k \<le> c" "int k \<le> c'" and len: "k < length F" "k < length F'"
  shows "F ! k = F' ! k"
proof -
  obtain t m where t: "committed n a t m" "nat c < m" "take (Suc (nat c)) F = take (Suc (nat c)) (llog a t)"
    using c k by (auto simp: commit_rel_def)
  obtain t' m' where t': "committed n a t' m'" "nat c' < m'" "take (Suc (nat c')) F' = take (Suc (nat c')) (llog a t')"
    using c' k by (auto simp: commit_rel_def)
  have "F ! k = llog a t ! k" by (rule take_eq_nth [OF t(3)]) (use k len in auto)
  moreover have "F' ! k = llog a t' ! k" by (rule take_eq_nth [OF t'(3)]) (use k len in auto)
  moreover have "llog a t ! k = llog a t' ! k"
    by (rule committed_agree [OF inv t(1) t'(1)]) (use k t(2) t'(2) in linarith)+
  ultimately show ?thesis by simp
qed

end
