(* ===== verification/RaftRun.thy ===== *)
theory RaftRun
  imports RaftCluster
begin

section \<open>Executable runs of the cluster\<close>

text \<open>
  The transition relation \<open>clusterStep\<close> as a function of an explicit choice of the scheduler:
  an \<open>event\<close> names the goroutine that runs, the clock it reads and the arguments the service
  passes. \<open>exec\<close> and the relation have the same steps (\<open>exec_iff\<close>), so a schedule that \<open>run\<close>
  evaluates is a run of the cluster (\<open>run_reach\<close>).
\<close>

datatype ('c, 'd) event =
    Tick nat clock
  | VoteHandle nat nat clock
  | VoteLost nat nat
  | VoteReply nat nat
  | Beat nat
  | StartCmd nat 'c
  | TakeSnapshot nat int "'d list"
  | Send nat
  | AppendHandle nat clock
  | AppendReply nat
  | InstallHandle nat clock
  | InstallDeliver nat
  | InstallReply nat
  | ReplLost nat
  | ApplyStep nat
  | ApplySend nat
  | Crash nat clock
  | KillPeer nat

fun voteStep :: "nat \<Rightarrow> ('c, 'd) event \<Rightarrow> ('c, 'd) cluster \<Rightarrow> ('c, 'd) cluster option" where
  "voteStep n (Tick i clk) s =
     (if i < n \<and> \<not> killed (nodes s i)
      then (case ticker clk (nodes s i) of
              Some (rf, Some (args, ps)) \<Rightarrow>
                Some ((setNode s i rf)\<lparr>elections := elections s @ [newElection i (epoch s i) args ps]\<rparr>)
            | _ \<Rightarrow> None)
      else None)"
| "voteStep n (VoteHandle e p clk) s =
     (if e < length (elections s) \<and> p < n \<and> el_stage (elections s ! e) p = VSent
      then (case RequestVote clk (nodes s p) (el_args (elections s ! e)) of
              Some (rf, reply) \<Rightarrow>
                Some (setElection (setNode s p rf) e (setStage (elections s ! e) p (VAnswered reply)))
            | None \<Rightarrow> None)
      else None)"
| "voteStep n (VoteLost e p) s =
     (if e < length (elections s) then Some (setElection s e (setStage (elections s ! e) p VDone)) else None)"
| "voteStep n (VoteReply e p) s =
     (if e < length (elections s) \<and> el_epoch (elections s ! e) = epoch s (el_caller (elections s ! e))
      then (case el_stage (elections s ! e) p of
              VAnswered reply \<Rightarrow>
                let el = elections s ! e; i = el_caller el;
                    (rf, votes, ts) = voteReply (nodes s i) (rv_Term (el_args el)) (el_votes el) reply
                in Some (addRepls (setElection (setNode s i rf) e ((setStage el p VDone)\<lparr>el_votes := votes\<rparr>)) i ts)
            | _ \<Rightarrow> None)
      else None)"
| "voteStep n _ s = None"

fun isSpawned :: "('c, 'd) repl_stage \<Rightarrow> bool" where
  "isSpawned Spawned = True"
| "isSpawned _ = False"

lemma isSpawned_iff [simp]: "isSpawned st \<longleftrightarrow> st = Spawned"
  by (cases st) simp_all

fun replStep :: "nat \<Rightarrow> ('c, 'd) event \<Rightarrow> ('c, 'd) cluster \<Rightarrow> ('c, 'd) cluster option" where
  "replStep n (Send k) s =
     (if k < length (repls s) \<and> isSpawned (rp_stage (repls s ! k)) \<and>
         rp_epoch (repls s ! k) = epoch s (rp_caller (repls s ! k))
      then map_option (\<lambda>out. setRepl s k (outStage out))
             (replicateTo (nodes s (rp_caller (repls s ! k))) (rp_server (repls s ! k)) (rp_term (repls s ! k)))
      else None)"
| "replStep n (AppendHandle k clk) s =
     (if k < length (repls s)
      then (case rp_stage (repls s ! k) of
              AppendSent args \<Rightarrow>
                map_option (\<lambda>(rf, reply). setRepl (setNode s (rp_server (repls s ! k)) rf) k (AppendAnswered args reply))
                  (AppendEntries clk (nodes s (rp_server (repls s ! k))) args)
            | _ \<Rightarrow> None)
      else None)"
| "replStep n (AppendReply k) s =
     (if k < length (repls s) \<and> rp_epoch (repls s ! k) = epoch s (rp_caller (repls s ! k))
      then (case rp_stage (repls s ! k) of
              AppendAnswered args reply \<Rightarrow>
                map_option (\<lambda>rf. setRepl (setNode s (rp_caller (repls s ! k)) rf) k ReplDone)
                  (appendReply (nodes s (rp_caller (repls s ! k))) (rp_server (repls s ! k))
                     (rp_term (repls s ! k)) args reply)
            | _ \<Rightarrow> None)
      else None)"
| "replStep n (InstallHandle k clk) s =
     (if k < length (repls s)
      then (case rp_stage (repls s ! k) of
              InstallSent args \<Rightarrow>
                map_option (\<lambda>(rf, reply, out). setRepl (setNode s (rp_server (repls s ! k)) rf) k
                    (case out of None \<Rightarrow> InstallAnswered args reply
                     | Some m \<Rightarrow> InstallHandled args reply m (epoch s (rp_server (repls s ! k)))))
                  (InstallSnapshot clk (nodes s (rp_server (repls s ! k))) args)
            | _ \<Rightarrow> None)
      else None)"
| "replStep n (InstallDeliver k) s =
     (if k < length (repls s)
      then (case rp_stage (repls s ! k) of
              InstallHandled args reply m ep \<Rightarrow>
                if ep = epoch s (rp_server (repls s ! k))
                then Some (setRepl (deliver s (rp_server (repls s ! k)) m) k (InstallAnswered args reply))
                else None
            | _ \<Rightarrow> None)
      else None)"
| "replStep n (InstallReply k) s =
     (if k < length (repls s) \<and> rp_epoch (repls s ! k) = epoch s (rp_caller (repls s ! k))
      then (case rp_stage (repls s ! k) of
              InstallAnswered args reply \<Rightarrow>
                map_option (\<lambda>rf. setRepl (setNode s (rp_caller (repls s ! k)) rf) k ReplDone)
                  (installReply (nodes s (rp_caller (repls s ! k))) (rp_server (repls s ! k))
                     (rp_term (repls s ! k)) args reply)
            | _ \<Rightarrow> None)
      else None)"
| "replStep n (ReplLost k) s = (if k < length (repls s) then Some (setRepl s k ReplDone) else None)"
| "replStep n _ s = None"

fun peerStep :: "nat \<Rightarrow> ('c, 'd) event \<Rightarrow> ('c, 'd) cluster \<Rightarrow> ('c, 'd) cluster option" where
  "peerStep n (Beat i) s =
     (if i < n \<and> \<not> killed (nodes s i) then Some (addRepls s i (heartbeat (nodes s i))) else None)"
| "peerStep n (StartCmd i cmd) s =
     (if i < n then (case Start (nodes s i) cmd of (rf, res, ts) \<Rightarrow> Some (addRepls (setNode s i rf) i ts)) else None)"
| "peerStep n (TakeSnapshot i index snap) s =
     (if i < n then map_option (setNode s i) (Snapshot (nodes s i) index snap) else None)"
| "peerStep n (ApplyStep i) s =
     (if i < n \<and> \<not> killed (nodes s i) \<and> Option.is_none (sending s i)
      then map_option (\<lambda>(rf, out). (setNode s i rf)\<lparr>sending := (sending s)(i := (case out of Deliver m \<Rightarrow> Some m
             | _ \<Rightarrow> None))\<rparr>) (applier (nodes s i))
      else None)"
| "peerStep n (ApplySend i) s =
     (if i < n then map_option (\<lambda>m. (deliver s i m)\<lparr>sending := (sending s)(i := None)\<rparr>) (sending s i) else None)"
| "peerStep n (Crash i clk) s =
     (if i < n
      then Some ((setNode s i (Make clk n i (Copy (persister (nodes s i)))))
             \<lparr>epoch := (epoch s)(i := Suc (epoch s i)), sending := (sending s)(i := None),
              delivered := (delivered s)(i := [])\<rparr>)
      else None)"
| "peerStep n (KillPeer i) s = (if i < n then Some (setNode s i (Kill (nodes s i))) else None)"
| "peerStep n _ s = None"

definition exec :: "nat \<Rightarrow> ('c, 'd) event \<Rightarrow> ('c, 'd) cluster \<Rightarrow> ('c, 'd) cluster option" where
  "exec n ev s = (case voteStep n ev s of Some s' \<Rightarrow> Some s' | None \<Rightarrow>
     (case replStep n ev s of Some s' \<Rightarrow> Some s' | None \<Rightarrow> peerStep n ev s))"

fun run :: "nat \<Rightarrow> ('c, 'd) event list \<Rightarrow> ('c, 'd) cluster \<Rightarrow> ('c, 'd) cluster option" where
  "run n [] s = Some s"
| "run n (ev # evs) s = (case exec n ev s of None \<Rightarrow> None | Some s' \<Rightarrow> run n evs s')"

definition startCluster :: "nat \<Rightarrow> ('c, 'd) cluster" where
  "startCluster n = \<lparr>nodes = (\<lambda>i. Make (0, 0) n i MakePersister), epoch = (\<lambda>_. 0), elections = [],
     repls = [], sending = (\<lambda>_. None), delivered = (\<lambda>_. [])\<rparr>"

lemma voteStep_sound: "voteStep n ev s = Some s' \<Longrightarrow> clusterStep n s s'"
  by (cases ev) (auto split: if_splits option.splits prod.splits vote_stage.splits simp: Let_def
      intro: tick vote_handle vote_lost vote_reply)

lemma replStep_sound: "replStep n ev s = Some s' \<Longrightarrow> clusterStep n s s'"
  by (cases ev) (auto split: if_splits repl_stage.splits
      intro: send append_handle append_reply install_handle install_deliver install_reply repl_lost)

lemma peerStep_sound: "peerStep n ev s = Some s' \<Longrightarrow> clusterStep n s s'"
  by (cases ev) (auto simp: Option.is_none_def split: if_splits prod.splits
      intro: beat start_cmd take_snapshot apply_step apply_send crash kill)

lemma exec_sound: "exec n ev s = Some s' \<Longrightarrow> clusterStep n s s'"
  by (auto simp: exec_def voteStep_sound replStep_sound peerStep_sound split: option.splits)

lemma exec_complete:
  assumes "clusterStep n s s'"
  shows "\<exists>ev. exec n ev s = Some s'"
  using assms
proof cases
  case (tick i clk rf args ps)
  then show ?thesis by (intro exI [of _ "Tick i clk"]) (simp add: exec_def)
next
  case (vote_handle e el p clk rf reply)
  then show ?thesis by (intro exI [of _ "VoteHandle e p clk"]) (simp add: exec_def)
next
  case (vote_lost e el p)
  then show ?thesis by (intro exI [of _ "VoteLost e p"]) (simp add: exec_def)
next
  case (vote_reply e el i p reply rf votes ts)
  then show ?thesis by (intro exI [of _ "VoteReply e p"]) (simp add: exec_def Let_def)
next
  case (beat i)
  then show ?thesis by (intro exI [of _ "Beat i"]) (simp add: exec_def)
next
  case (start_cmd i cmd rf res ts)
  then show ?thesis by (intro exI [of _ "StartCmd i cmd"]) (simp add: exec_def)
next
  case (take_snapshot i index snap rf)
  then show ?thesis by (intro exI [of _ "TakeSnapshot i index snap"]) (simp add: exec_def)
next
  case (send k r out)
  then show ?thesis by (intro exI [of _ "Send k"]) (simp add: exec_def)
next
  case (append_handle k r args clk rf reply)
  then show ?thesis by (intro exI [of _ "AppendHandle k clk"]) (simp add: exec_def)
next
  case (append_reply k r args reply rf)
  then show ?thesis by (intro exI [of _ "AppendReply k"]) (simp add: exec_def)
next
  case (install_handle k r args clk rf reply out)
  then show ?thesis by (intro exI [of _ "InstallHandle k clk"]) (simp add: exec_def split: option.split)
next
  case (install_deliver k r args reply m)
  then show ?thesis by (intro exI [of _ "InstallDeliver k"]) (simp add: exec_def)
next
  case (install_reply k r args reply rf)
  then show ?thesis by (intro exI [of _ "InstallReply k"]) (simp add: exec_def)
next
  case (repl_lost k)
  then show ?thesis by (intro exI [of _ "ReplLost k"]) (simp add: exec_def)
next
  case (apply_step i rf out)
  then show ?thesis by (intro exI [of _ "ApplyStep i"]) (simp add: exec_def Option.is_none_def)
next
  case (apply_send i m)
  then show ?thesis by (intro exI [of _ "ApplySend i"]) (simp add: exec_def)
next
  case (crash i clk)
  then show ?thesis by (intro exI [of _ "Crash i clk"]) (simp add: exec_def)
next
  case (kill i)
  then show ?thesis by (intro exI [of _ "KillPeer i"]) (simp add: exec_def)
qed

lemma exec_iff: "clusterStep n s s' \<longleftrightarrow> (\<exists>ev. exec n ev s = Some s')"
  using exec_sound exec_complete by blast

lemma run_steps: "run n evs s = Some s' \<Longrightarrow> (clusterStep n)\<^sup>*\<^sup>* s s'"
  by (induction evs arbitrary: s)
    (auto split: option.splits dest: exec_sound intro: converse_rtranclp_into_rtranclp)

lemma startCluster_init: "clusterInit n (startCluster n)"
  by (auto simp: clusterInit_def startCluster_def)

lemma steps_reach:
  assumes "(clusterStep n)\<^sup>*\<^sup>* s s'" and "clusterReach n s"
  shows "clusterReach n s'"
  using assms by (induction rule: rtranclp_induct) (auto intro: reaches_step)

lemma run_reach: "run n evs (startCluster n) = Some s \<Longrightarrow> clusterReach n s"
  by (rule steps_reach [OF run_steps], assumption, rule reaches_init, rule startCluster_init)

lemma run_append: "run n (xs @ ys) s = (case run n xs s of None \<Rightarrow> None | Some s' \<Rightarrow> run n ys s')"
  by (induction xs arbitrary: s) (auto split: option.splits)

end
