(* ===== verification/Replica.thy ===== *)
theory Replica
  imports RaftNode
begin

section \<open>A service that consumes the replicated log\<close>

text \<open>
  What the apply loops of the services promise to Raft and to their clients. A service is a
  handler of the messages of \<^verbatim>\<open>applyCh\<close>; its state has the index it has applied last and a
  replicated part, \<open>core\<close>. The locale \<open>command_machine\<close> states the contract of a handler that
  skips what it has applied already and runs each new command through \<open>step\<close> (it may panic on
  a command that is not \<open>legal\<close>); \<open>log_machine\<close> adds that a snapshot replaces the replicated
  part. Inside them: a service that is fed by \<open>in_sequence\<close> messages of a log has, at every
  moment, the replicated part that the commands of the log up to its last index give
  (\<open>commands_follow_log\<close>, \<open>core_follows_log\<close>), so two services with the same last index agree
  (\<open>replicas_agree\<close>), whether they came by it by commands or by snapshots.
\<close>

text \<open>The commands of a log, index 1 first; the state after the first \<open>k\<close> of them.\<close>

definition stateAt :: "('o \<Rightarrow> 'm \<Rightarrow> 'm) \<Rightarrow> 'm \<Rightarrow> 'o list \<Rightarrow> int \<Rightarrow> 'm" where
  "stateAt step m0 ops k = fold step (take (nat k) ops) m0"

lemma stateAt_Suc:
  assumes "0 \<le> k" and "k < int (length ops)"
  shows "stateAt step m0 ops (k + 1) = step (ops ! nat k) (stateAt step m0 ops k)"
proof -
  have "nat (k + 1) = Suc (nat k)" using assms(1) by simp
  moreover have "take (Suc (nat k)) ops = take (nat k) ops @ [ops ! nat k]"
    using assms by (simp add: take_Suc_conv_app_nth)
  ultimately show ?thesis by (simp add: stateAt_def)
qed

text \<open>
  A message that fits the log: a command that has been applied already or is the next one, and
  is the log's command at its index; or a snapshot of the state at its index.
\<close>

definition fits :: "('o \<Rightarrow> 'm \<Rightarrow> 'm) \<Rightarrow> 'm \<Rightarrow> ('m \<Rightarrow> 'd list) \<Rightarrow> 'o list \<Rightarrow> int \<Rightarrow> ('o, 'd) ApplyMsg \<Rightarrow> bool" where
  "fits step m0 enc ops la m \<longleftrightarrow>
     (if CommandValid m
      then 1 \<le> CommandIndex m \<and> CommandIndex m \<le> la + 1 \<and> CommandIndex m \<le> int (length ops) \<and>
           Command m = Some (ops ! nat (CommandIndex m - 1))
      else if SnapshotValid m
      then 0 \<le> SnapshotIndex m \<and> SnapshotIndex m \<le> int (length ops) \<and>
           Snapshot_data m = enc (stateAt step m0 ops (SnapshotIndex m))
      else True)"

fun in_sequence ::
  "('o \<Rightarrow> 'm \<Rightarrow> 'm) \<Rightarrow> 'm \<Rightarrow> ('m \<Rightarrow> 'd list) \<Rightarrow> 'o list \<Rightarrow> int \<Rightarrow> ('o, 'd) ApplyMsg list \<Rightarrow> bool" where
  "in_sequence step m0 enc ops la [] = True"
| "in_sequence step m0 enc ops la (m # ms) =
     (fits step m0 enc ops la m \<and>
      in_sequence step m0 enc ops
        (max la (if CommandValid m then CommandIndex m else if SnapshotValid m then SnapshotIndex m else la)) ms)"

text \<open>The apply loop on a sequence of messages; no result if a message makes the handler panic or block.\<close>

fun consume :: "('m \<Rightarrow> 's \<Rightarrow> 's option) \<Rightarrow> 'm list \<Rightarrow> 's \<Rightarrow> 's option" where
  "consume handle [] s = Some s"
| "consume handle (m # ms) s = Option.bind (handle m s) (consume handle ms)"

text \<open>Commands at consecutive indices, as a cluster without snapshots delivers them.\<close>

fun inOrder :: "int \<Rightarrow> ('c, 'd) ApplyMsg list \<Rightarrow> bool" where
  "inOrder k [] = True"
| "inOrder k (m # ms) = (CommandValid m \<and> CommandIndex m = k + 1 \<and> Command m \<noteq> None \<and> inOrder (k + 1) ms)"

lemma inOrder_append:
  "inOrder k (ms @ [m]) \<longleftrightarrow> inOrder k ms \<and> CommandValid m \<and> CommandIndex m = k + int (length ms) + 1 \<and> Command m \<noteq> None"
  by (induction ms arbitrary: k) (auto simp: algebra_simps)

lemma inOrder_nth:
  "inOrder k ms \<Longrightarrow> j < length ms \<Longrightarrow> CommandValid (ms ! j) \<and> CommandIndex (ms ! j) = k + int j + 1 \<and> Command (ms ! j) \<noteq> None"
  by (induction ms arbitrary: k j) (auto simp: nth_Cons split: nat.splits)

definition commands :: "('c, 'd) ApplyMsg list \<Rightarrow> 'c list" where
  "commands ms = map (\<lambda>m. the (Command m)) ms"

locale command_machine =
  fixes handle :: "('o, 'd) ApplyMsg \<Rightarrow> 's \<Rightarrow> 's option" and ok :: "'s \<Rightarrow> bool"
    and applied :: "'s \<Rightarrow> int" and core :: "'s \<Rightarrow> 'm"
    and step :: "'o \<Rightarrow> 'm \<Rightarrow> 'm" and legal :: "'o \<Rightarrow> bool"
  assumes command_new: "ok s \<Longrightarrow> CommandValid m \<Longrightarrow> applied s < CommandIndex m \<Longrightarrow> Command m = Some x \<Longrightarrow> legal x \<Longrightarrow>
      \<exists>s'. handle m s = Some s' \<and> ok s' \<and> applied s' = CommandIndex m \<and> core s' = step x (core s)"
    and command_old: "ok s \<Longrightarrow> CommandValid m \<Longrightarrow> CommandIndex m \<le> applied s \<Longrightarrow> handle m s = Some s"
begin

lemma handle_command:
  assumes fit: "fits step m0 enc ops (applied s) m" and valid: "CommandValid m" and leg: "list_all legal ops"
    and ok: "ok s" and la: "0 \<le> applied s" "applied s \<le> int (length ops)"
    and core: "core s = stateAt step m0 ops (applied s)"
  obtains s' where "handle m s = Some s'" and "ok s'" and "0 \<le> applied s'" and "applied s' \<le> int (length ops)"
    and "core s' = stateAt step m0 ops (applied s')" and "applied s' = max (applied s) (CommandIndex m)"
proof (cases "CommandIndex m \<le> applied s")
  case True
  then show thesis using that [of s] command_old [OF ok valid] ok la core by (simp add: max_def)
next
  case False
  then have k: "CommandIndex m = applied s + 1" "applied s < int (length ops)"
    using fit valid by (auto simp: fits_def)
  have c: "Command m = Some (ops ! nat (applied s))" using fit valid k(1) by (simp add: fits_def)
  have "legal (ops ! nat (applied s))" using leg la(1) k(2) by (simp add: list_all_length)
  then obtain s' where s': "handle m s = Some s'" "ok s'" "applied s' = CommandIndex m" "core s' = step (ops ! nat (applied s)) (core s)"
    using command_new [OF ok valid _ c] False by auto
  have "core s' = stateAt step m0 ops (applied s + 1)"
    unfolding stateAt_Suc [OF la(1) k(2)] using s'(4) core by simp
  with s' k la show thesis by (intro that [of s']) auto
qed

text \<open>A service that is fed by commands at consecutive indices.\<close>

lemma over_raft:
  "ok s \<Longrightarrow> inOrder (applied s) ms \<Longrightarrow> list_all legal (commands ms) \<Longrightarrow>
   \<exists>s'. consume handle ms s = Some s' \<and> ok s' \<and> applied s' = applied s + int (length ms) \<and>
     core s' = fold step (commands ms) (core s)"
proof (induction ms arbitrary: s)
  case (Cons m ms)
  then obtain x where x: "Command m = Some x" "legal x" by (auto simp: commands_def)
  obtain s1 where s1: "handle m s = Some s1" "ok s1" "applied s1 = CommandIndex m" "core s1 = step x (core s)"
    using command_new [OF Cons.prems(1) _ _ x] Cons.prems(2) by auto
  with Cons.IH [OF s1(2)] Cons.prems x(1) show ?case by (auto simp: commands_def)
qed (simp add: commands_def)

text \<open>A service that is fed by commands only, some perhaps repeated.\<close>

lemma commands_follow_log:
  assumes "in_sequence step m0 enc ops (applied s) ms" and "list_all CommandValid ms" and "list_all legal ops"
    and "ok s" and "0 \<le> applied s" and "applied s \<le> int (length ops)"
    and "core s = stateAt step m0 ops (applied s)"
  obtains s' where "consume handle ms s = Some s'" and "ok s'" and "core s' = stateAt step m0 ops (applied s')"
    and "applied s \<le> applied s'" and "applied s' \<le> int (length ops)"
  using assms
proof (induction ms arbitrary: s thesis)
  case (Cons m ms)
  show ?case
  proof (rule handle_command [OF _ _ Cons.prems(4-8)])
    show "fits step m0 enc ops (applied s) m" and "CommandValid m" using Cons.prems(2,3) by simp_all
    fix s' assume s': "handle m s = Some s'" "ok s'" "0 \<le> applied s'" "applied s' \<le> int (length ops)"
      "core s' = stateAt step m0 ops (applied s')" "applied s' = max (applied s) (CommandIndex m)"
    have seq: "in_sequence step m0 enc ops (applied s') ms" "list_all CommandValid ms"
      using Cons.prems(2,3) s'(6) by simp_all
    show ?case
    proof (rule Cons.IH [OF _ seq Cons.prems(4) s'(2-5)])
      fix t assume "consume handle ms s' = Some t" "ok t" "core t = stateAt step m0 ops (applied t)"
        "applied s' \<le> applied t" "applied t \<le> int (length ops)"
      with s'(1,6) show ?case by (intro Cons.prems(1) [of t]) auto
    qed
  qed
qed simp

end

locale log_machine = command_machine handle ok applied core step legal
  for handle :: "('o, 'd) ApplyMsg \<Rightarrow> 's \<Rightarrow> 's option" and ok :: "'s \<Rightarrow> bool"
    and applied :: "'s \<Rightarrow> int" and core :: "'s \<Rightarrow> 'm"
    and step :: "'o \<Rightarrow> 'm \<Rightarrow> 'm" and legal :: "'o \<Rightarrow> bool" +
  fixes enc :: "'m \<Rightarrow> 'd list"
  assumes snapshot_new: "ok s \<Longrightarrow> \<not> CommandValid m \<Longrightarrow> SnapshotValid m \<Longrightarrow> applied s < SnapshotIndex m \<Longrightarrow>
      Snapshot_data m = enc c \<Longrightarrow>
      \<exists>s'. handle m s = Some s' \<and> ok s' \<and> applied s' = SnapshotIndex m \<and> core s' = c"
    and snapshot_old: "ok s \<Longrightarrow> \<not> CommandValid m \<Longrightarrow> SnapshotValid m \<Longrightarrow> SnapshotIndex m \<le> applied s \<Longrightarrow>
      handle m s = Some s"
    and neither: "ok s \<Longrightarrow> \<not> CommandValid m \<Longrightarrow> \<not> SnapshotValid m \<Longrightarrow> handle m s = Some s"
begin

lemma handle_fits:
  assumes fit: "fits step m0 enc ops (applied s) m" and leg: "list_all legal ops" and ok: "ok s"
    and la: "0 \<le> applied s" "applied s \<le> int (length ops)"
    and core: "core s = stateAt step m0 ops (applied s)"
  obtains s' where "handle m s = Some s'" and "ok s'" and "0 \<le> applied s'" and "applied s' \<le> int (length ops)"
    and "core s' = stateAt step m0 ops (applied s')"
    and "applied s' = max (applied s) (if CommandValid m then CommandIndex m else if SnapshotValid m then SnapshotIndex m else applied s)"
proof (cases "CommandValid m")
  case True
  show thesis
    by (rule handle_command [OF fit True leg ok la core], rule that, assumption+) (simp add: True)
next
  case False
  show thesis
  proof (cases "SnapshotValid m \<and> applied s < SnapshotIndex m")
    case True
    obtain s' where "handle m s = Some s'" "ok s'" "applied s' = SnapshotIndex m" "core s' = stateAt step m0 ops (SnapshotIndex m)"
      using snapshot_new [OF ok False, of "stateAt step m0 ops (SnapshotIndex m)"] True fit False by (auto simp: fits_def)
    with True fit False show thesis by (intro that [of s']) (auto simp: fits_def)
  next
    case nnew: False
    then have "handle m s = Some s" using snapshot_old [OF ok False] neither [OF ok False] by linarith
    with nnew False ok la core show thesis by (intro that [of s]) auto
  qed
qed

lemma core_follows_log:
  assumes "in_sequence step m0 enc ops (applied s) ms" and "list_all legal ops" and "ok s"
    and "0 \<le> applied s" and "applied s \<le> int (length ops)"
    and "core s = stateAt step m0 ops (applied s)"
  obtains s' where "consume handle ms s = Some s'" and "ok s'" and "core s' = stateAt step m0 ops (applied s')"
    and "applied s \<le> applied s'" and "applied s' \<le> int (length ops)"
  using assms
proof (induction ms arbitrary: s thesis)
  case (Cons m ms)
  show ?case
  proof (rule handle_fits [OF _ Cons.prems(3-7)])
    show "fits step m0 enc ops (applied s) m" using Cons.prems(2) by simp
    fix s' assume s': "handle m s = Some s'" "ok s'" "0 \<le> applied s'" "applied s' \<le> int (length ops)"
      "core s' = stateAt step m0 ops (applied s')"
      "applied s' = max (applied s) (if CommandValid m then CommandIndex m else if SnapshotValid m then SnapshotIndex m else applied s)"
    have seq: "in_sequence step m0 enc ops (applied s') ms" using Cons.prems(2) s'(6) by simp
    show ?case
    proof (rule Cons.IH [OF _ seq Cons.prems(3) s'(2-5)])
      fix t assume "consume handle ms s' = Some t" "ok t" "core t = stateAt step m0 ops (applied t)"
        "applied s' \<le> applied t" "applied t \<le> int (length ops)"
      with s'(1,6) show ?case by (intro Cons.prems(1) [of t]) auto
    qed
  qed
qed simp

lemma replicas_agree:
  assumes "list_all legal ops"
    and "in_sequence step m0 enc ops (applied s) ms" and "ok s" and "0 \<le> applied s" and "applied s \<le> int (length ops)"
    and "core s = stateAt step m0 ops (applied s)"
    and "in_sequence step m0 enc ops (applied t) ns" and "ok t" and "0 \<le> applied t" and "applied t \<le> int (length ops)"
    and "core t = stateAt step m0 ops (applied t)"
    and "consume handle ms s = Some s'" and "consume handle ns t = Some t'" and "applied s' = applied t'"
  shows "core s' = core t'"
  using core_follows_log [OF assms(2,1,3-6)] core_follows_log [OF assms(7,1,8-11)] assms(12-14)
  by (metis option.inject)

end

end
