(* ===== verification/RaftService.thy ===== *)
theory RaftService
  imports RaftSafety RaftRun Replica
begin

section \<open>A service above a Raft cluster\<close>

text \<open>
  The cluster and a service that consumes what the cluster delivers, put together, for services that take
  no snapshots (\<^verbatim>\<open>maxraftstate\<close> is -1). In such a run the service of every peer receives
  the commands at 1, 2, 3 and so on without a gap (\<open>delivered_inOrder\<close>), and by the agreement of the cluster
  these are the commands of one history (\<open>one_history\<close>). A service that keeps the contract of
  \<open>command_machine\<close> then goes through the states of that history (\<open>over_raft\<close>).
\<close>

subsection \<open>A cluster without snapshots\<close>

text \<open>
  A peer without a snapshot: its log starts at 0, also in stable storage, and every entry after the dummy
  has a command. A message between peers brings entries with commands only, or an empty snapshot.
\<close>

definition cmds :: "'c LogEntry list \<Rightarrow> bool" where
  "cmds es \<longleftrightarrow> (\<forall>e \<in> set es. le_Command e \<noteq> None)"

definition stored :: "('c gobval, 'd) Persister \<Rightarrow> bool" where
  "stored ps \<longleftrightarrow> (case decodeState (ReadRaftState ps) of None \<Rightarrow> True
     | Some (ct, vf, l, lii, lit) \<Rightarrow> lii = 0 \<and> cmds (tl l))"

definition tame :: "('c, 'd) Raft \<Rightarrow> bool" where
  "tame rf \<longleftrightarrow> lastIncludedIndex rf = 0 \<and> cmds (tl (log rf)) \<and> stored (persister rf)"

text \<open>What every step of a peer but the applier and a restart does.\<close>

definition keeps :: "('c, 'd) Raft \<Rightarrow> ('c, 'd) Raft \<Rightarrow> bool" where
  "keeps rf rf' \<longleftrightarrow> (tame rf \<longrightarrow> tame rf' \<and> lastApplied rf' = lastApplied rf)"

lemma cmds_append [simp]: "cmds (xs @ ys) \<longleftrightarrow> cmds xs \<and> cmds ys"
  by (auto simp: cmds_def)

lemma cmds_tl_append: "cmds (tl xs) \<Longrightarrow> cmds ys \<Longrightarrow> cmds (tl (xs @ ys))"
  by (cases xs; cases ys) (auto simp: cmds_def)

lemma cmds_tl_take: "cmds (tl xs) \<Longrightarrow> cmds (tl (take k xs))"
  by (cases xs; cases k) (auto simp: cmds_def dest: in_set_takeD)

lemma cmds_drop: "cmds xs \<Longrightarrow> cmds (drop k xs)"
  by (auto simp: cmds_def dest: in_set_dropD)

lemma cmds_Nil [simp]: "cmds []" by (simp add: cmds_def)

lemma keeps_refl [simp]: "keeps rf rf" by (simp add: keeps_def)

lemma keeps_trans: "keeps rf rf' \<Longrightarrow> keeps rf' rf'' \<Longrightarrow> keeps rf rf''"
  by (simp add: keeps_def)

lemma keeps_persist:
  "lastIncludedIndex rf' = lastIncludedIndex rf \<Longrightarrow> (tame rf \<Longrightarrow> cmds (tl (log rf'))) \<Longrightarrow> lastApplied rf' = lastApplied rf \<Longrightarrow>
   keeps rf (persist rf')"
  by (auto simp: keeps_def tame_def stored_def persist_def encodeState_def decodeState_def)

lemma keeps_plain:
  "lastIncludedIndex rf' = lastIncludedIndex rf \<Longrightarrow> log rf' = log rf \<Longrightarrow> persister rf' = persister rf \<Longrightarrow>
   lastApplied rf' = lastApplied rf \<Longrightarrow> keeps rf rf'"
  by (simp add: keeps_def tame_def)

lemma keeps_follower: "keeps rf (becomeFollower t rf)"
  unfolding becomeFollower_def by (rule keeps_persist) (simp_all add: tame_def)

lemma keeps_timer: "keeps rf (resetElectionTimer clk rf)"
  by (rule keeps_plain) (simp_all add: resetElectionTimer_def)

subsection \<open>The steps of a peer\<close>

lemma keeps_ticker: "ticker clk rf = Some (rf', out) \<Longrightarrow> keeps rf rf'"
  by (auto simp: ticker_def startElection_def resetElectionTimer_def bind_eq_Some_conv tame_def Let_def split: if_splits
      intro!: keeps_persist)

lemma keeps_vote:
  assumes "RequestVote clk rf args = Some (rf', reply)"
  shows "keeps rf rf'"
proof (cases "rv_Term args < currentTerm rf")
  case True
  with assms show ?thesis by (simp add: RequestVote_def)
next
  case False
  define rf1 where "rf1 = (if rv_Term args > currentTerm rf then becomeFollower (rv_Term args) rf else rf)"
  have k: "keeps rf rf1" by (simp add: rf1_def keeps_follower)
  from assms False consider "rf' = rf1" | "rf' = persist (resetElectionTimer clk (rf1\<lparr>votedFor := CandidateId args\<rparr>))"
    by (auto simp: RequestVote_def rf1_def [symmetric] bind_eq_Some_conv split: if_splits)
  then show ?thesis
  proof cases
    case 2
    have "keeps rf1 rf'" unfolding 2 by (rule keeps_persist) (simp_all add: resetElectionTimer_def tame_def)
    with k show ?thesis by (rule keeps_trans)
  qed (use k in simp)
qed

lemma appendLoop_keeps:
  "appendLoop rf idx es = Some rf' \<Longrightarrow> cmds es \<Longrightarrow> cmds (tl (log rf)) \<Longrightarrow>
   cmds (tl (log rf')) \<and> lastIncludedIndex rf' = lastIncludedIndex rf \<and> lastApplied rf' = lastApplied rf"
proof (induction rf idx es rule: appendLoop.induct)
  case (2 rf idx e es)
  from "2.prems"(2) have es: "cmds es" by (simp add: cmds_def)
  from 2 es show ?case
    by (auto simp: bind_eq_Some_conv slice_upto_def cmds_tl_append cmds_tl_take split: if_splits)
qed simp

lemma keeps_accept:
  assumes "AppendEntries_accept rf args reply = Some (rf', reply')" and "cmds (Entries args)"
  shows "keeps rf rf'"
proof -
  obtain rf1 where rf1: "appendLoop rf (PrevLogIndex args + 1) (Entries args) = Some rf1"
    and rf': "rf' = (if LeaderCommit args > commitIndex (persist rf1)
        then (persist rf1)\<lparr>commitIndex := min (LeaderCommit args) (lastLogIndex (persist rf1)), applyCond := True\<rparr> else persist rf1)"
    using assms(1) by (auto simp: AppendEntries_accept_def bind_eq_Some_conv Let_def)
  have "keeps rf (persist rf1)"
    unfolding keeps_def
  proof (intro impI)
    assume t: "tame rf"
    with appendLoop_keeps [OF rf1 assms(2)] have "cmds (tl (log rf1))" "lastIncludedIndex rf1 = 0" "lastApplied rf1 = lastApplied rf"
      by (auto simp: tame_def)
    then show "tame (persist rf1) \<and> lastApplied (persist rf1) = lastApplied rf"
      by (simp add: tame_def stored_def persist_def encodeState_def decodeState_def)
  qed
  moreover have "keeps (persist rf1) rf'" unfolding rf' by (auto intro: keeps_plain)
  ultimately show ?thesis by (rule keeps_trans)
qed

lemma check_keeps:
  "AppendEntries_check rf args reply = Some (rf', reply') \<Longrightarrow> cmds (Entries args) \<Longrightarrow> keeps rf rf'"
  by (auto simp: AppendEntries_check_def bind_eq_Some_conv keeps_accept split: if_splits)

lemma trim_cmds: "cmds (Entries args) \<Longrightarrow> cmds (Entries (trimArgs rf args))"
  by (simp add: trimArgs_def Let_def cmds_drop)

lemma keeps_append:
  assumes "AppendEntries clk rf args = Some (rf', reply)" and "cmds (Entries args)"
  shows "keeps rf rf'"
proof (cases "ae_Term args < currentTerm rf")
  case True
  with assms show ?thesis by (simp add: AppendEntries_def)
next
  case False
  define rf1 where "rf1 = (if ae_Term args > currentTerm rf then becomeFollower (ae_Term args) rf else rf)"
  define rf2 where "rf2 = resetElectionTimer clk (rf1\<lparr>role := Follower\<rparr>)"
  have "keeps rf rf1" by (simp add: rf1_def keeps_follower)
  moreover have "keeps rf1 rf2" unfolding rf2_def by (rule keeps_plain) (simp_all add: resetElectionTimer_def)
  moreover have "keeps rf2 rf'"
    using assms(1) False check_keeps [of rf2 _ _ rf'] trim_cmds [OF assms(2), of rf2] assms(2)
    by (auto simp: AppendEntries_def rf1_def [symmetric] rf2_def [symmetric] Let_def split: if_splits)
  ultimately show ?thesis by (blast intro: keeps_trans)
qed

lemma keeps_start: "Start rf cmd = (rf', res, ts) \<Longrightarrow> keeps rf rf'"
  by (auto simp: Start_def Let_def tame_def split: if_splits intro!: keeps_persist cmds_tl_append) (simp add: cmds_def)

lemma keeps_voteReply: "voteReply rf t votes reply = (rf', votes', ts) \<Longrightarrow> keeps rf rf'"
  by (auto simp: voteReply_def becomeLeader_def Let_def keeps_follower split: if_splits intro: keeps_plain)

lemma keeps_advance: "advanceLoop rf k = Some rf' \<Longrightarrow> keeps rf rf'"
proof (induction rf k rule: advanceLoop.induct)
  case (1 rf k)
  then show ?case
    by (subst (asm) advanceLoop.simps) (auto simp: bind_eq_Some_conv split: if_splits intro: keeps_plain)
qed

lemma keeps_backUp: "backUp rf server reply = Some rf' \<Longrightarrow> keeps rf rf'"
  unfolding backUp_def bind_eq_Some_conv by (elim exE conjE) (auto intro: keeps_plain)

lemma keeps_appendReply:
  assumes "appendReply rf server t args reply = Some rf'"
  shows "keeps rf rf'"
proof (cases "role rf = Leader \<and> currentTerm rf = t \<and> aer_Term reply \<le> currentTerm rf \<and> Success reply")
  case True
  then obtain mi ni where "advanceCommit (rf\<lparr>matchIndex := mi, nextIndex := ni\<rparr>) = Some rf' \<or> advanceCommit rf = Some rf'"
    using assms by (auto simp: appendReply_def bind_eq_Some_conv Let_def split: if_splits)
  moreover have "keeps rf (rf\<lparr>matchIndex := mi, nextIndex := ni\<rparr>)" by (rule keeps_plain) simp_all
  ultimately show ?thesis using keeps_advance keeps_trans unfolding advanceCommit_def by blast
next
  case False
  show ?thesis
  proof (cases "role rf \<noteq> Leader \<or> currentTerm rf \<noteq> t \<or> aer_Term reply > currentTerm rf")
    case True
    then show ?thesis using assms keeps_follower [of rf "aer_Term reply"] by (auto simp: appendReply_def split: if_splits)
  next
    case live: False
    with False have "backUp rf server reply = Some rf'" using assms by (simp add: appendReply_def)
    then show ?thesis by (rule keeps_backUp)
  qed
qed

lemma keeps_installReply: "installReply rf server t args reply = Some rf' \<Longrightarrow> keeps rf rf'"
  by (auto simp: installReply_def bind_eq_Some_conv keeps_follower Let_def split: if_splits intro: keeps_plain)

text \<open>A snapshot of nothing is not installed.\<close>

lemma install_none:
  assumes "InstallSnapshot clk rf args = Some (rf', reply, out)" and "is_LastIncludedIndex args = 0" and "tame rf"
  shows "out = None \<and> keeps rf rf'"
proof (cases "is_Term args < currentTerm rf")
  case True
  with assms show ?thesis by (simp add: InstallSnapshot_def)
next
  case False
  define rf1 where "rf1 = (if is_Term args > currentTerm rf then becomeFollower (is_Term args) rf else rf)"
  define rf2 where "rf2 = resetElectionTimer clk (rf1\<lparr>role := Follower\<rparr>)"
  have "keeps rf rf1" by (simp add: rf1_def keeps_follower)
  moreover have "keeps rf1 rf2" unfolding rf2_def by (rule keeps_plain) (simp_all add: resetElectionTimer_def)
  ultimately have k: "keeps rf rf2" by (rule keeps_trans)
  then have "lastIncludedIndex rf2 = 0" using assms(3) by (simp add: keeps_def tame_def)
  with assms False have "rf' = rf2" "out = None"
    by (auto simp: InstallSnapshot_def rf1_def [symmetric] rf2_def [symmetric] Let_def split: if_splits)
  with k show ?thesis by simp
qed

lemma tame_make: "stored ps \<Longrightarrow> tame (Make clk n i ps) \<and> lastApplied (Make clk n i ps) = 0"
  by (auto simp: Make_def readPersist_def tame_def stored_def resetElectionTimer_def dummyEntry_def cmds_def split: option.splits)

text \<open>What the applier hands over.\<close>

lemma applier_tame:
  assumes "applier rf = Some (rf', out)" and "tame rf" and "0 \<le> lastApplied rf"
  shows "tame rf' \<and>
    (case out of Deliver m \<Rightarrow> lastApplied rf' = lastApplied rf + 1 \<and> CommandValid m \<and> CommandIndex m = lastApplied rf' \<and> Command m \<noteq> None
     | _ \<Rightarrow> lastApplied rf' = lastApplied rf)"
proof (cases "lastApplied rf < commitIndex rf \<and> lastApplied rf \<ge> lastIncludedIndex rf")
  case True
  with assms obtain e where e: "entryAt (rf\<lparr>lastApplied := lastApplied rf + 1\<rparr>) (lastApplied rf + 1) = Some e"
      "rf' = rf\<lparr>lastApplied := lastApplied rf + 1\<rparr>" "out = Deliver (commandMsg (le_Command e) (lastApplied rf + 1))"
    by (auto simp: applier_def tame_def bind_eq_Some_conv Let_def)
  then have k: "nat (lastApplied rf + 1) < length (log rf)" "e = log rf ! nat (lastApplied rf + 1)"
    using assms(2,3) by (auto simp: entryAt_def slice_get_eq_Some tame_def)
  then have "e = tl (log rf) ! nat (lastApplied rf)" "nat (lastApplied rf) < length (tl (log rf))"
    using assms(3) by (simp_all add: nth_tl nat_add_distrib)
  then have "le_Command e \<noteq> None" using assms(2) by (auto simp: tame_def cmds_def)
  with e assms(2) show ?thesis by (simp add: commandMsg_def tame_def)
next
  case False
  with assms show ?thesis by (auto simp: applier_def tame_def)
qed

subsection \<open>Runs without snapshots\<close>

fun tameStage :: "('c, 'd) repl_stage \<Rightarrow> bool" where
  "tameStage (AppendSent args) \<longleftrightarrow> cmds (Entries args)"
| "tameStage (InstallSent args) \<longleftrightarrow> is_LastIncludedIndex args = 0"
| "tameStage (InstallHandled args reply m ep) \<longleftrightarrow> False"
| "tameStage _ \<longleftrightarrow> True"

text \<open>What the service of a peer has received, and what its applier is about to send.\<close>

definition queue :: "('c, 'd) cluster \<Rightarrow> nat \<Rightarrow> ('c, 'd) ApplyMsg list" where
  "queue s i = delivered s i @ (case sending s i of None \<Rightarrow> [] | Some m \<Rightarrow> [m])"

definition quiet :: "('c, 'd) cluster \<Rightarrow> bool" where
  "quiet s \<longleftrightarrow>
     (\<forall>i. tame (nodes s i) \<and> inOrder 0 (queue s i) \<and> lastApplied (nodes s i) = int (length (queue s i))) \<and>
     list_all (\<lambda>r. tameStage (rp_stage r)) (repls s)"

lemma quietD:
  "quiet s \<Longrightarrow> tame (nodes s i)" "quiet s \<Longrightarrow> inOrder 0 (queue s i)" "quiet s \<Longrightarrow> lastApplied (nodes s i) = int (length (queue s i))"
  "quiet s \<Longrightarrow> k < length (repls s) \<Longrightarrow> tameStage (rp_stage (repls s ! k))"
  by (auto simp: quiet_def list_all_length)

lemma quiet_setNode: "quiet s \<Longrightarrow> keeps (nodes s i) rf \<Longrightarrow> quiet (setNode s i rf)"
  by (auto simp: quiet_def setNode_def keeps_def queue_def)

lemma quiet_elections: "quiet s \<Longrightarrow> quiet (s\<lparr>elections := els\<rparr>)"
  by (simp add: quiet_def queue_def)

lemma quiet_setElection: "quiet s \<Longrightarrow> quiet (setElection s e el)"
  unfolding setElection_def by (rule quiet_elections)

lemma quiet_setRepl:
  assumes "quiet s" and "tameStage st"
  shows "quiet (setRepl s k st)"
proof -
  have "list_all (\<lambda>r. tameStage (rp_stage r)) ((repls s)[k := (repls s ! k)\<lparr>rp_stage := st\<rparr>])"
    unfolding list_all_length
  proof (intro allI impI)
    fix j assume "j < length ((repls s)[k := (repls s ! k)\<lparr>rp_stage := st\<rparr>])"
    then show "tameStage (rp_stage ((repls s)[k := (repls s ! k)\<lparr>rp_stage := st\<rparr>] ! j))"
      using assms quietD(4) [OF assms(1), of j] by (cases "j = k") simp_all
  qed
  with assms(1) show ?thesis by (simp add: quiet_def setRepl_def queue_def)
qed

lemma quiet_addRepls: "quiet s \<Longrightarrow> quiet (addRepls s i ts)"
  by (auto simp: quiet_def addRepls_def queue_def spawn_def list_all_iff)



lemma replicateTo_tame:
  assumes "replicateTo rf server t = Some out" and "tame rf"
  shows "tameStage (outStage out)"
proof -
  have "cmds (drop (nat k) (log rf))" if "0 < k" for k
    using assms(2) that by (cases "log rf"; cases "nat k") (auto simp: tame_def cmds_drop)
  then show ?thesis
    using assms by (auto simp: replicateTo_def outStage_def tame_def bind_eq_Some_conv slice_from_def Let_def split: if_splits)
qed

lemma vote_quiet:
  assumes "voteStep n ev s = Some s'" and "quiet s"
  shows "quiet s'"
proof (cases ev)
  case (Tick i clk)
  with assms show ?thesis
    by (auto split: if_splits option.splits intro!: quiet_elections quiet_setNode keeps_ticker)
next
  case (VoteHandle e p clk)
  with assms show ?thesis
    by (auto split: if_splits option.splits intro!: quiet_setElection quiet_setNode keeps_vote)
next
  case (VoteLost e p)
  with assms show ?thesis by (auto split: if_splits intro: quiet_setElection)
next
  case (VoteReply e p)
  with assms show ?thesis
    by (auto split: if_splits vote_stage.splits prod.splits simp: Let_def intro!: quiet_addRepls quiet_setElection quiet_setNode keeps_voteReply)
qed (use assms in simp_all)

lemma repl_quiet:
  assumes "replStep n ev s = Some s'" and "quiet s"
  shows "quiet s'"
proof (cases ev)
  case (Send k)
  with assms show ?thesis
    by (auto split: if_splits intro!: quiet_setRepl replicateTo_tame quietD(1))
next
  case (AppendHandle k clk)
  with assms quietD(4) [OF assms(2), of k] show ?thesis
    by (auto split: if_splits repl_stage.splits intro!: quiet_setRepl quiet_setNode keeps_append)
next
  case (AppendReply k)
  with assms show ?thesis
    by (auto split: if_splits repl_stage.splits intro!: quiet_setRepl quiet_setNode keeps_appendReply)
next
  case (InstallHandle k clk)
  then obtain args rf reply out where k: "k < length (repls s)" "rp_stage (repls s ! k) = InstallSent args"
      "InstallSnapshot clk (nodes s (rp_server (repls s ! k))) args = Some (rf, reply, out)"
    and s': "s' = setRepl (setNode s (rp_server (repls s ! k)) rf) k (case out of None \<Rightarrow> InstallAnswered args reply
                     | Some m \<Rightarrow> InstallHandled args reply m (epoch s (rp_server (repls s ! k))))"
    using assms(1) by (auto split: if_splits repl_stage.splits)
  have "is_LastIncludedIndex args = 0" using quietD(4) [OF assms(2) k(1)] k(2) by simp
  from install_none [OF k(3) this quietD(1) [OF assms(2)]] show ?thesis
    unfolding s' by (intro quiet_setRepl quiet_setNode assms(2)) auto
next
  case (InstallDeliver k)
  with assms quietD(4) [OF assms(2), of k] show ?thesis by (auto split: if_splits repl_stage.splits)
next
  case (InstallReply k)
  with assms show ?thesis
    by (auto split: if_splits repl_stage.splits intro!: quiet_setRepl quiet_setNode keeps_installReply)
next
  case (ReplLost k)
  with assms show ?thesis by (auto split: if_splits intro!: quiet_setRepl)
qed (use assms in simp_all)

fun plain :: "('c, 'd) event \<Rightarrow> bool" where
  "plain (TakeSnapshot i index snap) = False"
| "plain _ = True"

lemma peer_quiet:
  assumes "peerStep n ev s = Some s'" and "quiet s" and "plain ev"
  shows "quiet s'"
proof (cases ev)
  case (Beat i)
  with assms show ?thesis by (auto split: if_splits intro!: quiet_addRepls)
next
  case (StartCmd i cmd)
  with assms show ?thesis by (auto split: if_splits prod.splits intro!: quiet_addRepls quiet_setNode keeps_start)
next
  case (ApplyStep i)
  then obtain rf out where i: "sending s i = None" "applier (nodes s i) = Some (rf, out)"
    and s': "s' = (setNode s i rf)\<lparr>sending := (sending s)(i := (case out of Deliver m \<Rightarrow> Some m | _ \<Rightarrow> None))\<rparr>"
    using assms(1) by (auto simp: Option.is_none_def split: if_splits)
  have la: "lastApplied (nodes s i) = int (length (delivered s i))" "inOrder 0 (delivered s i)"
    using quietD(2,3) [OF assms(2), of i] i(1) by (simp_all add: queue_def)
  from applier_tame [OF i(2) quietD(1) [OF assms(2)]] la have "tame rf"
      "inOrder 0 (queue s' i) \<and> lastApplied rf = int (length (queue s' i))"
    by (auto simp: s' queue_def setNode_def inOrder_append split: apply_out.splits)
  moreover have "queue s' j = queue s j" if "j \<noteq> i" for j using that by (simp add: s' queue_def setNode_def)
  ultimately show ?thesis using assms(2) by (auto simp: s' quiet_def setNode_def)
next
  case (ApplySend i)
  then obtain m where m: "sending s i = Some m" and s': "s' = (deliver s i m)\<lparr>sending := (sending s)(i := None)\<rparr>"
    using assms(1) by (auto split: if_splits)
  have "queue s' j = queue s j" for j using m by (simp add: s' queue_def deliver_def)
  with assms(2) show ?thesis by (simp add: quiet_def s' deliver_def)
next
  case (Crash i clk)
  then have s': "s' = (setNode s i (Make clk n i (Copy (persister (nodes s i)))))
      \<lparr>epoch := (epoch s)(i := Suc (epoch s i)), sending := (sending s)(i := None), delivered := (delivered s)(i := [])\<rparr>"
    using assms(1) by (auto split: if_splits)
  have "stored (Copy (persister (nodes s i)))" using quietD(1) [OF assms(2), of i] by (simp add: tame_def stored_def)
  then have "tame (nodes s' i) \<and> lastApplied (nodes s' i) = 0" by (simp add: s' setNode_def tame_make)
  moreover have "queue s' i = []" by (simp add: s' queue_def)
  moreover have "queue s' j = queue s j" "nodes s' j = nodes s j" if "j \<noteq> i" for j
    using that by (simp_all add: s' queue_def setNode_def)
  moreover have "repls s' = repls s" by (simp add: s' setNode_def)
  ultimately show ?thesis using assms(2) unfolding quiet_def by (metis inOrder.simps(1) list.size(3) of_nat_0)
next
  case (KillPeer i)
  with assms show ?thesis by (auto split: if_splits simp: Kill_def intro!: quiet_setNode keeps_plain)
qed (use assms in simp_all)

lemma run_quiet: "run n evs s = Some s' \<Longrightarrow> quiet s \<Longrightarrow> list_all plain evs \<Longrightarrow> quiet s'"
proof (induction evs arbitrary: s)
  case (Cons ev evs)
  then obtain s1 where s1: "exec n ev s = Some s1" "run n evs s1 = Some s'" by (auto split: option.splits)
  have "quiet s1"
    using s1(1) Cons.prems(2,3) by (auto simp: exec_def split: option.splits dest: vote_quiet repl_quiet peer_quiet)
  with Cons.IH [OF s1(2)] Cons.prems(3) show ?case by simp
qed simp

lemma stored_new: "stored MakePersister"
  by (simp add: stored_def ReadRaftState_def MakePersister_def decodeState_def)

lemma start_quiet: "quiet (startCluster n)"
  using tame_make [OF stored_new] by (auto simp: quiet_def startCluster_def queue_def)

lemma delivered_inOrder:
  assumes "run n evs (startCluster n) = Some s" and "list_all plain evs"
  shows "inOrder 0 (delivered s i)"
  using quietD(2) [OF run_quiet [OF assms(1) start_quiet assms(2)], of i]
  by (auto simp: queue_def inOrder_append split: option.splits)

subsection \<open>One history\<close>

text \<open>The longest sequence of commands that a service has received is the history; the others are its prefixes.\<close>

lemma one_history:
  assumes "run n evs (startCluster n) = Some s" and "list_all plain evs"
  shows "\<exists>ops. \<forall>i < n. commands (delivered s i) = take (length (delivered s i)) ops \<and> length (delivered s i) \<le> length ops"
proof (cases "n = 0")
  case False
  let ?len = "\<lambda>i. length (delivered s i)"
  have "finite (?len ` {..<n})" "?len ` {..<n} \<noteq> {}" using False by auto
  then have "Max (?len ` {..<n}) \<in> ?len ` {..<n}" by (rule Max_in)
  then obtain j where j: "j < n" "?len j = Max (?len ` {..<n})" by auto
  then have max: "?len i \<le> ?len j" if "i < n" for i using that by simp
  have same: "commands (delivered s i) = take (?len i) (commands (delivered s j))" if i: "i < n" for i
  proof (rule nth_equalityI)
    show "length (commands (delivered s i)) = length (take (?len i) (commands (delivered s j)))"
      using max [OF i] by (simp add: commands_def)
    fix k assume "k < length (commands (delivered s i))"
    then have k: "k < ?len i" "k < ?len j" using max [OF i] by (simp_all add: commands_def)
    note oi = inOrder_nth [OF delivered_inOrder [OF assms] k(1)] and oj = inOrder_nth [OF delivered_inOrder [OF assms] k(2)]
    have "Command (delivered s i ! k) = Command (delivered s j ! k)"
      by (rule delivered_agree [OF run_reach [OF assms(1)] rtranclp.rtrancl_refl, of _ i _ j]) (use k oi oj in simp_all)
    with k show "commands (delivered s i) ! k = take (?len i) (commands (delivered s j)) ! k" by (simp add: commands_def)
  qed
  with max show ?thesis by (intro exI [of _ "commands (delivered s j)"]) (simp add: commands_def)
qed simp

end
