(* ===== verification/Waiters.thy ===== *)
theory Waiters
  imports Prelude
begin

section \<open>Waiting for a log index\<close>

text \<open>
  The three replicated services answer a client the same way (\<^verbatim>\<open>waitFor\<close> of \<^verbatim>\<open>kvraft\<close>,
  \<^verbatim>\<open>submit\<close> of \<^verbatim>\<open>shardctrler\<close> and \<^verbatim>\<open>shardkv\<close>): after \<^verbatim>\<open>Start\<close> has given the command
  an index, the handler makes a channel of capacity 1 and enters it in the map
  \<^verbatim>\<open>waiters\<close> under that index; the apply loop sends the result on the channel it finds
  there; the handler takes the result or gives up after a timeout, and deletes the entry
  either way.

  Channels are shared between goroutines, so they are addresses into a store: \<open>table\<close> is the
  Go map, \<open>bufs\<close> the content of the channels, \<open>fresh_ch\<close> the next address that \<^verbatim>\<open>make\<close> gives.
  A send on a full channel blocks; \<open>wake\<close> then has no result. \<open>waiters_ok\<close> is the invariant that
  rules this out: the channel of an index that has not been applied is empty.
\<close>

record 'r waiters =
  table :: "int \<rightharpoonup> nat"
  bufs :: "nat \<Rightarrow> 'r list"
  fresh_ch :: nat

definition noWaiters :: "'r waiters" where
  "noWaiters = \<lparr>table = Map.empty, bufs = (\<lambda>_. []), fresh_ch = 0\<rparr>"

text \<open>\<^verbatim>\<open>ch := make(chan result, 1); kv.waiters[index] = ch\<close>\<close>

definition register :: "int \<Rightarrow> 'r waiters \<Rightarrow> 'r waiters \<times> nat" where
  "register index w =
     (w\<lparr>table := (table w)(index \<mapsto> fresh_ch w), bufs := (bufs w)(fresh_ch w := []),
        fresh_ch := Suc (fresh_ch w)\<rparr>, fresh_ch w)"

text \<open>\<^verbatim>\<open>if ch, ok := kv.waiters[index]; ok { ch <- res }\<close>\<close>

definition wake :: "int \<Rightarrow> 'r \<Rightarrow> 'r waiters \<Rightarrow> 'r waiters option" where
  "wake index res w =
     (case table w index of
        None \<Rightarrow> Some w
      | Some ch \<Rightarrow> if bufs w ch = [] then Some (w\<lparr>bufs := (bufs w)(ch := [res])\<rparr>) else None)"

text \<open>\<^verbatim>\<open>delete(kv.waiters, index)\<close>\<close>

definition forget :: "int \<Rightarrow> 'r waiters \<Rightarrow> 'r waiters" where
  "forget index w = w\<lparr>table := (table w)(index := None)\<rparr>"

text \<open>\<^verbatim>\<open>res := <-ch\<close>, when the channel has a value.\<close>

definition receive :: "nat \<Rightarrow> 'r waiters \<Rightarrow> ('r \<times> 'r waiters) option" where
  "receive ch w =
     (case bufs w ch of [] \<Rightarrow> None | r # rs \<Rightarrow> Some (r, w\<lparr>bufs := (bufs w)(ch := rs)\<rparr>))"

definition waiters_ok :: "int \<Rightarrow> 'r waiters \<Rightarrow> bool" where
  "waiters_ok la w \<longleftrightarrow>
     (\<forall>i c. table w i = Some c \<longrightarrow> c < fresh_ch w) \<and>
     (\<forall>i j c. table w i = Some c \<and> table w j = Some c \<longrightarrow> i = j) \<and>
     (\<forall>i c. table w i = Some c \<and> la < i \<longrightarrow> bufs w c = [])"

lemma waiters_ok_init: "waiters_ok la noWaiters"
  by (simp add: waiters_ok_def noWaiters_def)

lemma waiters_ok_register: "waiters_ok la w \<Longrightarrow> waiters_ok la (fst (register index w))"
  unfolding waiters_ok_def register_def by (auto split: if_splits) (metis less_irrefl less_SucI)+

lemma waiters_ok_forget: "waiters_ok la w \<Longrightarrow> waiters_ok la (forget index w)"
  unfolding waiters_ok_def forget_def by (auto split: if_splits)

lemma waiters_ok_receive: "waiters_ok la w \<Longrightarrow> receive ch w = Some (r, w') \<Longrightarrow> waiters_ok la w'"
  unfolding waiters_ok_def receive_def by (auto split: list.splits if_splits)

lemma waiters_ok_later: "waiters_ok la w \<Longrightarrow> la \<le> la' \<Longrightarrow> waiters_ok la' w"
  unfolding waiters_ok_def by (meson order_le_less_trans)

text \<open>A send for an index that is applied now does not block.\<close>

lemma waiters_ok_wake:
  assumes "waiters_ok la w" and "la < index"
  obtains w' where "wake index res w = Some w'" and "waiters_ok index w'"
proof (cases "table w index")
  case None
  then have "wake index res w = Some w" by (simp add: wake_def)
  then show thesis by (rule that) (rule waiters_ok_later [OF assms(1)], use assms(2) in simp)
next
  case (Some ch)
  then have e: "bufs w ch = []" using assms by (auto simp: waiters_ok_def)
  then have "wake index res w = Some (w\<lparr>bufs := (bufs w)(ch := [res])\<rparr>)" using Some by (simp add: wake_def)
  moreover have "waiters_ok index (w\<lparr>bufs := (bufs w)(ch := [res])\<rparr>)"
    using assms Some unfolding waiters_ok_def by (auto dest: order.strict_trans) (metis less_irrefl)
  ultimately show thesis by (rule that)
qed

text \<open>What the channels hold comes from sends.\<close>

lemma wake_bufs:
  assumes "wake index res w = Some w'"
  shows "set (bufs w' c) \<subseteq> insert res (set (bufs w c))"
proof (cases "table w index")
  case None
  with assms show ?thesis by (auto simp: wake_def)
next
  case (Some ch)
  with assms have "w' = w\<lparr>bufs := (bufs w)(ch := [res])\<rparr>" by (simp add: wake_def split: if_splits)
  then show ?thesis by auto
qed

lemma receive_bufs:
  assumes "receive ch w = Some (r, w')"
  shows "r \<in> set (bufs w ch)" and "set (bufs w' c) \<subseteq> set (bufs w c)"
proof -
  obtain rs where rs: "bufs w ch = r # rs" "w' = w\<lparr>bufs := (bufs w)(ch := rs)\<rparr>"
    using assms by (auto simp: receive_def split: list.splits)
  then show "r \<in> set (bufs w ch)" "set (bufs w' c) \<subseteq> set (bufs w c)" by auto
qed

lemma register_bufs: "set (bufs (fst (register index w)) c) \<subseteq> set (bufs w c)"
  by (auto simp: register_def)

lemma forget_bufs [simp]: "bufs (forget index w) = bufs w"
  by (simp add: forget_def)

end
