(* ===== verification/Retry.thy ===== *)
theory Retry
  imports Prelude
begin

section \<open>A clerk that looks for the leader\<close>

text \<open>
  The loop of the clerks of \<^verbatim>\<open>kvraft\<close> and \<^verbatim>\<open>shardctrler\<close>: call the server of the hint; when
  the call fails or its reply is not accepted, go on to the next server, round robin. The
  network is a list of what the calls give (\<open>None\<close>: the call returned false), one element for
  each attempt; the loop has no result when the list ends before a reply is accepted, and
  when the index of a server is out of range. Its result is the server that answered, which
  becomes the hint, the reply, and the servers that were called, in order.
\<close>

fun retry :: "nat \<Rightarrow> ('r \<Rightarrow> bool) \<Rightarrow> nat \<Rightarrow> 'r option list \<Rightarrow> (nat \<times> 'r \<times> nat list) option" where
  "retry n accept leader [] = None"
| "retry n accept leader (c # cs) =
     (if leader < n
      then (case c of
              Some r \<Rightarrow> if accept r then Some (leader, r, [leader])
                        else map_option (\<lambda>(l, r, called). (l, r, leader # called))
                               (retry n accept ((leader + 1) mod n) cs)
            | None \<Rightarrow> map_option (\<lambda>(l, r, called). (l, r, leader # called))
                       (retry n accept ((leader + 1) mod n) cs))
      else None)"

definition accepted :: "('r \<Rightarrow> bool) \<Rightarrow> 'r option \<Rightarrow> bool" where
  "accepted accept c \<longleftrightarrow> (case c of Some r \<Rightarrow> accept r | None \<Rightarrow> False)"

lemma retry_Cons_next:
  assumes "\<not> accepted accept c" and "leader < n"
  shows "retry n accept leader (c # cs) =
    map_option (\<lambda>(l, r, called). (l, r, leader # called)) (retry n accept ((leader + 1) mod n) cs)"
  using assms by (auto simp: accepted_def split: option.splits)

text \<open>
  The loop returns the first accepted reply. The \<open>k\<close>-th call goes to the \<open>k\<close>-th server after
  the hint, so any \<open>n\<close> calls in a row reach every server.
\<close>

lemma retry_first:
  assumes "leader < n" and "k < length cs" and "accepted accept (cs ! k)"
    and "\<forall>i < k. \<not> accepted accept (cs ! i)"
  shows "retry n accept leader cs =
    Some ((leader + k) mod n, the (cs ! k), map (\<lambda>i. (leader + i) mod n) [0..<Suc k])"
  using assms
proof (induction cs arbitrary: leader k)
  case (Cons c cs)
  show ?case
  proof (cases k)
    case 0
    then obtain r where "c = Some r" "accept r"
      using Cons.prems(3) by (auto simp: accepted_def split: option.splits)
    with 0 Cons.prems(1) show ?thesis by simp
  next
    case (Suc j)
    have "\<not> accepted accept c" using Cons.prems(4) Suc by (metis nth_Cons_0 zero_less_Suc)
    note nxt = retry_Cons_next [OF this Cons.prems(1), of cs]
    have n0: "(leader + 1) mod n < n" using Cons.prems(1) by simp
    have later: "\<forall>i < j. \<not> accepted accept (cs ! i)" using Cons.prems(4) Suc by (metis Suc_less_eq nth_Cons_Suc)
    have "retry n accept ((leader + 1) mod n) cs =
        Some (((leader + 1) mod n + j) mod n, the (cs ! j), map (\<lambda>i. ((leader + 1) mod n + i) mod n) [0..<Suc j])"
      using Cons.IH [OF n0 _ _ later] Cons.prems(2,3) Suc by simp
    moreover have "((leader + 1) mod n + i) mod n = (leader + Suc i) mod n" for i
      by (simp add: mod_add_left_eq)
    moreover have "map (\<lambda>i. (leader + i) mod n) [0..<Suc (Suc j)] =
        leader # map (\<lambda>i. (leader + Suc i) mod n) [0..<Suc j]"
      using Cons.prems(1) by (simp add: map_upt_Suc del: upt_Suc)
    ultimately show ?thesis using nxt Suc by simp
  qed
qed simp

lemma retry_covers:
  assumes "leader < n"
  shows "set (map (\<lambda>i. (leader + i) mod n) [0..<n]) = {..<n}"
proof -
  have "\<exists>i < n. (leader + i) mod n = p" if "p < n" for p
  proof (cases "leader \<le> p")
    case True
    with that assms show ?thesis by (intro exI [of _ "p - leader"]) auto
  next
    case False
    with that assms show ?thesis by (intro exI [of _ "n + p - leader"]) auto
  qed
  with assms show ?thesis by (force simp: image_iff)
qed

end
