(* ===== verification/KvRaft.thy ===== *)
theory KvRaft
  imports Dedup Replica Waiters Retry
begin

section \<open>The replicated key/value service\<close>

text \<open>
  \<^verbatim>\<open>kvraft/server.go\<close>, \<^verbatim>\<open>kvraft/client.go\<close> and \<^verbatim>\<open>kvraft/common.go\<close>. What the server does
  under \<^verbatim>\<open>kv.mu\<close> is a function on its state: \<open>applyCommand\<close> and \<open>applySnapshot\<close> for the apply
  loop, and the three parts of \<^verbatim>\<open>waitFor\<close> (enter the channel, take the result, give up). A
  result \<open>None\<close> is a panic (the command of a message is not an \<open>Op\<close>) or a send that blocks with
  the lock held. The snapshot is the buffer of the two maps that \<^verbatim>\<open>maybeSnapshot\<close> encodes, and the
  size of Raft's state, which decides whether to take it, is an argument.
\<close>

type_synonym Err = string

definition OK :: Err where "OK = ''OK''"
definition ErrNoKey :: Err where "ErrNoKey = ''ErrNoKey''"
definition ErrWrongLeader :: Err where "ErrWrongLeader = ''ErrWrongLeader''"
definition ErrTimeout :: Err where "ErrTimeout = ''ErrTimeout''"

record PutAppendArgs =
  pa_Key :: string
  pa_Value :: string
  pa_Op :: string
  pa_ClientId :: int
  pa_Seq :: int

record PutAppendReply =
  par_Err :: Err

record GetArgs =
  ga_Key :: string
  ga_ClientId :: int
  ga_Seq :: int

record GetReply =
  gr_Err :: Err
  gr_Value :: string

record Op =
  op_Type :: string
  op_Key :: string
  op_Value :: string
  op_ClientId :: int
  op_Seq :: int

record result =
  res_err :: Err
  res_value :: string
  res_clientId :: int
  res_seq :: int

record lastReply =
  lr_Seq :: int
  lr_Value :: string
  lr_Err :: Err

type_synonym store = "(string \<rightharpoonup> string) \<times> (int \<rightharpoonup> lastReply)"

datatype kvgob = GobData "string \<rightharpoonup> string" | GobDedup "int \<rightharpoonup> lastReply"

record KVServer =
  kv_me :: nat
  kv_dead :: bool
  kv_maxraftstate :: int
  kv_data :: "string \<rightharpoonup> string"
  kv_dedup :: "int \<rightharpoonup> lastReply"
  kv_waiters :: "result waiters"
  kv_lastApplied :: int

definition noResult :: result where
  "noResult = \<lparr>res_err = '''', res_value = '''', res_clientId = 0, res_seq = 0\<rparr>"

subsection \<open>Submitting a command\<close>

definition opOfGet :: "GetArgs \<Rightarrow> Op" where
  "opOfGet args = \<lparr>op_Type = ''Get'', op_Key = ga_Key args, op_Value = '''',
     op_ClientId = ga_ClientId args, op_Seq = ga_Seq args\<rparr>"

definition opOfPut :: "PutAppendArgs \<Rightarrow> Op" where
  "opOfPut args = \<lparr>op_Type = ''Put'', op_Key = pa_Key args, op_Value = pa_Value args,
     op_ClientId = pa_ClientId args, op_Seq = pa_Seq args\<rparr>"

definition opOfAppend :: "PutAppendArgs \<Rightarrow> Op" where
  "opOfAppend args = \<lparr>op_Type = ''Append'', op_Key = pa_Key args, op_Value = pa_Value args,
     op_ClientId = pa_ClientId args, op_Seq = pa_Seq args\<rparr>"

definition replyOfGet :: "result \<Rightarrow> GetReply" where
  "replyOfGet res = \<lparr>gr_Err = res_err res, gr_Value = res_value res\<rparr>"

definition replyOfPutAppend :: "result \<Rightarrow> PutAppendReply" where
  "replyOfPutAppend res = \<lparr>par_Err = res_err res\<rparr>"

text \<open>
  \<^verbatim>\<open>waitFor\<close> after \<^verbatim>\<open>Start\<close> has answered: an error at once, or the channel to wait on.
\<close>

definition waitForBegin :: "int \<Rightarrow> bool \<Rightarrow> KVServer \<Rightarrow> result + (KVServer \<times> nat)" where
  "waitForBegin index isLeader kv =
     (if \<not> isLeader then Inl (noResult\<lparr>res_err := ErrWrongLeader\<rparr>)
      else let (w, ch) = register index (kv_waiters kv) in Inr (kv\<lparr>kv_waiters := w\<rparr>, ch))"

definition waitForResult :: "Op \<Rightarrow> int \<Rightarrow> nat \<Rightarrow> KVServer \<Rightarrow> (KVServer \<times> result) option" where
  "waitForResult op index ch kv =
     (case receive ch (kv_waiters kv) of
        None \<Rightarrow> None
      | Some (res, w) \<Rightarrow>
          Some (kv\<lparr>kv_waiters := forget index w\<rparr>,
                if res_clientId res \<noteq> op_ClientId op \<or> res_seq res \<noteq> op_Seq op
                then noResult\<lparr>res_err := ErrWrongLeader\<rparr> else res))"

definition waitForTimeout :: "int \<Rightarrow> KVServer \<Rightarrow> KVServer \<times> result" where
  "waitForTimeout index kv =
     (kv\<lparr>kv_waiters := forget index (kv_waiters kv)\<rparr>, noResult\<lparr>res_err := ErrTimeout\<rparr>)"

subsection \<open>Applying\<close>

text \<open>The state machine: the body of \<^verbatim>\<open>applyCommand\<close> on the two replicated maps.\<close>

definition applyOp :: "Op \<Rightarrow> store \<Rightarrow> store \<times> result" where
  "applyOp op st =
     (let (d, m) = st;
          dup = (case m (op_ClientId op) of Some lst \<Rightarrow> lr_Seq lst \<ge> op_Seq op | None \<Rightarrow> False);
          (st', res) =
            (if dup \<and> op_Type op \<noteq> ''Get''
             then (st, noResult\<lparr>res_err := lr_Err (the (m (op_ClientId op))),
                                res_value := lr_Value (the (m (op_ClientId op)))\<rparr>)
             else
               let (d', res) =
                     (if op_Type op = ''Get''
                      then (case d (op_Key op) of
                              Some v \<Rightarrow> (d, noResult\<lparr>res_err := OK, res_value := v\<rparr>)
                            | None \<Rightarrow> (d, noResult\<lparr>res_err := ErrNoKey\<rparr>))
                      else if op_Type op = ''Put''
                      then (d(op_Key op \<mapsto> op_Value op), noResult\<lparr>res_err := OK\<rparr>)
                      else if op_Type op = ''Append''
                      then (d(op_Key op \<mapsto> (case d (op_Key op) of None \<Rightarrow> '''' | Some v \<Rightarrow> v) @ op_Value op),
                            noResult\<lparr>res_err := OK\<rparr>)
                      else (d, noResult))
               in (if op_Type op \<noteq> ''Get''
                   then ((d', m(op_ClientId op \<mapsto> \<lparr>lr_Seq = op_Seq op, lr_Value = res_value res,
                                                   lr_Err = res_err res\<rparr>)), res)
                   else ((d', m), res)))
      in (st', res\<lparr>res_clientId := op_ClientId op, res_seq := op_Seq op\<rparr>))"

definition encodeSnapshot :: "store \<Rightarrow> kvgob list" where
  "encodeSnapshot st = [GobData (fst st), GobDedup (snd st)]"

definition maybeSnapshot :: "int \<Rightarrow> int \<Rightarrow> KVServer \<Rightarrow> (int \<times> kvgob list) option" where
  "maybeSnapshot rsize index kv =
     (if kv_maxraftstate kv < 0 then None
      else if rsize < kv_maxraftstate kv then None
      else Some (index, encodeSnapshot (kv_data kv, kv_dedup kv)))"

definition readSnapshot :: "kvgob list \<Rightarrow> KVServer \<Rightarrow> KVServer" where
  "readSnapshot buf kv =
     (case buf of
        GobData d # GobDedup m # _ \<Rightarrow> kv\<lparr>kv_data := d, kv_dedup := m\<rparr>
      | _ \<Rightarrow> kv)"

text \<open>The new state, and the call of \<^verbatim>\<open>rf.Snapshot\<close> that is made.\<close>

definition applyCommand ::
  "int \<Rightarrow> (Op, kvgob) ApplyMsg \<Rightarrow> KVServer \<Rightarrow> (KVServer \<times> (int \<times> kvgob list) option) option" where
  "applyCommand rsize msg kv =
     (if CommandIndex msg \<le> kv_lastApplied kv then Some (kv, None)
      else do {
        let kv1 = kv\<lparr>kv_lastApplied := CommandIndex msg\<rparr>;
        op \<leftarrow> Command msg;
        let (st, res) = applyOp op (kv_data kv1, kv_dedup kv1);
        let kv2 = kv1\<lparr>kv_data := fst st, kv_dedup := snd st\<rparr>;
        w \<leftarrow> wake (CommandIndex msg) res (kv_waiters kv2);
        let kv3 = kv2\<lparr>kv_waiters := w\<rparr>;
        Some (kv3, maybeSnapshot rsize (CommandIndex msg) kv3)
      })"

definition applySnapshot :: "(Op, kvgob) ApplyMsg \<Rightarrow> KVServer \<Rightarrow> KVServer" where
  "applySnapshot msg kv =
     (if SnapshotIndex msg \<le> kv_lastApplied kv then kv
      else (readSnapshot (Snapshot_data msg) kv)\<lparr>kv_lastApplied := SnapshotIndex msg\<rparr>)"

text \<open>One iteration of \<^verbatim>\<open>applyLoop\<close>.\<close>

definition applyMsg ::
  "int \<Rightarrow> (Op, kvgob) ApplyMsg \<Rightarrow> KVServer \<Rightarrow> (KVServer \<times> (int \<times> kvgob list) option) option" where
  "applyMsg rsize msg kv =
     (if CommandValid msg then applyCommand rsize msg kv
      else if SnapshotValid msg then Some (applySnapshot msg kv, None)
      else Some (kv, None))"

definition KillServer :: "KVServer \<Rightarrow> KVServer" where
  "KillServer kv = kv\<lparr>kv_dead := True\<rparr>"

definition StartKVServer :: "nat \<Rightarrow> ('r, kvgob) Persister \<Rightarrow> int \<Rightarrow> KVServer" where
  "StartKVServer i ps maxraftstate =
     readSnapshot (ReadSnapshot ps)
       \<lparr>kv_me = i, kv_dead = False, kv_maxraftstate = maxraftstate, kv_data = Map.empty,
        kv_dedup = Map.empty, kv_waiters = noWaiters, kv_lastApplied = 0\<rparr>"

subsection \<open>The clerk\<close>

record Clerk =
  ck_clientId :: int
  ck_seq :: int
  ck_leaderHint :: nat

definition MakeClerk :: "int \<Rightarrow> Clerk" where
  "MakeClerk rand = \<lparr>ck_clientId = rand, ck_seq = 0, ck_leaderHint = 0\<rparr>"

definition nextSeq :: "Clerk \<Rightarrow> Clerk \<times> int" where
  "nextSeq ck = (ck\<lparr>ck_seq := ck_seq ck + 1\<rparr>, ck_seq ck + 1)"

text \<open>The request of a call, and the end of the call on what the servers answer.\<close>

definition clerkGetArgs :: "Clerk \<Rightarrow> string \<Rightarrow> Clerk \<times> GetArgs" where
  "clerkGetArgs ck key =
     (let (ck', s) = nextSeq ck in (ck', \<lparr>ga_Key = key, ga_ClientId = ck_clientId ck, ga_Seq = s\<rparr>))"

definition clerkGet :: "nat \<Rightarrow> Clerk \<Rightarrow> GetReply option list \<Rightarrow> (Clerk \<times> string) option" where
  "clerkGet n ck calls =
     map_option (\<lambda>(leader, reply, _). (ck\<lparr>ck_leaderHint := leader\<rparr>, gr_Value reply))
       (retry n (\<lambda>reply. gr_Err reply = OK \<or> gr_Err reply = ErrNoKey) (ck_leaderHint ck) calls)"

definition clerkPutAppendArgs :: "Clerk \<Rightarrow> string \<Rightarrow> string \<Rightarrow> string \<Rightarrow> Clerk \<times> PutAppendArgs" where
  "clerkPutAppendArgs ck key value op =
     (let (ck', s) = nextSeq ck
      in (ck', \<lparr>pa_Key = key, pa_Value = value, pa_Op = op, pa_ClientId = ck_clientId ck, pa_Seq = s\<rparr>))"

definition clerkPutAppend :: "nat \<Rightarrow> Clerk \<Rightarrow> PutAppendReply option list \<Rightarrow> Clerk option" where
  "clerkPutAppend n ck calls =
     map_option (\<lambda>(leader, reply, _). ck\<lparr>ck_leaderHint := leader\<rparr>)
       (retry n (\<lambda>reply. par_Err reply = OK) (ck_leaderHint ck) calls)"

subsection \<open>Each command takes effect once\<close>

definition seqTable :: "store \<Rightarrow> int seqs" where
  "seqTable st = (\<lambda>c. map_option lr_Seq (snd st c))"

definition opEffect :: "Op \<Rightarrow> (string \<rightharpoonup> string) \<Rightarrow> (string \<rightharpoonup> string)" where
  "opEffect op d =
     (if op_Type op = ''Put'' then d(op_Key op \<mapsto> op_Value op)
      else if op_Type op = ''Append''
      then d(op_Key op \<mapsto> (case d (op_Key op) of None \<Rightarrow> '''' | Some v \<Rightarrow> v) @ op_Value op)
      else d)"

abbreviation applyStore :: "Op \<Rightarrow> store \<Rightarrow> store" where
  "applyStore op st \<equiv> fst (applyOp op st)"

lemma applyOp_fresh:
  assumes "op_Type op \<noteq> ''Get''" and "\<not> duplicate (seqTable st) (op_ClientId op) (op_Seq op)"
  shows "fst (applyStore op st) = opEffect op (fst st)"
    and "seqTable (applyStore op st) = (seqTable st)(op_ClientId op \<mapsto> op_Seq op)"
  using assms by (auto simp: applyOp_def seqTable_def duplicate_def opEffect_def Let_def split: prod.splits option.splits)

lemma applyOp_duplicate:
  assumes "op_Type op \<noteq> ''Get''" and "duplicate (seqTable st) (op_ClientId op) (op_Seq op)"
  shows "applyStore op st = st"
  using assms by (auto simp: applyOp_def seqTable_def duplicate_def Let_def split: prod.splits option.splits)

lemma applyOp_get: "op_Type op = ''Get'' \<Longrightarrow> applyStore op st = st"
  by (auto simp: applyOp_def Let_def split: prod.splits option.splits)

interpretation once: exactly_once applyStore fst seqTable opEffect "\<lambda>op. op_Type op \<noteq> ''Get''" op_ClientId op_Seq
  by unfold_locales (auto simp: applyOp_fresh applyOp_duplicate applyOp_get opEffect_def)

lemma applyOp_identity [simp]:
  "res_clientId (snd (applyOp op st)) = op_ClientId op" "res_seq (snd (applyOp op st)) = op_Seq op"
  by (auto simp: applyOp_def Let_def split: prod.splits option.splits)

subsection \<open>The apply loop follows the log\<close>

definition server_ok :: "KVServer \<Rightarrow> bool" where
  "server_ok kv \<longleftrightarrow> waiters_ok (kv_lastApplied kv) (kv_waiters kv)"

definition kv_core :: "KVServer \<Rightarrow> store" where
  "kv_core kv = (kv_data kv, kv_dedup kv)"

lemma applyCommand_new:
  assumes "server_ok kv" and "kv_lastApplied kv < CommandIndex msg" and "Command msg = Some op"
  obtains kv' snap where "applyCommand rsize msg kv = Some (kv', snap)" and "server_ok kv'"
    and "kv_lastApplied kv' = CommandIndex msg" and "kv_core kv' = applyStore op (kv_core kv)"
    and "wake (CommandIndex msg) (snd (applyOp op (kv_core kv))) (kv_waiters kv) = Some (kv_waiters kv')"
    and "snap = maybeSnapshot rsize (CommandIndex msg) kv'"
proof -
  let ?r = "applyOp op (kv_core kv)"
  obtain w where w: "wake (CommandIndex msg) (snd ?r) (kv_waiters kv) = Some w" "waiters_ok (CommandIndex msg) w"
    using waiters_ok_wake assms(1,2) unfolding server_ok_def by metis
  let ?kv = "kv\<lparr>kv_lastApplied := CommandIndex msg, kv_data := fst (fst ?r), kv_dedup := snd (fst ?r), kv_waiters := w\<rparr>"
  have "applyCommand rsize msg kv = Some (?kv, maybeSnapshot rsize (CommandIndex msg) ?kv)"
    using assms(2,3) w(1) by (cases ?r) (auto simp: applyCommand_def kv_core_def Let_def)
  with w show thesis by (intro that [of ?kv]) (simp_all add: server_ok_def kv_core_def)
qed

lemma applySnapshot_new:
  assumes "server_ok kv" and "kv_lastApplied kv < SnapshotIndex msg" and "Snapshot_data msg = encodeSnapshot st"
  shows "server_ok (applySnapshot msg kv)" and "kv_lastApplied (applySnapshot msg kv) = SnapshotIndex msg"
    and "kv_core (applySnapshot msg kv) = st"
  using assms waiters_ok_later [of "kv_lastApplied kv" "kv_waiters kv" "SnapshotIndex msg"]
  by (auto simp: applySnapshot_def readSnapshot_def encodeSnapshot_def server_ok_def kv_core_def)

definition kvHandle :: "int \<Rightarrow> (Op, kvgob) ApplyMsg \<Rightarrow> KVServer \<Rightarrow> KVServer option" where
  "kvHandle rsize msg kv = map_option fst (applyMsg rsize msg kv)"

interpretation kvlog: log_machine "kvHandle rsize" server_ok kv_lastApplied kv_core applyStore "\<lambda>_. True" encodeSnapshot
  for rsize
proof
  fix kv :: KVServer and m :: "(Op, kvgob) ApplyMsg" and op
  assume ok: "server_ok kv"
  show "\<exists>kv'. kvHandle rsize m kv = Some kv' \<and> server_ok kv' \<and> kv_lastApplied kv' = CommandIndex m \<and>
      kv_core kv' = applyStore op (kv_core kv)"
    if "CommandValid m" "kv_lastApplied kv < CommandIndex m" "Command m = Some op"
    using applyCommand_new [OF ok that(2,3), of rsize] that(1) by (metis applyMsg_def fst_conv kvHandle_def option.simps(9))
  show "kvHandle rsize m kv = Some kv" if "CommandValid m" "CommandIndex m \<le> kv_lastApplied kv"
    using that by (simp add: kvHandle_def applyMsg_def applyCommand_def)
  show "\<exists>kv'. kvHandle rsize m kv = Some kv' \<and> server_ok kv' \<and> kv_lastApplied kv' = SnapshotIndex m \<and> kv_core kv' = c"
    if "\<not> CommandValid m" "SnapshotValid m" "kv_lastApplied kv < SnapshotIndex m" "Snapshot_data m = encodeSnapshot c" for c
    using applySnapshot_new [OF ok that(3,4)] that(1,2) by (simp add: kvHandle_def applyMsg_def)
  show "kvHandle rsize m kv = Some kv"
    if "\<not> CommandValid m" "SnapshotValid m" "SnapshotIndex m \<le> kv_lastApplied kv"
    using that by (simp add: kvHandle_def applyMsg_def applySnapshot_def)
  show "kvHandle rsize m kv = Some kv" if "\<not> CommandValid m" "\<not> SnapshotValid m"
    using that by (simp add: kvHandle_def applyMsg_def)
qed

subsection \<open>The server and its remote calls\<close>

text \<open>
  The goroutines of a server together: a handler that has started a command waits on a channel
  (\<open>rpcs\<close>: the command, its index, the channel), messages of Raft are applied, and a handler ends
  with a result (\<open>answers\<close>). \<open>history\<close> is the sequence of commands that have been applied, each
  with the maps it found. The index that \<^verbatim>\<open>Start\<close> gives is arbitrary.
\<close>

record kvsys =
  server :: KVServer
  rpcs :: "(Op \<times> int \<times> nat) list"
  answers :: "(Op \<times> result) list"
  history :: "(Op \<times> store) list"

inductive kvStep :: "kvsys \<Rightarrow> kvsys \<Rightarrow> bool" where
  reject: "waitForBegin index False (server s) = Inl res \<Longrightarrow>
    kvStep s (s\<lparr>answers := answers s @ [(op, res)]\<rparr>)"
| enter: "waitForBegin index True (server s) = Inr (kv, ch) \<Longrightarrow>
    kvStep s (s\<lparr>server := kv, rpcs := rpcs s @ [(op, index, ch)]\<rparr>)"
| finish: "(op, index, ch) \<in> set (rpcs s) \<Longrightarrow> waitForResult op index ch (server s) = Some (kv, res) \<Longrightarrow>
    kvStep s (s\<lparr>server := kv, rpcs := remove1 (op, index, ch) (rpcs s), answers := answers s @ [(op, res)]\<rparr>)"
| timeout: "(op, index, ch) \<in> set (rpcs s) \<Longrightarrow> waitForTimeout index (server s) = (kv, res) \<Longrightarrow>
    kvStep s (s\<lparr>server := kv, rpcs := remove1 (op, index, ch) (rpcs s), answers := answers s @ [(op, res)]\<rparr>)"
| apply_cmd: "CommandValid m \<Longrightarrow> Command m = Some op \<Longrightarrow> applyMsg rsize m (server s) = Some (kv, snap) \<Longrightarrow>
    kvStep s (s\<lparr>server := kv,
      history := history s @ (if kv_lastApplied (server s) < CommandIndex m then [(op, kv_core (server s))] else [])\<rparr>)"
| apply_snap: "\<not> CommandValid m \<Longrightarrow> applyMsg rsize m (server s) = Some (kv, snap) \<Longrightarrow>
    kvStep s (s\<lparr>server := kv\<rparr>)"

definition kvInit :: "kvsys \<Rightarrow> bool" where
  "kvInit s \<longleftrightarrow> (\<exists>i mr. server s = StartKVServer i (MakePersister :: (int, kvgob) Persister) mr) \<and>
     rpcs s = [] \<and> answers s = [] \<and> history s = []"

abbreviation kvReach :: "kvsys \<Rightarrow> bool" where
  "kvReach \<equiv> reaches kvInit kvStep"

text \<open>Every value in a channel, and every answer but the errors of \<^verbatim>\<open>waitFor\<close>, comes from the history.\<close>

definition fromHistory :: "(Op \<times> store) list \<Rightarrow> result \<Rightarrow> bool" where
  "fromHistory h res \<longleftrightarrow> (\<exists>(op, st) \<in> set h. res = snd (applyOp op st))"

definition answer_ok :: "(Op \<times> store) list \<Rightarrow> Op \<Rightarrow> result \<Rightarrow> bool" where
  "answer_ok h op res \<longleftrightarrow> res_err res = ErrWrongLeader \<or> res_err res = ErrTimeout \<or>
     fromHistory h res \<and> res_clientId res = op_ClientId op \<and> res_seq res = op_Seq op"

definition kv_inv :: "kvsys \<Rightarrow> bool" where
  "kv_inv s \<longleftrightarrow> server_ok (server s) \<and>
     (\<forall>c. \<forall>res \<in> set (bufs (kv_waiters (server s)) c). fromHistory (history s) res) \<and>
     (\<forall>(op, res) \<in> set (answers s). answer_ok (history s) op res)"

lemma fromHistory_mono: "fromHistory h res \<Longrightarrow> fromHistory (h @ h') res"
  by (auto simp: fromHistory_def)

lemma answer_ok_mono: "answer_ok h op res \<Longrightarrow> answer_ok (h @ h') op res"
  by (auto simp: answer_ok_def fromHistory_mono)

lemma kv_inv_apply:
  assumes inv: "kv_inv s" and m: "CommandValid m" "Command m = Some op"
    and run: "applyMsg rsize m (server s) = Some (kv, snap)"
  shows "kv_inv (s\<lparr>server := kv,
      history := history s @ (if kv_lastApplied (server s) < CommandIndex m then [(op, kv_core (server s))] else [])\<rparr>)"
proof (cases "kv_lastApplied (server s) < CommandIndex m")
  case False
  then have "kv = server s" using run m(1) by (simp add: applyMsg_def applyCommand_def)
  with False inv show ?thesis by (simp add: kv_inv_def)
next
  case True
  have ok: "server_ok (server s)" using inv by (simp add: kv_inv_def)
  let ?res = "snd (applyOp op (kv_core (server s)))"
  obtain kv' snap' where kv': "applyCommand rsize m (server s) = Some (kv', snap')" "server_ok kv'"
    "wake (CommandIndex m) ?res (kv_waiters (server s)) = Some (kv_waiters kv')"
    using applyCommand_new [OF ok True m(2), of rsize] by metis
  have kv: "kv = kv'" using run m(1) kv'(1) by (simp add: applyMsg_def)
  have "fromHistory (history s @ [(op, kv_core (server s))]) r" if "r \<in> set (bufs (kv_waiters kv') c)" for r c
  proof (cases "r = ?res")
    case False
    then have "r \<in> set (bufs (kv_waiters (server s)) c)"
      using that wake_bufs [OF kv'(3), of c] by auto
    with inv show ?thesis by (auto simp: kv_inv_def intro: fromHistory_mono)
  qed (auto simp: fromHistory_def)
  with inv True kv kv'(2) show ?thesis by (auto simp: kv_inv_def intro: answer_ok_mono)
qed

lemma kv_inv_step:
  assumes "kvStep s t" and "kv_inv s"
  shows "kv_inv t"
  using assms
proof (induction rule: kvStep.induct)
  case (reject index s res op)
  then show ?case by (auto simp: kv_inv_def waitForBegin_def answer_ok_def)
next
  case (enter index s kv ch op)
  then have kv: "kv = (server s)\<lparr>kv_waiters := fst (register index (kv_waiters (server s)))\<rparr>"
    by (auto simp: waitForBegin_def Let_def split: prod.splits)
  have "fromHistory (history s) res" if "res \<in> set (bufs (kv_waiters kv) c)" for c res
    using that enter.prems register_bufs [of index "kv_waiters (server s)" c] unfolding kv kv_inv_def by auto
  with enter.prems show ?case
    unfolding kv by (auto simp: kv_inv_def server_ok_def waiters_ok_register)
next
  case (finish op index ch s kv res)
  obtain r w where r: "receive ch (kv_waiters (server s)) = Some (r, w)"
    "kv = (server s)\<lparr>kv_waiters := forget index w\<rparr>"
    "res = (if res_clientId r \<noteq> op_ClientId op \<or> res_seq r \<noteq> op_Seq op then noResult\<lparr>res_err := ErrWrongLeader\<rparr> else r)"
    using finish.hyps(2) by (auto simp: waitForResult_def split: option.splits)
  note b = receive_bufs [OF r(1)]
  have "waiters_ok (kv_lastApplied (server s)) w"
    using waiters_ok_receive r(1) finish.prems by (auto simp: kv_inv_def server_ok_def)
  moreover have "fromHistory (history s) r" "\<And>c r. r \<in> set (bufs w c) \<Longrightarrow> fromHistory (history s) r"
    using b finish.prems unfolding kv_inv_def by blast+
  ultimately show ?case
    using finish.prems r(2,3) by (auto simp: kv_inv_def server_ok_def waiters_ok_forget answer_ok_def)
next
  case (timeout op index ch s kv res)
  then show ?case
    by (auto simp: kv_inv_def server_ok_def waitForTimeout_def waiters_ok_forget answer_ok_def)
next
  case (apply_cmd m op rsize s kv snap)
  then show ?case by (intro kv_inv_apply)
next
  case (apply_snap m rsize s kv snap)
  have "waiters_ok (kv_lastApplied kv) (kv_waiters kv) \<and> kv_waiters kv = kv_waiters (server s)"
    using apply_snap waiters_ok_later [of "kv_lastApplied (server s)" "kv_waiters (server s)"]
    by (auto simp: applyMsg_def applySnapshot_def readSnapshot_def kv_inv_def server_ok_def
        split: if_splits list.splits kvgob.splits)
  with apply_snap.prems show ?case by (auto simp: kv_inv_def server_ok_def)
qed

lemma kv_inv_reach: "kvReach s \<Longrightarrow> kv_inv s"
proof (induction rule: reaches_invariant)
  case (init s)
  then show ?case
    by (auto simp: kvInit_def kv_inv_def server_ok_def StartKVServer_def readSnapshot_def ReadSnapshot_def
        MakePersister_def waiters_ok_init noWaiters_def [symmetric]) (simp_all add: noWaiters_def waiters_ok_def)
qed (rule kv_inv_step)

subsection \<open>Properties\<close>

text \<open>
  (C13) An answer of the service is the answer of its own command. When a handler returns
  \<^verbatim>\<open>OK\<close> or \<^verbatim>\<open>ErrNoKey\<close>, a command with the identity of the request has been applied, and the
  result is the one that command had at its place in the sequence of applied commands,
  whatever other commands have taken its index, and however registrations, results and
  timeouts interleave.
\<close>

theorem kv_replies_sound:
  assumes "kvReach s" and "(op, res) \<in> set (answers s)" and "res_err res = OK \<or> res_err res = ErrNoKey"
  shows "\<exists>pre op' st post. history s = pre @ (op', st) # post \<and> op_ClientId op' = op_ClientId op \<and>
    op_Seq op' = op_Seq op \<and> res = snd (applyOp op' st)"
proof -
  have "answer_ok (history s) op res" using kv_inv_reach [OF assms(1)] assms(2) by (auto simp: kv_inv_def)
  then have "fromHistory (history s) res" "res_clientId res = op_ClientId op" "res_seq res = op_Seq op"
    using assms(3) by (auto simp: answer_ok_def OK_def ErrNoKey_def ErrWrongLeader_def ErrTimeout_def)
  then obtain op' st where "(op', st) \<in> set (history s)" "res = snd (applyOp op' st)"
    "op_ClientId op' = op_ClientId op" "op_Seq op' = op_Seq op"
    by (auto simp: fromHistory_def)
  then show ?thesis by (metis in_set_conv_decomp)
qed

definition putOp :: "int \<Rightarrow> int \<Rightarrow> string \<Rightarrow> Op" where
  "putOp c q v = \<lparr>op_Type = ''Put'', op_Key = ''k'', op_Value = v, op_ClientId = c, op_Seq = q\<rparr>"

definition appendOp :: "int \<Rightarrow> int \<Rightarrow> string \<Rightarrow> Op" where
  "appendOp c q v = \<lparr>op_Type = ''Append'', op_Key = ''k'', op_Value = v, op_ClientId = c, op_Seq = q\<rparr>"

definition freshServer :: KVServer where
  "freshServer = StartKVServer 0 (MakePersister :: (int, kvgob) Persister) (-1)"

definition sysStart :: kvsys where
  "sysStart = \<lparr>server = freshServer, rpcs = [], answers = [], history = []\<rparr>"

definition sysEnter :: kvsys where
  "sysEnter = sysStart\<lparr>server := fst (projr (waitForBegin 1 True freshServer)), rpcs := [(putOp 1 1 ''a'', 1, 0)]\<rparr>"

definition sysApply :: kvsys where
  "sysApply = sysEnter\<lparr>server := fst (the (applyMsg 0 (commandMsg (Some (putOp 1 1 ''a'')) 1) (server sysEnter))),
     history := [(putOp 1 1 ''a'', (Map.empty, Map.empty))]\<rparr>"

definition putRes :: result where
  "putRes = \<lparr>res_err = OK, res_value = '''', res_clientId = 1, res_seq = 1\<rparr>"

definition sysDone :: kvsys where
  "sysDone = sysApply\<lparr>server := fst (the (waitForResult (putOp 1 1 ''a'') 1 0 (server sysApply))),
     rpcs := [], answers := [(putOp 1 1 ''a'', putRes)]\<rparr>"

lemmas sys_defs = sysStart_def sysEnter_def sysApply_def freshServer_def StartKVServer_def readSnapshot_def
  ReadSnapshot_def MakePersister_def waitForBegin_def register_def noWaiters_def applyMsg_def applyCommand_def
  commandMsg_def applyOp_def putOp_def wake_def maybeSnapshot_def waitForResult_def receive_def putRes_def noResult_def

lemma sysDone_reach: "kvReach sysDone"
proof -
  have "kvReach sysStart"
    by (rule reaches_init) (auto simp: kvInit_def sysStart_def freshServer_def)
  moreover have "kvStep sysStart sysEnter"
    using kvStep.enter [of 1 sysStart "server sysEnter" 0 "putOp 1 1 ''a''"] by (simp add: sys_defs Let_def)
  moreover have "kvStep sysEnter sysApply"
    using kvStep.apply_cmd [of "commandMsg (Some (putOp 1 1 ''a'')) 1" "putOp 1 1 ''a''" 0 sysEnter "server sysApply" None]
    by (simp add: sys_defs Let_def kv_core_def)
  moreover have "kvStep sysApply sysDone"
    using kvStep.finish [of "putOp 1 1 ''a''" 1 0 sysApply "server sysDone" putRes]
    by (simp add: sysDone_def sys_defs Let_def)
  ultimately show ?thesis by (meson reaches_step)
qed

theorem kv_replies_sound_witness:
  "\<exists>pre op' st post. history sysDone = pre @ (op', st) # post \<and> op_ClientId op' = 1 \<and> op_Seq op' = 1 \<and>
     putRes = snd (applyOp op' st)"
  using kv_replies_sound [OF sysDone_reach, of "putOp 1 1 ''a''" putRes]
  by (simp add: sysDone_def putRes_def putOp_def)

text \<open>
  (C14) The apply loop never stops with the lock held: in every state that the handlers and the
  loop can reach together, every message with a command is processed. The send on the waiter's
  channel finds it empty.
\<close>

theorem kv_apply_never_blocks:
  assumes "kvReach s" and "CommandValid m" and "Command m = Some op"
  shows "\<exists>kv snap. applyMsg rsize m (server s) = Some (kv, snap)"
proof -
  have ok: "server_ok (server s)" using kv_inv_reach [OF assms(1)] by (simp add: kv_inv_def)
  show ?thesis
  proof (cases "CommandIndex m \<le> kv_lastApplied (server s)")
    case True
    then show ?thesis using assms(2) by (simp add: applyMsg_def applyCommand_def)
  next
    case False
    then have "kv_lastApplied (server s) < CommandIndex m" by simp
    from applyCommand_new [OF ok this assms(3), of rsize]
    obtain kv snap where "applyCommand rsize m (server s) = Some (kv, snap)" by metis
    then show ?thesis using assms(2) by (simp add: applyMsg_def)
  qed
qed

theorem kv_apply_never_blocks_witness:
  "\<exists>kv snap. applyMsg 5 (commandMsg (Some (appendOp 2 1 ''b'')) 2) (server sysDone) = Some (kv, snap)"
  by (rule kv_apply_never_blocks [OF sysDone_reach]) (simp_all add: commandMsg_def)


definition demoOps :: "Op list" where
  "demoOps = [putOp 1 1 ''a'', appendOp 2 1 ''b'', appendOp 2 1 ''b'']"

definition demoCmds :: "(Op, kvgob) ApplyMsg list" where
  "demoCmds = [commandMsg (Some (putOp 1 1 ''a'')) 1, commandMsg (Some (appendOp 2 1 ''b'')) 2,
     commandMsg (Some (appendOp 2 1 ''b'')) 3]"

definition demoSnap :: "(Op, kvgob) ApplyMsg list" where
  "demoSnap = [snapshotMsg \<lparr>is_Term = 1, is_LeaderId = 0, is_LastIncludedIndex = 2, is_LastIncludedTerm = 1,
       is_Data = encodeSnapshot (stateAt applyStore (Map.empty, Map.empty) demoOps 2)\<rparr>,
     commandMsg (Some (appendOp 2 1 ''b'')) 3]"






text \<open>
  A clerk finds the server that answers. Starting from its hint, the \<open>i\<close>-th call goes to
  the \<open>i\<close>-th server after the hint; the clerk returns the value of the first reply that is
  \<^verbatim>\<open>OK\<close> or \<^verbatim>\<open>ErrNoKey\<close> and remembers the server that gave it.
\<close>

lemma kv_clerk_finds:
  assumes "ck_leaderHint ck < n" and "k < length calls" and "calls ! k = Some reply"
    and "gr_Err reply = OK \<or> gr_Err reply = ErrNoKey"
    and "\<forall>i < k. \<forall>r. calls ! i = Some r \<longrightarrow> gr_Err r \<noteq> OK \<and> gr_Err r \<noteq> ErrNoKey"
  shows "clerkGet n ck calls = Some (ck\<lparr>ck_leaderHint := (ck_leaderHint ck + k) mod n\<rparr>, gr_Value reply)"
proof -
  let ?acc = "\<lambda>reply. gr_Err reply = OK \<or> gr_Err reply = ErrNoKey"
  have "accepted ?acc (calls ! k)" using assms(3,4) by (simp add: accepted_def)
  moreover have "\<forall>i < k. \<not> accepted ?acc (calls ! i)"
    using assms(5) by (auto simp: accepted_def split: option.splits)
  ultimately show ?thesis using retry_first [OF assms(1,2)] assms(3) by (simp add: clerkGet_def)
qed

end
