(* ===== verification/ShardCtrler.thy ===== *)
theory ShardCtrler
  imports Dedup Replica Waiters Retry "HOL-Library.AList"
begin

section \<open>The shard controller\<close>

text \<open>
  \<^verbatim>\<open>shardctrler/server.go\<close>, \<^verbatim>\<open>shardctrler/client.go\<close> and \<^verbatim>\<open>shardctrler/common.go\<close>. A map that
  the code iterates over (the groups of a configuration, the servers of a Join) is an
  association list: its order stands for the order, which Go leaves open, in which \<^verbatim>\<open>range\<close>
  visits the keys. The array of the shards is a list of length \<open>NShards\<close>. A result \<open>None\<close> is a
  panic, a send that blocks, or, in \<open>releaseLoop\<close>, a loop that never ends.
\<close>

definition NShards :: nat where
  "NShards = 10"

type_synonym groups = "(int \<times> string list) list"

record Config =
  cfg_Num :: int
  cfg_Shards :: "int list"
  cfg_Groups :: groups

definition OK :: string where
  "OK = ''OK''"

record JoinArgs =
  ja_Servers :: groups
  ja_ClientId :: int
  ja_Seq :: int

record LeaveArgs =
  la_GIDs :: "int list"
  la_ClientId :: int
  la_Seq :: int

record MoveArgs =
  ma_Shard :: int
  ma_GID :: int
  ma_ClientId :: int
  ma_Seq :: int

record QueryArgs =
  qa_Num :: int
  qa_ClientId :: int
  qa_Seq :: int

text \<open>The replies of Join, Leave and Move have the same two fields.\<close>

record MutateReply =
  mr_WrongLeader :: bool
  mr_Err :: string

record QueryReply =
  qr_WrongLeader :: bool
  qr_Err :: string
  qr_Config :: Config

record Op =
  op_Type :: string
  op_Servers :: groups
  op_GIDs :: "int list"
  op_Shard :: int
  op_GID :: int
  op_Num :: int
  op_ClientId :: int
  op_Seq :: int

definition noOp :: Op where
  "noOp = \<lparr>op_Type = '''', op_Servers = [], op_GIDs = [], op_Shard = 0, op_GID = 0, op_Num = 0,
     op_ClientId = 0, op_Seq = 0\<rparr>"

record ShardCtrler =
  sc_me :: nat
  sc_dead :: bool
  sc_configs :: "Config list"
  sc_dedup :: "int \<rightharpoonup> int"
  sc_waiters :: "Op waiters"
  sc_lastApplied :: int

subsection \<open>Rebalancing\<close>

text \<open>The target load of each group, and the loop variables of \<^verbatim>\<open>rebalance\<close>.\<close>

definition targets :: "int list \<Rightarrow> int \<Rightarrow> int" where
  "targets gids gid =
     (let n = length gids; base = int (NShards div n); extra = NShards mod n
      in case map_of (zip gids (map (\<lambda>i. if i < extra then base + 1 else base) [0..<n])) gid of
           Some t \<Rightarrow> t | None \<Rightarrow> 0)"

record balance =
  b_shards :: "int list"
  b_count :: "int \<Rightarrow> int"
  b_unassigned :: "nat list"

definition countStep :: "int list \<Rightarrow> nat \<Rightarrow> balance \<Rightarrow> balance" where
  "countStep gids s b =
     (let g = b_shards b ! s
      in if g \<noteq> 0 \<and> g \<in> set gids then b\<lparr>b_count := (b_count b)(g := b_count b g + 1)\<rparr>
         else b\<lparr>b_unassigned := b_unassigned b @ [s]\<rparr>)"

definition countLoop :: "int list \<Rightarrow> int list \<Rightarrow> balance" where
  "countLoop gids shards =
     fold (countStep gids) [0..<NShards] \<lparr>b_shards = shards, b_count = (\<lambda>_. 0), b_unassigned = []\<rparr>"

text \<open>The highest shard of a group, as the inner loop finds it.\<close>

definition highestShard :: "int \<Rightarrow> int list \<Rightarrow> nat option" where
  "highestShard gid shards = List.find (\<lambda>s. shards ! s = gid) (rev [0..<NShards])"

function releaseLoop :: "int \<Rightarrow> int \<Rightarrow> balance \<Rightarrow> balance option" where
  "releaseLoop gid t b =
     (if b_count b gid > t
      then (case highestShard gid (b_shards b) of
              None \<Rightarrow> None
            | Some s \<Rightarrow> releaseLoop gid t
                (b\<lparr>b_shards := (b_shards b)[s := 0], b_unassigned := b_unassigned b @ [s],
                   b_count := (b_count b)(gid := b_count b gid - 1)\<rparr>))
      else Some b)"
  by pat_completeness auto
termination
  by (relation "measure (\<lambda>(gid, t, b). nat (b_count b gid - t))") auto

fun releaseAll :: "int list \<Rightarrow> int list \<Rightarrow> balance \<Rightarrow> balance option" where
  "releaseAll all [] b = Some b"
| "releaseAll all (gid # gids) b = Option.bind (releaseLoop gid (targets all gid) b) (releaseAll all gids)"

text \<open>Handing out: \<open>b_unassigned\<close> is what is left from \<^verbatim>\<open>ui\<close> on.\<close>

function assignLoop :: "int \<Rightarrow> int \<Rightarrow> balance \<Rightarrow> balance" where
  "assignLoop gid t b =
     (if b_count b gid < t \<and> b_unassigned b \<noteq> []
      then assignLoop gid t
             (b\<lparr>b_shards := (b_shards b)[hd (b_unassigned b) := gid], b_unassigned := tl (b_unassigned b),
                b_count := (b_count b)(gid := b_count b gid + 1)\<rparr>)
      else b)"
  by pat_completeness auto
termination
  by (relation "measure (\<lambda>(gid, t, b). length (b_unassigned b))") auto

declare releaseLoop.simps [simp del] assignLoop.simps [simp del]

definition assignAll :: "int list \<Rightarrow> balance \<Rightarrow> balance" where
  "assignAll gids b = fold (\<lambda>gid. assignLoop gid (targets gids gid)) gids b"

definition rebalance :: "Config \<Rightarrow> Config option" where
  "rebalance c =
     (let gids = sort (map fst (cfg_Groups c))
      in if gids = [] then Some (c\<lparr>cfg_Shards := map (\<lambda>_. 0) (cfg_Shards c)\<rparr>)
         else do {
           b \<leftarrow> releaseAll gids gids (countLoop gids (cfg_Shards c));
           let b2 = assignAll gids (b\<lparr>b_unassigned := sort (b_unassigned b)\<rparr>);
           Some (c\<lparr>cfg_Shards := b_shards b2\<rparr>)
         })"

subsection \<open>Applying\<close>

definition copyGroups :: "groups \<Rightarrow> groups" where
  "copyGroups g = map (\<lambda>(gid, servers). (gid, servers)) g"

definition joinGroups :: "groups \<Rightarrow> groups \<Rightarrow> groups" where
  "joinGroups servers g = fold (\<lambda>(gid, srv). AList.update gid srv) servers g"

definition leaveGroups :: "int list \<Rightarrow> groups \<Rightarrow> groups" where
  "leaveGroups gids g = fold AList.delete gids g"

definition unassignLeaving :: "int list \<Rightarrow> int list \<Rightarrow> int list" where
  "unassignLeaving gids shards = map (\<lambda>g. if g \<in> set gids then 0 else g) shards"

definition applyMutation :: "Op \<Rightarrow> Config list \<Rightarrow> Config list option" where
  "applyMutation op configs = do {
     lst \<leftarrow> slice_get configs (int (length configs) - 1);
     let nc = \<lparr>cfg_Num = cfg_Num lst + 1, cfg_Shards = cfg_Shards lst, cfg_Groups = copyGroups (cfg_Groups lst)\<rparr>;
     nc' \<leftarrow> (if op_Type op = ''Join''
             then rebalance (nc\<lparr>cfg_Groups := joinGroups (op_Servers op) (cfg_Groups nc)\<rparr>)
             else if op_Type op = ''Leave''
             then rebalance (nc\<lparr>cfg_Groups := leaveGroups (op_GIDs op) (cfg_Groups nc),
                                cfg_Shards := unassignLeaving (op_GIDs op) (cfg_Shards nc)\<rparr>)
             else if op_Type op = ''Move''
             then do { shards \<leftarrow> slice_set (cfg_Shards nc) (op_Shard op) (op_GID op);
                       Some (nc\<lparr>cfg_Shards := shards\<rparr>) }
             else Some nc);
     Some (configs @ [nc'])
   }"

type_synonym ctlstore = "Config list \<times> (int \<rightharpoonup> int)"

text \<open>The replicated part of one iteration of \<^verbatim>\<open>applyLoop\<close>.\<close>

definition applyOp :: "Op \<Rightarrow> ctlstore \<Rightarrow> ctlstore option" where
  "applyOp op st =
     (if op_Type op \<noteq> ''Query''
      then (if (case snd st (op_ClientId op) of None \<Rightarrow> True | Some lst \<Rightarrow> op_Seq op > lst)
            then map_option (\<lambda>cs. (cs, (snd st)(op_ClientId op \<mapsto> op_Seq op))) (applyMutation op (fst st))
            else Some st)
      else Some st)"

definition applyMsg :: "(Op, 'd) ApplyMsg \<Rightarrow> ShardCtrler \<Rightarrow> ShardCtrler option" where
  "applyMsg msg sc =
     (if \<not> CommandValid msg then Some sc
      else if CommandIndex msg \<le> sc_lastApplied sc then Some sc
      else do {
        let sc1 = sc\<lparr>sc_lastApplied := CommandIndex msg\<rparr>;
        op \<leftarrow> Command msg;
        st \<leftarrow> applyOp op (sc_configs sc1, sc_dedup sc1);
        let sc2 = sc1\<lparr>sc_configs := fst st, sc_dedup := snd st\<rparr>;
        w \<leftarrow> wake (CommandIndex msg) op (sc_waiters sc2);
        Some (sc2\<lparr>sc_waiters := w\<rparr>)
      })"

subsection \<open>Handlers\<close>

definition submitBegin :: "int \<Rightarrow> bool \<Rightarrow> ShardCtrler \<Rightarrow> bool + (ShardCtrler \<times> nat)" where
  "submitBegin index isLeader sc =
     (if \<not> isLeader then Inl False
      else let (w, ch) = register index (sc_waiters sc) in Inr (sc\<lparr>sc_waiters := w\<rparr>, ch))"

definition submitResult :: "Op \<Rightarrow> int \<Rightarrow> nat \<Rightarrow> ShardCtrler \<Rightarrow> (ShardCtrler \<times> bool) option" where
  "submitResult op index ch sc =
     (case receive ch (sc_waiters sc) of
        None \<Rightarrow> None
      | Some (applied, w) \<Rightarrow>
          Some (sc\<lparr>sc_waiters := forget index w\<rparr>,
                op_ClientId applied = op_ClientId op \<and> op_Seq applied = op_Seq op))"

definition submitTimeout :: "int \<Rightarrow> ShardCtrler \<Rightarrow> ShardCtrler \<times> bool" where
  "submitTimeout index sc = (sc\<lparr>sc_waiters := forget index (sc_waiters sc)\<rparr>, False)"

definition opOfJoin :: "JoinArgs \<Rightarrow> Op" where
  "opOfJoin args = noOp\<lparr>op_Type := ''Join'', op_Servers := ja_Servers args,
     op_ClientId := ja_ClientId args, op_Seq := ja_Seq args\<rparr>"

definition opOfLeave :: "LeaveArgs \<Rightarrow> Op" where
  "opOfLeave args = noOp\<lparr>op_Type := ''Leave'', op_GIDs := la_GIDs args,
     op_ClientId := la_ClientId args, op_Seq := la_Seq args\<rparr>"

definition opOfMove :: "MoveArgs \<Rightarrow> Op" where
  "opOfMove args = noOp\<lparr>op_Type := ''Move'', op_Shard := ma_Shard args, op_GID := ma_GID args,
     op_ClientId := ma_ClientId args, op_Seq := ma_Seq args\<rparr>"

definition opOfQuery :: "QueryArgs \<Rightarrow> Op" where
  "opOfQuery args = noOp\<lparr>op_Type := ''Query'', op_Num := qa_Num args,
     op_ClientId := qa_ClientId args, op_Seq := qa_Seq args\<rparr>"

definition mutateReply :: "bool \<Rightarrow> MutateReply" where
  "mutateReply ok = (if \<not> ok then \<lparr>mr_WrongLeader = True, mr_Err = ''''\<rparr>
                     else \<lparr>mr_WrongLeader = False, mr_Err = OK\<rparr>)"

definition configAt :: "int \<Rightarrow> ShardCtrler \<Rightarrow> Config option" where
  "configAt num sc =
     (if num < 0 \<or> num \<ge> int (length (sc_configs sc))
      then slice_get (sc_configs sc) (int (length (sc_configs sc)) - 1)
      else slice_get (sc_configs sc) num)"

definition noConfig :: Config where
  "noConfig = \<lparr>cfg_Num = 0, cfg_Shards = replicate NShards 0, cfg_Groups = []\<rparr>"

definition queryReply :: "bool \<Rightarrow> QueryArgs \<Rightarrow> ShardCtrler \<Rightarrow> QueryReply option" where
  "queryReply ok args sc =
     (if \<not> ok then Some \<lparr>qr_WrongLeader = True, qr_Err = '''', qr_Config = noConfig\<rparr>
      else map_option (\<lambda>c. \<lparr>qr_WrongLeader = False, qr_Err = OK, qr_Config = c\<rparr>) (configAt (qa_Num args) sc))"

text \<open>
  An RPC handler is the operation it submits and what it does with the outcome of \<^verbatim>\<open>submit\<close>, in
  the state of the server at that later moment.
\<close>

definition Join :: "JoinArgs \<Rightarrow> Op \<times> (bool \<Rightarrow> MutateReply)" where
  "Join args = (opOfJoin args, mutateReply)"

definition Leave :: "LeaveArgs \<Rightarrow> Op \<times> (bool \<Rightarrow> MutateReply)" where
  "Leave args = (opOfLeave args, mutateReply)"

definition Move :: "MoveArgs \<Rightarrow> Op \<times> (bool \<Rightarrow> MutateReply)" where
  "Move args = (opOfMove args, mutateReply)"

definition Query :: "QueryArgs \<Rightarrow> Op \<times> (bool \<Rightarrow> ShardCtrler \<Rightarrow> QueryReply option)" where
  "Query args = (opOfQuery args, \<lambda>ok. queryReply ok args)"

definition KillCtrler :: "ShardCtrler \<Rightarrow> ShardCtrler" where
  "KillCtrler sc = sc\<lparr>sc_dead := True\<rparr>"

definition StartServer :: "nat \<Rightarrow> ShardCtrler" where
  "StartServer i = \<lparr>sc_me = i, sc_dead = False, sc_configs = [noConfig], sc_dedup = Map.empty,
     sc_waiters = noWaiters, sc_lastApplied = 0\<rparr>"

subsection \<open>The clerk\<close>

record Clerk =
  ck_clientId :: int
  ck_seq :: int
  ck_leaderHint :: nat

definition MakeClerk :: "int \<Rightarrow> Clerk" where
  "MakeClerk rand = \<lparr>ck_clientId = rand, ck_seq = 0, ck_leaderHint = 0\<rparr>"

definition nextSeq :: "Clerk \<Rightarrow> Clerk \<times> int" where
  "nextSeq ck = (ck\<lparr>ck_seq := ck_seq ck + 1\<rparr>, ck_seq ck + 1)"

text \<open>
  An operation of the clerk: the arguments carry the next sequence number, and \<open>calls\<close> is what
  the network returns for them, attempt after attempt (\<open>None\<close> for a lost call). The result is
  \<open>None\<close> as long as the loop goes on.
\<close>

definition clerkQuery :: "nat \<Rightarrow> Clerk \<Rightarrow> int \<Rightarrow> (QueryArgs \<Rightarrow> QueryReply option list) \<Rightarrow> (Clerk \<times> Config) option" where
  "clerkQuery n ck num calls =
     (let (ck1, s) = nextSeq ck; args = \<lparr>qa_Num = num, qa_ClientId = ck_clientId ck, qa_Seq = s\<rparr>
      in map_option (\<lambda>(leader, reply, _). (ck1\<lparr>ck_leaderHint := leader\<rparr>, qr_Config reply))
           (retry n (\<lambda>reply. \<not> qr_WrongLeader reply) (ck_leaderHint ck1) (calls args)))"

definition clerkMutate :: "nat \<Rightarrow> Clerk \<Rightarrow> MutateReply option list \<Rightarrow> Clerk option" where
  "clerkMutate n ck calls =
     map_option (\<lambda>(leader, reply, _). ck\<lparr>ck_leaderHint := leader\<rparr>)
       (retry n (\<lambda>reply. \<not> mr_WrongLeader reply) (ck_leaderHint ck) calls)"

definition clerkJoin :: "nat \<Rightarrow> Clerk \<Rightarrow> groups \<Rightarrow> (JoinArgs \<Rightarrow> MutateReply option list) \<Rightarrow> Clerk option" where
  "clerkJoin n ck servers calls =
     (let (ck1, s) = nextSeq ck
      in clerkMutate n ck1 (calls \<lparr>ja_Servers = servers, ja_ClientId = ck_clientId ck, ja_Seq = s\<rparr>))"

definition clerkLeave :: "nat \<Rightarrow> Clerk \<Rightarrow> int list \<Rightarrow> (LeaveArgs \<Rightarrow> MutateReply option list) \<Rightarrow> Clerk option" where
  "clerkLeave n ck gids calls =
     (let (ck1, s) = nextSeq ck
      in clerkMutate n ck1 (calls \<lparr>la_GIDs = gids, la_ClientId = ck_clientId ck, la_Seq = s\<rparr>))"

definition clerkMove :: "nat \<Rightarrow> Clerk \<Rightarrow> int \<Rightarrow> int \<Rightarrow> (MoveArgs \<Rightarrow> MutateReply option list) \<Rightarrow> Clerk option" where
  "clerkMove n ck shard gid calls =
     (let (ck1, s) = nextSeq ck
      in clerkMutate n ck1 (calls \<lparr>ma_Shard = shard, ma_GID = gid, ma_ClientId = ck_clientId ck, ma_Seq = s\<rparr>))"

end
