(* ===== verification/Rebalance.thy ===== *)
theory Rebalance
  imports ShardCtrler
begin

section \<open>Rebalancing is correct\<close>

text \<open>
  The loops of \<^verbatim>\<open>rebalance\<close>, one after the other. \<open>bal_inv\<close> is the meaning of the loop
  variables: \<^verbatim>\<open>count\<close> has the number of shards that each group holds, and every shard is held
  by a group or is in \<^verbatim>\<open>unassigned\<close>. \<open>rel_inv\<close> is what holds while shards are only taken
  away. The sums of the loads and of the targets, both \<open>NShards\<close>, close the argument: when the
  groups have been filled up, nothing is left over and nothing is missing.
\<close>

subsection \<open>Targets\<close>

lemma sum_list_split:
  "sum_list (map (\<lambda>i. if i < e then b + 1 else b) [0..<n]) = int n * b + int (min e n)"
  by (induction n) (auto simp: algebra_simps min_def)

lemma targets_nth:
  assumes "distinct gids" and "i < length gids"
  shows "targets gids (gids ! i) = (if i < NShards mod length gids then int (NShards div length gids) + 1
                                    else int (NShards div length gids))"
  using assms by (simp add: targets_def Let_def map_of_zip_nth)

lemma targets_map:
  assumes "distinct gids"
  shows "map (targets gids) gids =
    map (\<lambda>i. if i < NShards mod length gids then int (NShards div length gids) + 1
             else int (NShards div length gids)) [0..<length gids]"
  by (rule nth_equalityI) (use assms in \<open>auto simp: targets_nth\<close>)

lemma targets_sum:
  assumes "distinct gids" and "gids \<noteq> []"
  shows "(\<Sum>g \<in> set gids. targets gids g) = int NShards"
proof -
  let ?n = "length gids"
  have "(\<Sum>g \<in> set gids. targets gids g) = sum_list (map (targets gids) gids)"
    using assms(1) by (simp add: sum_list_distinct_conv_sum_set)
  also have "\<dots> = int ?n * int (NShards div ?n) + int (min (NShards mod ?n) ?n)"
    unfolding targets_map [OF assms(1)] by (rule sum_list_split)
  also have "min (NShards mod ?n) ?n = NShards mod ?n" using assms(2) by (simp add: min_def)
  also have "int ?n * int (NShards div ?n) + int (NShards mod ?n) = int NShards"
    by (metis mult_div_mod_eq of_nat_add of_nat_mult)
  finally show ?thesis .
qed

lemma targets_range:
  assumes "distinct gids" and "g \<in> set gids"
  shows "int (NShards div length gids) \<le> targets gids g"
    and "targets gids g \<le> int (NShards div length gids) + 1" and "0 \<le> targets gids g"
proof -
  obtain i where "i < length gids" "gids ! i = g" using assms(2) by (auto simp: in_set_conv_nth)
  then have "targets gids g = (if i < NShards mod length gids then int (NShards div length gids) + 1
      else int (NShards div length gids))"
    using targets_nth [OF assms(1)] by blast
  then show "int (NShards div length gids) \<le> targets gids g"
    "targets gids g \<le> int (NShards div length gids) + 1" "0 \<le> targets gids g" by auto
qed

subsection \<open>The invariants\<close>

definition owned :: "balance \<Rightarrow> int \<Rightarrow> nat set" where
  "owned b g = {s. s < NShards \<and> s \<notin> set (b_unassigned b) \<and> b_shards b ! s = g}"

definition bal_inv :: "int list \<Rightarrow> balance \<Rightarrow> bool" where
  "bal_inv gids b \<longleftrightarrow> length (b_shards b) = NShards \<and> distinct (b_unassigned b) \<and>
     set (b_unassigned b) \<subseteq> {..<NShards} \<and>
     (\<forall>s < NShards. s \<notin> set (b_unassigned b) \<longrightarrow> b_shards b ! s \<in> set gids) \<and>
     (\<forall>g \<in> set gids. b_count b g = int (card (owned b g)))"

definition rel_inv :: "int list \<Rightarrow> int list \<Rightarrow> balance \<Rightarrow> bool" where
  "rel_inv gids shards b \<longleftrightarrow> bal_inv gids b \<and>
     (\<forall>s \<in> set (b_unassigned b). b_shards b ! s = 0 \<or> b_shards b ! s \<notin> set gids) \<and>
     (\<forall>s < NShards. s \<notin> set (b_unassigned b) \<longrightarrow> b_shards b ! s \<noteq> 0 \<and> b_shards b ! s = shards ! s)"

lemma finite_owned [simp]: "finite (owned b g)"
  by (simp add: owned_def)

lemma bal_inv_sum:
  assumes "bal_inv gids b"
  shows "(\<Sum>g \<in> set gids. b_count b g) + int (length (b_unassigned b)) = int NShards"
proof -
  let ?U = "set (b_unassigned b)" and ?O = "\<Union>g \<in> set gids. owned b g"
  have "{..<NShards} = ?U \<union> ?O" using assms by (auto simp: bal_inv_def owned_def)
  moreover have "?U \<inter> ?O = {}" by (auto simp: owned_def)
  ultimately have "NShards = card ?U + card ?O"
    by (metis List.finite_set card_Un_disjoint card_lessThan finite_UN finite_owned)
  also have "card ?O = (\<Sum>g \<in> set gids. card (owned b g))"
    by (rule card_UN_disjoint) (auto simp: owned_def)
  also have "card ?U = length (b_unassigned b)" using assms by (simp add: bal_inv_def distinct_card)
  finally have "int NShards = int (length (b_unassigned b)) + (\<Sum>g \<in> set gids. int (card (owned b g)))"
    by (metis of_nat_add of_nat_sum)
  then show ?thesis using assms by (simp add: bal_inv_def)
qed

subsection \<open>Counting\<close>

lemma countLoop_upto:
  "fold (countStep gids) [0..<k] \<lparr>b_shards = shards, b_count = (\<lambda>_. 0), b_unassigned = []\<rparr> =
   \<lparr>b_shards = shards,
    b_count = (\<lambda>g. if g \<noteq> 0 \<and> g \<in> set gids then int (card {s. s < k \<and> shards ! s = g}) else 0),
    b_unassigned = filter (\<lambda>s. shards ! s = 0 \<or> shards ! s \<notin> set gids) [0..<k]\<rparr>"
proof (induction k)
  case 0
  then show ?case by (simp add: fun_eq_iff)
next
  case (Suc k)
  have "{s. s < Suc k \<and> shards ! s = g} =
      (if shards ! k = g then insert k {s. s < k \<and> shards ! s = g} else {s. s < k \<and> shards ! s = g})" for g
    by (auto simp: less_Suc_eq)
  with Suc show ?case by (auto simp: countStep_def Let_def fun_eq_iff)
qed

lemma countLoop_inv:
  assumes "length shards = NShards"
  shows "rel_inv gids shards (countLoop gids shards)"
proof -
  let ?b = "countLoop gids shards"
  have b: "?b = \<lparr>b_shards = shards,
    b_count = (\<lambda>g. if g \<noteq> 0 \<and> g \<in> set gids then int (card {s. s < NShards \<and> shards ! s = g}) else 0),
    b_unassigned = filter (\<lambda>s. shards ! s = 0 \<or> shards ! s \<notin> set gids) [0..<NShards]\<rparr>"
    unfolding countLoop_def by (rule countLoop_upto)
  have "owned ?b g = (if g \<noteq> 0 \<and> g \<in> set gids then {s. s < NShards \<and> shards ! s = g} else {})" for g
    unfolding b owned_def by auto
  then show ?thesis using assms unfolding rel_inv_def bal_inv_def by (auto simp: b)
qed

subsection \<open>Taking away\<close>

lemma highestShard_Some:
  assumes "s < NShards" and "shards ! s = gid"
  obtains s' where "highestShard gid shards = Some s'" and "s' < NShards" and "shards ! s' = gid"
proof (cases "highestShard gid shards")
  case None
  then show thesis using assms by (auto simp: highestShard_def find_None_iff)
next
  case (Some s')
  then obtain i where i: "i < length (rev [0..<NShards])" "shards ! s' = gid" "s' = rev [0..<NShards] ! i"
    unfolding highestShard_def find_Some_iff by blast
  have "s' \<in> set (rev [0..<NShards])" unfolding i(3) by (rule nth_mem [OF i(1)])
  with i(2) show thesis using that [OF Some] by simp
qed

lemma rel_inv_release:
  assumes inv: "rel_inv gids shards b" and g: "gid \<in> set gids" and s: "s < NShards" "b_shards b ! s = gid" and "gid \<noteq> 0"
    and b': "b' = b\<lparr>b_shards := (b_shards b)[s := 0], b_unassigned := b_unassigned b @ [s],
                   b_count := (b_count b)(gid := b_count b gid - 1)\<rparr>"
  shows "rel_inv gids shards b'" and "s \<notin> set (b_unassigned b)" and "shards ! s = gid"
proof -
  have len: "length (b_shards b) = NShards" using inv by (simp add: rel_inv_def bal_inv_def)
  show su: "s \<notin> set (b_unassigned b)" using inv g s(2) \<open>gid \<noteq> 0\<close> by (auto simp: rel_inv_def)
  then show "shards ! s = gid" using inv s by (auto simp: rel_inv_def)
  have own: "owned b' h = (if h = gid then owned b gid - {s} else owned b h)" for h
    using s len unfolding b' owned_def by (auto simp: nth_list_update)
  have "s \<in> owned b gid" using s su by (simp add: owned_def)
  then have "card (owned b gid - {s}) = card (owned b gid) - 1" "0 < card (owned b gid)"
    by (simp, metis card_gt_0_iff empty_iff finite_owned)
  then have "\<forall>h \<in> set gids. b_count b' h = int (card (owned b' h))"
    using inv unfolding own by (auto simp: b' rel_inv_def bal_inv_def)
  then show "rel_inv gids shards b'"
    using inv su s len unfolding rel_inv_def bal_inv_def by (auto simp: b' nth_list_update)
qed

lemma releaseLoop_correct:
  assumes "rel_inv gids shards b" and "gid \<in> set gids" and "0 \<le> t"
  shows "\<exists>b'. releaseLoop gid t b = Some b' \<and> rel_inv gids shards b' \<and>
    (\<forall>g. b_count b' g = (if g = gid then min (b_count b gid) t else b_count b g)) \<and>
    set (b_unassigned b) \<subseteq> set (b_unassigned b') \<and>
    (\<forall>s \<in> set (b_unassigned b') - set (b_unassigned b). shards ! s = gid \<and> t < b_count b gid)"
  using assms
proof (induction "nat (b_count b gid - t)" arbitrary: b)
  case 0
  then have "releaseLoop gid t b = Some b" by (subst releaseLoop.simps) simp
  with 0 show ?case by auto
next
  case (Suc d)
  have gt: "t < b_count b gid" using Suc.hyps(2) by simp
  have "0 < card (owned b gid)" using Suc.prems gt by (auto simp: rel_inv_def bal_inv_def)
  then obtain s0 where s0: "s0 \<in> owned b gid" by (metis card_gt_0_iff ex_in_conv)
  then have nz: "gid \<noteq> 0" using Suc.prems(1) by (auto simp: rel_inv_def owned_def)
  have "s0 < NShards" "b_shards b ! s0 = gid" using s0 by (auto simp: owned_def)
  then obtain s where s: "highestShard gid (b_shards b) = Some s" "s < NShards" "b_shards b ! s = gid"
    using highestShard_Some by metis
  define b1 where "b1 = b\<lparr>b_shards := (b_shards b)[s := 0], b_unassigned := b_unassigned b @ [s],
                   b_count := (b_count b)(gid := b_count b gid - 1)\<rparr>"
  note r = rel_inv_release [OF Suc.prems(1,2) s(2,3) nz b1_def]
  have eq: "releaseLoop gid t b = releaseLoop gid t b1"
    using gt s(1) by (subst releaseLoop.simps) (simp add: b1_def)
  have "d = nat (b_count b1 gid - t)" using Suc.hyps(2) by (simp add: b1_def)
  from Suc.hyps(1) [OF this r(1) Suc.prems(2,3)] obtain b' where
    b': "releaseLoop gid t b1 = Some b'" "rel_inv gids shards b'"
    "\<forall>g. b_count b' g = (if g = gid then min (b_count b1 gid) t else b_count b1 g)"
    "set (b_unassigned b1) \<subseteq> set (b_unassigned b')"
    "\<forall>s \<in> set (b_unassigned b') - set (b_unassigned b1). shards ! s = gid \<and> t < b_count b1 gid"
    by blast
  have "\<forall>g. b_count b' g = (if g = gid then min (b_count b gid) t else b_count b g)"
    using b'(3) gt by (auto simp: b1_def min_def)
  moreover have "\<forall>x \<in> set (b_unassigned b') - set (b_unassigned b). shards ! x = gid \<and> t < b_count b gid"
    using b'(5) gt r(3) by (auto simp: b1_def)
  ultimately show ?case using eq b'(1,2,4) by (auto simp: b1_def)
qed

lemma releaseAll_correct:
  assumes "rel_inv gids shards b" and "set gs \<subseteq> set gids" and "distinct gs" and "distinct gids"
  shows "\<exists>b'. releaseAll gids gs b = Some b' \<and> rel_inv gids shards b' \<and>
    (\<forall>g. b_count b' g = (if g \<in> set gs then min (b_count b g) (targets gids g) else b_count b g)) \<and>
    set (b_unassigned b) \<subseteq> set (b_unassigned b') \<and>
    (\<forall>s \<in> set (b_unassigned b') - set (b_unassigned b).
       shards ! s \<in> set gs \<and> targets gids (shards ! s) < b_count b (shards ! s))"
  using assms
proof (induction gs arbitrary: b)
  case (Cons g gs)
  have g: "g \<in> set gids" "0 \<le> targets gids g" using Cons.prems(2,4) targets_range by auto
  obtain b1 where b1: "releaseLoop g (targets gids g) b = Some b1" "rel_inv gids shards b1"
    "\<forall>h. b_count b1 h = (if h = g then min (b_count b g) (targets gids g) else b_count b h)"
    "set (b_unassigned b) \<subseteq> set (b_unassigned b1)"
    "\<forall>s \<in> set (b_unassigned b1) - set (b_unassigned b). shards ! s = g \<and> targets gids g < b_count b g"
    using releaseLoop_correct [OF Cons.prems(1) g] by blast
  obtain b' where b': "releaseAll gids gs b1 = Some b'" "rel_inv gids shards b'"
    "\<forall>h. b_count b' h = (if h \<in> set gs then min (b_count b1 h) (targets gids h) else b_count b1 h)"
    "set (b_unassigned b1) \<subseteq> set (b_unassigned b')"
    "\<forall>s \<in> set (b_unassigned b') - set (b_unassigned b1).
       shards ! s \<in> set gs \<and> targets gids (shards ! s) < b_count b1 (shards ! s)"
    using Cons.IH [OF b1(2)] Cons.prems(2-4) by auto
  have "\<forall>h. b_count b' h = (if h \<in> set (g # gs) then min (b_count b h) (targets gids h) else b_count b h)"
    using b'(3) b1(3) Cons.prems(3) by auto
  moreover have "\<forall>s \<in> set (b_unassigned b') - set (b_unassigned b).
      shards ! s \<in> set (g # gs) \<and> targets gids (shards ! s) < b_count b (shards ! s)"
  proof
    fix s assume s: "s \<in> set (b_unassigned b') - set (b_unassigned b)"
    show "shards ! s \<in> set (g # gs) \<and> targets gids (shards ! s) < b_count b (shards ! s)"
    proof (cases "s \<in> set (b_unassigned b1)")
      case True
      with b1(5) s show ?thesis by auto
    next
      case False
      with b'(5) s have "shards ! s \<in> set gs" "targets gids (shards ! s) < b_count b1 (shards ! s)" by auto
      with b1(3) Cons.prems(3) show ?thesis by (auto split: if_splits)
    qed
  qed
  ultimately show ?case using b1(1,4) b'(1,2,4) by auto
qed simp

subsection \<open>Handing out\<close>

lemma bal_inv_assign:
  assumes inv: "bal_inv gids b" and g: "gid \<in> set gids" and un: "b_unassigned b = s # us"
    and b': "b' = b\<lparr>b_shards := (b_shards b)[s := gid], b_unassigned := us,
                   b_count := (b_count b)(gid := b_count b gid + 1)\<rparr>"
  shows "bal_inv gids b'"
proof -
  have s: "s < NShards" "s \<notin> set us" and len: "length (b_shards b) = NShards"
    using inv un by (auto simp: bal_inv_def)
  have own: "owned b' h = (if h = gid then insert s (owned b gid) else owned b h)" for h
    using s len un unfolding b' owned_def by (auto simp: nth_list_update)
  have "s \<notin> owned b gid" using un by (simp add: owned_def)
  then have "\<forall>h \<in> set gids. b_count b' h = int (card (owned b' h))"
    using inv unfolding own by (auto simp: b' bal_inv_def)
  then show ?thesis using inv s len un g unfolding bal_inv_def by (auto simp: b' nth_list_update)
qed

lemma assignLoop_correct:
  assumes "bal_inv gids b" and "gid \<in> set gids" and "b_count b gid \<le> t" and "b' = assignLoop gid t b"
  shows "bal_inv gids b' \<and> (\<forall>g. g \<noteq> gid \<longrightarrow> b_count b' g = b_count b g) \<and> b_count b' gid \<le> t \<and>
    (b_count b' gid = t \<or> b_unassigned b' = []) \<and> set (b_unassigned b') \<subseteq> set (b_unassigned b) \<and>
    (\<forall>s. s \<notin> set (b_unassigned b) \<longrightarrow> b_shards b' ! s = b_shards b ! s)"
  using assms
proof (induction "length (b_unassigned b)" arbitrary: b)
  case 0
  then have "b' = b" by (subst (asm) assignLoop.simps) simp
  with 0 show ?case by auto
next
  case (Suc k)
  then obtain s us where un: "b_unassigned b = s # us" by (cases "b_unassigned b") auto
  show ?case
  proof (cases "b_count b gid < t")
    case False
    then have "b' = b" using Suc.prems(4) by (subst (asm) assignLoop.simps) simp
    with Suc.prems False show ?thesis by auto
  next
    case True
    define b1 where "b1 = b\<lparr>b_shards := (b_shards b)[s := gid], b_unassigned := us,
        b_count := (b_count b)(gid := b_count b gid + 1)\<rparr>"
    have "b' = assignLoop gid t b1" using Suc.prems(4) True un by (subst (asm) assignLoop.simps) (simp add: b1_def)
    moreover have "bal_inv gids b1" by (rule bal_inv_assign [OF Suc.prems(1,2) un b1_def])
    ultimately show ?thesis
      using Suc.hyps(1) [of b1] Suc.hyps(2) Suc.prems(2) True un by (auto simp: b1_def)
  qed
qed

lemma assignAll_upto:
  assumes "bal_inv gids b" and "set gs \<subseteq> set gids" and "\<forall>g \<in> set gids. b_count b g \<le> targets gids g"
    and "b' = fold (\<lambda>gid. assignLoop gid (targets gids gid)) gs b"
  shows "bal_inv gids b' \<and> (\<forall>g \<in> set gids. b_count b' g \<le> targets gids g) \<and>
    (b_unassigned b' = [] \<or> (\<forall>g \<in> set gs. b_count b' g = targets gids g)) \<and>
    (\<forall>g \<in> set gids. b_count b g = targets gids g \<longrightarrow> b_count b' g = targets gids g) \<and>
    set (b_unassigned b') \<subseteq> set (b_unassigned b) \<and>
    (\<forall>s. s \<notin> set (b_unassigned b) \<longrightarrow> b_shards b' ! s = b_shards b ! s)"
  using assms
proof (induction gs arbitrary: b)
  case (Cons g gs)
  define b1 where "b1 = assignLoop g (targets gids g) b"
  have g: "g \<in> set gids" "b_count b g \<le> targets gids g" using Cons.prems(2,3) by auto
  have a: "bal_inv gids b1" "\<forall>h. h \<noteq> g \<longrightarrow> b_count b1 h = b_count b h" "b_count b1 g \<le> targets gids g"
    "b_count b1 g = targets gids g \<or> b_unassigned b1 = []" "set (b_unassigned b1) \<subseteq> set (b_unassigned b)"
    "\<forall>s. s \<notin> set (b_unassigned b) \<longrightarrow> b_shards b1 ! s = b_shards b ! s"
    using assignLoop_correct [OF Cons.prems(1) g b1_def] by blast+
  have le: "\<forall>h \<in> set gids. b_count b1 h \<le> targets gids h" using a(2,3) Cons.prems(3) by metis
  have gs: "set gs \<subseteq> set gids" and b': "b' = fold (\<lambda>gid. assignLoop gid (targets gids gid)) gs b1"
    using Cons.prems(2,4) by (auto simp: b1_def)
  note IH = Cons.IH [OF a(1) gs le b']
  have "b_unassigned b' = [] \<or> (\<forall>h \<in> set (g # gs). b_count b' h = targets gids h)"
    using IH a(4) g(1) by (metis empty_subsetI list.set(1) set_ConsD set_empty subset_antisym)
  moreover have "\<forall>h \<in> set gids. b_count b h = targets gids h \<longrightarrow> b_count b1 h = targets gids h"
  proof (intro ballI impI)
    fix h assume h: "h \<in> set gids" "b_count b h = targets gids h"
    show "b_count b1 h = targets gids h"
    proof (cases "h = g")
      case True
      have "b1 = b" unfolding b1_def by (subst assignLoop.simps) (use h True in simp)
      with h show ?thesis by simp
    qed (use a(2) h in simp)
  qed
  moreover have "\<forall>s. s \<notin> set (b_unassigned b) \<longrightarrow> b_shards b' ! s = b_shards b ! s"
    using IH a(5,6) by (metis subsetD)
  moreover have "set (b_unassigned b') \<subseteq> set (b_unassigned b)" using IH a(5) by (meson order_trans)
  ultimately show ?case using IH by simp
qed simp

lemma bal_inv_sorted:
  "bal_inv gids b \<Longrightarrow> bal_inv gids (b\<lparr>b_unassigned := sort (b_unassigned b)\<rparr>)"
  by (simp add: bal_inv_def owned_def)

lemma assignAll_correct:
  assumes inv: "bal_inv gids b" and "distinct gids" and "gids \<noteq> []"
    and le: "\<forall>g \<in> set gids. b_count b g \<le> targets gids g" and b': "b' = assignAll gids b"
  shows "bal_inv gids b'" and "b_unassigned b' = []" and "g \<in> set gids \<Longrightarrow> b_count b' g = targets gids g"
    and "s \<notin> set (b_unassigned b) \<Longrightarrow> b_shards b' ! s = b_shards b ! s"
proof -
  have a: "bal_inv gids b'" "\<forall>g \<in> set gids. b_count b' g \<le> targets gids g"
    "b_unassigned b' = [] \<or> (\<forall>g \<in> set gids. b_count b' g = targets gids g)"
    "\<forall>s. s \<notin> set (b_unassigned b) \<longrightarrow> b_shards b' ! s = b_shards b ! s"
    using assignAll_upto [OF inv order_refl le b' [unfolded assignAll_def]] by blast+
  show "bal_inv gids b'" by (rule a(1))
  show un: "b_unassigned b' = []"
  proof (rule ccontr)
    assume ne: "b_unassigned b' \<noteq> []"
    then have "(\<Sum>g \<in> set gids. b_count b' g) = int NShards"
      using a(3) targets_sum [OF assms(2,3)] by simp
    with bal_inv_sum [OF a(1)] ne show False by simp
  qed
  have "(\<Sum>g \<in> set gids. targets gids g - b_count b' g) = 0"
    using bal_inv_sum [OF a(1)] un targets_sum [OF assms(2,3)] by (simp add: sum_subtractf)
  then have "\<forall>g \<in> set gids. targets gids g - b_count b' g = 0"
    using a(2) by (subst (asm) sum_nonneg_eq_0_iff) auto
  then show "g \<in> set gids \<Longrightarrow> b_count b' g = targets gids g" by auto
  show "s \<notin> set (b_unassigned b) \<Longrightarrow> b_shards b' ! s = b_shards b ! s" using a(4) by blast
qed

subsection \<open>The whole function\<close>

lemma count_list_card: "count_list xs g = card {s. s < length xs \<and> xs ! s = g}"
  by (simp add: count_list_eq_length_filter length_filter_conv_card eq_commute)

lemma rebalance_correct:
  assumes "distinct (map fst (cfg_Groups c))" and "length (cfg_Shards c) = NShards" and "cfg_Groups c \<noteq> []"
    and gids: "gids = sort (map fst (cfg_Groups c))"
  obtains shards where "rebalance c = Some (c\<lparr>cfg_Shards := shards\<rparr>)" and "length shards = NShards"
    and "set shards \<subseteq> set gids" and "\<And>g. g \<in> set gids \<Longrightarrow> int (count_list shards g) = targets gids g"
    and "\<And>s. s < NShards \<Longrightarrow> cfg_Shards c ! s \<noteq> 0 \<Longrightarrow> cfg_Shards c ! s \<in> set gids \<Longrightarrow>
      int (count_list (cfg_Shards c) (cfg_Shards c ! s)) \<le> targets gids (cfg_Shards c ! s) \<Longrightarrow>
      shards ! s = cfg_Shards c ! s"
proof -
  let ?b0 = "countLoop gids (cfg_Shards c)"
  have "length gids \<noteq> 0" using assms(3) gids by simp
  then have d: "distinct gids" "gids \<noteq> []" by (simp add: gids assms(1), metis list.size(3))
  have inv0: "rel_inv gids (cfg_Shards c) ?b0" by (rule countLoop_inv [OF assms(2)])
  obtain b where b: "releaseAll gids gids ?b0 = Some b" "rel_inv gids (cfg_Shards c) b"
    "\<forall>g. b_count b g = (if g \<in> set gids then min (b_count ?b0 g) (targets gids g) else b_count ?b0 g)"
    "\<forall>s \<in> set (b_unassigned b) - set (b_unassigned ?b0).
       cfg_Shards c ! s \<in> set gids \<and> targets gids (cfg_Shards c ! s) < b_count ?b0 (cfg_Shards c ! s)"
    using releaseAll_correct [OF inv0 order_refl d(1) d(1)] by blast
  let ?b1 = "b\<lparr>b_unassigned := sort (b_unassigned b)\<rparr>"
  define b2 where "b2 = assignAll gids ?b1"
  have inv1: "bal_inv gids ?b1" using b(2) by (simp add: rel_inv_def bal_inv_sorted)
  have le: "\<forall>g \<in> set gids. b_count ?b1 g \<le> targets gids g" using b(3) by simp
  note a = assignAll_correct [OF inv1 d le b2_def]
  have run: "rebalance c = Some (c\<lparr>cfg_Shards := b_shards b2\<rparr>)"
    using b(1) d(2) gids by (simp add: rebalance_def b2_def Let_def)
  have own: "owned b2 g = {s. s < length (b_shards b2) \<and> b_shards b2 ! s = g}" for g
    using a(1,2) by (auto simp: owned_def bal_inv_def)
  have count: "int (count_list (b_shards b2) g) = targets gids g" if "g \<in> set gids" for g
    using a(1) a(3) [OF that] that unfolding count_list_card own [symmetric] by (auto simp: bal_inv_def)
  have keep: "b_shards b2 ! s = cfg_Shards c ! s"
    if s: "s < NShards" "cfg_Shards c ! s \<noteq> 0" "cfg_Shards c ! s \<in> set gids"
      "int (count_list (cfg_Shards c) (cfg_Shards c ! s)) \<le> targets gids (cfg_Shards c ! s)" for s
  proof -
    have b0: "?b0 = \<lparr>b_shards = cfg_Shards c,
      b_count = (\<lambda>g. if g \<noteq> 0 \<and> g \<in> set gids then int (card {s. s < NShards \<and> cfg_Shards c ! s = g}) else 0),
      b_unassigned = filter (\<lambda>s. cfg_Shards c ! s = 0 \<or> cfg_Shards c ! s \<notin> set gids) [0..<NShards]\<rparr>"
      unfolding countLoop_def by (rule countLoop_upto)
    have "\<not> targets gids (cfg_Shards c ! s) < b_count ?b0 (cfg_Shards c ! s)"
      using s assms(2) unfolding b0 count_list_card by simp
    moreover have "s \<notin> set (b_unassigned ?b0)" using s unfolding b0 by simp
    ultimately have "s \<notin> set (b_unassigned b)" using b(4) by blast
    then show ?thesis using a(4) [of s] b(2) s(1) by (auto simp: rel_inv_def)
  qed
  show thesis
    by (rule that [OF run _ _ count keep]) (use a(1,2) in \<open>auto simp: bal_inv_def in_set_conv_nth\<close>)
qed

lemma rebalance_empty:
  "cfg_Groups c = [] \<Longrightarrow> rebalance c = Some (c\<lparr>cfg_Shards := map (\<lambda>_. 0) (cfg_Shards c)\<rparr>)"
  by (simp add: rebalance_def)

subsection \<open>Properties\<close>

text \<open>
  (C18) Rebalancing terminates and balances. For any assignment of the shards and any set of
  groups, the loops end, every shard is assigned to one of the groups, and the loads of
  any two groups differ by at most one.
\<close>

theorem rebalance_balanced:
  assumes "distinct (map fst (cfg_Groups c))" and "length (cfg_Shards c) = NShards" and "cfg_Groups c \<noteq> []"
  shows "\<exists>c'. rebalance c = Some c' \<and> cfg_Groups c' = cfg_Groups c \<and> cfg_Num c' = cfg_Num c \<and>
    length (cfg_Shards c') = NShards \<and> set (cfg_Shards c') \<subseteq> fst ` set (cfg_Groups c) \<and>
    (\<forall>g \<in> fst ` set (cfg_Groups c). \<forall>h \<in> fst ` set (cfg_Groups c).
       count_list (cfg_Shards c') g \<le> count_list (cfg_Shards c') h + 1)"
proof -
  let ?gids = "sort (map fst (cfg_Groups c))"
  have d: "distinct ?gids" and gs: "set ?gids = fst ` set (cfg_Groups c)" using assms(1) by simp_all
  show ?thesis
  proof (rule rebalance_correct [OF assms refl])
    fix shards assume r: "rebalance c = Some (c\<lparr>cfg_Shards := shards\<rparr>)" "length shards = NShards"
      "set shards \<subseteq> set ?gids" "\<And>g. g \<in> set ?gids \<Longrightarrow> int (count_list shards g) = targets ?gids g"
    have "count_list shards g \<le> count_list shards h + 1" if "g \<in> set ?gids" "h \<in> set ?gids" for g h
      using r(4) [OF that(1)] r(4) [OF that(2)] targets_range [OF d that(1)] targets_range [OF d that(2)] by linarith
    with r gs show ?thesis by (intro exI [of _ "c\<lparr>cfg_Shards := shards\<rparr>"]) auto
  qed
qed

definition threeGroups :: Config where
  "threeGroups = \<lparr>cfg_Num = 1, cfg_Shards = [2, 2, 2, 2, 3, 3, 3, 4, 4, 4],
     cfg_Groups = [(1, [''a'']), (4, [''d'']), (2, [''b'']), (3, [''c''])]\<rparr>"

theorem rebalance_balanced_witness:
  "\<exists>c'. rebalance threeGroups = Some c' \<and> set (cfg_Shards c') \<subseteq> {1, 2, 3, 4} \<and>
     count_list (cfg_Shards c') 1 \<le> count_list (cfg_Shards c') 4 + 1"
  using rebalance_balanced [of threeGroups] by (auto simp: threeGroups_def NShards_def)

text \<open>
  (C19) Rebalancing leaves alone what it can: a shard whose group is still there and does not
  hold more than its target stays where it is.
\<close>

theorem rebalance_keeps:
  assumes "distinct (map fst (cfg_Groups c))" and "length (cfg_Shards c) = NShards" and "s < NShards"
    and "cfg_Shards c ! s = g" and "g \<noteq> 0" and "g \<in> fst ` set (cfg_Groups c)"
    and "int (count_list (cfg_Shards c) g) \<le> targets (sort (map fst (cfg_Groups c))) g"
    and "rebalance c = Some c'"
  shows "cfg_Shards c' ! s = g"
proof -
  have ne: "cfg_Groups c \<noteq> []" using assms(6) by auto
  show ?thesis
    by (rule rebalance_correct [OF assms(1,2) ne refl]) (use assms(3-8) in auto)
qed

theorem rebalance_keeps_witness:
  "cfg_Shards (the (rebalance (threeGroups\<lparr>cfg_Shards := [2, 2, 2, 2, 3, 3, 0, 4, 4, 0]\<rparr>))) ! 4 = 3"
proof -
  let ?c = "threeGroups\<lparr>cfg_Shards := [2, 2, 2, 2, 3, 3, 0, 4, 4, 0]\<rparr>"
  have "\<not> Option.is_none (rebalance ?c)" by code_simp
  then obtain c' where c': "rebalance ?c = Some c'" by (auto simp: Option.is_none_def)
  have "int (count_list (cfg_Shards ?c) 3) \<le> targets (sort (map fst (cfg_Groups ?c))) 3" by code_simp
  then show ?thesis
    using rebalance_keeps [OF _ _ _ _ _ _ _ c', of 4 3] c' by (simp add: threeGroups_def NShards_def)
qed

text \<open>
  The order in which Go iterates over the map of the groups does not matter: replicas that
  hold the same groups, in whatever order, compute the same assignment.
\<close>

lemma rebalance_deterministic:
  assumes "distinct (map fst g)" and "distinct (map fst h)" and "fst ` set g = fst ` set h"
  shows "map_option cfg_Shards (rebalance (c\<lparr>cfg_Groups := g\<rparr>)) = map_option cfg_Shards (rebalance (c\<lparr>cfg_Groups := h\<rparr>))"
proof -
  have "sort (map fst g) = sort (map fst h)"
    by (rule sorted_distinct_set_unique) (use assms in simp_all)
  then show ?thesis by (simp add: rebalance_def Let_def map_option_bind comp_def split: option.split bind_split)
qed

text \<open>
  Rebalancing does not always move as few shards as possible. When group 1 joins the groups
  2, 3 and 4 that hold 4, 3 and 3 shards, three shards change hands; an assignment with the
  same balance moves two.
\<close>

definition moved :: "int list \<Rightarrow> int list \<Rightarrow> nat" where
  "moved xs ys = length (filter (\<lambda>(x, y). x \<noteq> y) (zip xs ys))"

definition balancedOver :: "int list \<Rightarrow> int list \<Rightarrow> bool" where
  "balancedOver gids xs \<longleftrightarrow> length xs = NShards \<and> set xs \<subseteq> set gids \<and>
     (\<forall>g \<in> set gids. \<forall>h \<in> set gids. count_list xs g \<le> count_list xs h + 1)"

lemma rebalance_not_minimal:
  "map_option (\<lambda>c'. moved (cfg_Shards threeGroups) (cfg_Shards c')) (rebalance threeGroups) = Some 3 \<and>
   balancedOver [1, 2, 3, 4] [2, 2, 2, 1, 3, 3, 3, 4, 4, 1] \<and>
   moved (cfg_Shards threeGroups) [2, 2, 2, 1, 3, 3, 3, 4, 4, 1] = 2"
proof (intro conjI)
  show "map_option (\<lambda>c'. moved (cfg_Shards threeGroups) (cfg_Shards c')) (rebalance threeGroups) = Some 3" by code_simp
  show "balancedOver [1, 2, 3, 4] [2, 2, 2, 1, 3, 3, 3, 4, 4, 1]" by code_simp
  show "moved (cfg_Shards threeGroups) [2, 2, 2, 1, 3, 3, 3, 4, 4, 1] = 2" by code_simp
qed

end
