(* ===== verification/CtrlerProps.thy ===== *)
theory CtrlerProps
  imports Rebalance
begin

section \<open>Correctness of the shard controller\<close>

text \<open>
  The invariant of the list of configurations and the two contracts of the controller: it
  carries out each mutation once (\<open>exactly_once\<close>) and its configurations are those of the log
  (\<open>command_machine\<close>; the controller takes no snapshots, so Raft sends it commands only). A
  command is \<open>legalOp\<close> unless it moves a shard that does not exist.
\<close>

definition config_ok :: "Config \<Rightarrow> bool" where
  "config_ok c \<longleftrightarrow> length (cfg_Shards c) = NShards \<and> distinct (map fst (cfg_Groups c))"

definition configs_ok :: "Config list \<Rightarrow> bool" where
  "configs_ok cs \<longleftrightarrow> cs \<noteq> [] \<and> (\<forall>k < length cs. cfg_Num (cs ! k) = int k \<and> config_ok (cs ! k))"

definition legalOp :: "Op \<Rightarrow> bool" where
  "legalOp op \<longleftrightarrow> (op_Type op = ''Move'' \<longrightarrow> 0 \<le> op_Shard op \<and> op_Shard op < int NShards)"

lemma configs_ok_start: "configs_ok [noConfig]"
  by (simp add: configs_ok_def config_ok_def noConfig_def)

lemma configs_ok_snoc:
  assumes "configs_ok cs" and "cfg_Num c = int (length cs)" and "config_ok c"
  shows "configs_ok (cs @ [c])"
  using assms by (auto simp: configs_ok_def nth_append less_Suc_eq)

lemma configs_ok_last:
  assumes "configs_ok cs"
  shows "slice_get cs (int (length cs) - 1) = Some (last cs)" and "cfg_Num (last cs) = int (length cs) - 1"
    and "config_ok (last cs)"
proof -
  have ne: "cs \<noteq> []" using assms by (simp add: configs_ok_def)
  then have k: "length cs - 1 < length cs" "nat (int (length cs) - 1) = length cs - 1"
    "int (length cs - 1) = int (length cs) - 1" by (cases cs; simp)+
  show "slice_get cs (int (length cs) - 1) = Some (last cs)"
    using ne k by (simp add: slice_get_def last_conv_nth)
  show "cfg_Num (last cs) = int (length cs) - 1" and "config_ok (last cs)"
    using assms ne k unfolding configs_ok_def by (simp_all add: last_conv_nth)
qed

subsection \<open>The groups of the next configuration\<close>

lemma copyGroups_id [simp]: "copyGroups g = g"
  by (induction g) (auto simp: copyGroups_def)

lemma joinGroups_Cons: "joinGroups (s # ss) g = joinGroups ss (AList.update (fst s) (snd s) g)"
  by (simp add: joinGroups_def case_prod_beta)

lemma joinGroups_distinct: "distinct (map fst g) \<Longrightarrow> distinct (map fst (joinGroups servers g))"
proof (induction servers arbitrary: g)
  case (Cons s ss)
  then show ?case by (simp add: joinGroups_Cons distinct_update)
qed (simp add: joinGroups_def)

lemma joinGroups_map:
  assumes "distinct (map fst servers)"
  shows "map_of (joinGroups servers g) = map_of g ++ map_of servers"
  using assms
proof (induction servers arbitrary: g)
  case (Cons s ss)
  have "map_of ss (fst s) = None" using Cons.prems by (auto simp: map_of_eq_None_iff)
  then show ?case using Cons by (auto simp: joinGroups_Cons update_conv' map_add_def fun_eq_iff split: option.split)
qed (simp add: joinGroups_def)

lemma leaveGroups_distinct: "distinct (map fst g) \<Longrightarrow> distinct (map fst (leaveGroups gids g))"
  unfolding leaveGroups_def by (induction gids arbitrary: g) (auto simp: distinct_delete)

lemma leaveGroups_map: "map_of (leaveGroups gids g) = map_of g |` (- set gids)"
  unfolding leaveGroups_def
  by (induction gids arbitrary: g) (auto simp: delete_conv' restrict_map_def fun_eq_iff)

subsection \<open>A mutation appends the next configuration\<close>

definition spread :: "Config \<Rightarrow> bool" where
  "spread c \<longleftrightarrow> (if cfg_Groups c = [] then cfg_Shards c = replicate NShards 0
                 else balancedOver (map fst (cfg_Groups c)) (cfg_Shards c))"

lemma balancedOver_targets:
  assumes "distinct gids" and "length xs = NShards" and "set xs \<subseteq> set gids"
    and "\<And>g. g \<in> set gids \<Longrightarrow> int (count_list xs g) = targets gids g"
  shows "balancedOver gids xs"
proof -
  have "count_list xs g \<le> count_list xs h + 1" if "g \<in> set gids" "h \<in> set gids" for g h
    using assms(4) [OF that(1)] assms(4) [OF that(2)] targets_range [OF assms(1) that(1)] targets_range [OF assms(1) that(2)]
    by linarith
  with assms(2,3) show ?thesis by (simp add: balancedOver_def)
qed

lemma rebalance_ok:
  assumes "config_ok c"
  obtains c' where "rebalance c = Some c'" and "config_ok c'" and "cfg_Num c' = cfg_Num c"
    and "cfg_Groups c' = cfg_Groups c" and "spread c'"
proof (cases "cfg_Groups c = []")
  case True
  then show thesis using that [OF rebalance_empty [OF True]] assms True by (simp add: config_ok_def spread_def map_replicate_const)
next
  case False
  have c: "distinct (map fst (cfg_Groups c))" "length (cfg_Shards c) = NShards" using assms by (simp_all add: config_ok_def)
  show thesis
  proof (rule rebalance_correct [OF c False refl])
    fix shards assume r: "rebalance c = Some (c\<lparr>cfg_Shards := shards\<rparr>)" "length shards = NShards"
      "set shards \<subseteq> set (sort (map fst (cfg_Groups c)))"
      "\<And>g. g \<in> set (sort (map fst (cfg_Groups c))) \<Longrightarrow> int (count_list shards g) = targets (sort (map fst (cfg_Groups c))) g"
    have "balancedOver (sort (map fst (cfg_Groups c))) shards"
      by (rule balancedOver_targets [OF _ r(2-4)]) (use c in simp)
    then show thesis
      using r(1,2) c False by (intro that [OF r(1)]) (simp_all add: config_ok_def spread_def balancedOver_def)
  qed
qed

definition nextGroups :: "Op \<Rightarrow> groups \<Rightarrow> groups" where
  "nextGroups op g = (if op_Type op = ''Join'' then joinGroups (op_Servers op) g
                      else if op_Type op = ''Leave'' then leaveGroups (op_GIDs op) g else g)"

lemma nextGroups_distinct: "distinct (map fst g) \<Longrightarrow> distinct (map fst (nextGroups op g))"
  by (simp add: nextGroups_def joinGroups_distinct leaveGroups_distinct)

lemma applyMutation_ok:
  assumes "configs_ok cs" and "legalOp op"
  obtains c where "applyMutation op cs = Some (cs @ [c])" and "configs_ok (cs @ [c])"
    and "cfg_Groups c = nextGroups op (cfg_Groups (last cs))"
    and "op_Type op = ''Join'' \<or> op_Type op = ''Leave'' \<Longrightarrow> spread c"
proof -
  note thesis = that
  note last = configs_ok_last [OF assms(1)]
  let ?nc = "\<lparr>cfg_Num = cfg_Num (last cs) + 1, cfg_Shards = cfg_Shards (last cs), cfg_Groups = cfg_Groups (last cs)\<rparr>"
  have num: "cfg_Num ?nc = int (length cs)" and ok: "config_ok ?nc" using last(2,3) by (simp_all add: config_ok_def)
  have bal: thesis
    if "applyMutation op cs = map_option (\<lambda>c. cs @ [c]) (rebalance c')" and "config_ok c'"
      and "cfg_Num c' = int (length cs)" and "cfg_Groups c' = nextGroups op (cfg_Groups (last cs))" for c'
    by (rule rebalance_ok [OF \<open>config_ok c'\<close>], rule thesis)
      (use that configs_ok_snoc [OF assms(1)] in simp_all)
  consider (Join) "op_Type op = ''Join''" | (Leave) "op_Type op = ''Leave''" | (Move) "op_Type op = ''Move''"
    | (other) "op_Type op \<noteq> ''Join''" "op_Type op \<noteq> ''Leave''" "op_Type op \<noteq> ''Move''" by blast
  then show thesis
  proof cases
    case Join
    show thesis
      by (rule bal [of "?nc\<lparr>cfg_Groups := joinGroups (op_Servers op) (cfg_Groups ?nc)\<rparr>"])
        (use Join last num ok in \<open>simp_all add: applyMutation_def Let_def nextGroups_def config_ok_def joinGroups_distinct
           map_conv_bind_option comp_def\<close>)
  next
    case Leave
    show thesis
      by (rule bal [of "?nc\<lparr>cfg_Groups := leaveGroups (op_GIDs op) (cfg_Groups ?nc),
            cfg_Shards := unassignLeaving (op_GIDs op) (cfg_Shards ?nc)\<rparr>"])
        (use Leave last num ok in \<open>simp_all add: applyMutation_def Let_def nextGroups_def config_ok_def leaveGroups_distinct
           map_conv_bind_option comp_def unassignLeaving_def\<close>)
  next
    case Move
    then have "slice_set (cfg_Shards ?nc) (op_Shard op) (op_GID op) = Some ((cfg_Shards ?nc)[nat (op_Shard op) := op_GID op])"
      using assms(2) ok by (simp add: slice_set_def legalOp_def config_ok_def)
    with Move last num ok show thesis
      by (intro that [of "?nc\<lparr>cfg_Shards := (cfg_Shards ?nc)[nat (op_Shard op) := op_GID op]\<rparr>"] configs_ok_snoc [OF assms(1)])
        (simp_all add: applyMutation_def Let_def nextGroups_def config_ok_def)
  next
    case other
    with last num ok show thesis
      by (intro that [of ?nc] configs_ok_snoc [OF assms(1)]) (simp_all add: applyMutation_def Let_def nextGroups_def)
  qed
qed

subsection \<open>The contracts\<close>

text \<open>
  The step of the replicated part as a total function; a panic leaves no configurations.
\<close>

definition ctlTotal :: "Op \<Rightarrow> Config list option \<times> (int \<rightharpoonup> int) \<Rightarrow> Config list option \<times> (int \<rightharpoonup> int)" where
  "ctlTotal op st =
     (if op_Type op \<noteq> ''Query'' \<and> \<not> duplicate (snd st) (op_ClientId op) (op_Seq op)
      then (Option.bind (fst st) (applyMutation op), (snd st)(op_ClientId op \<mapsto> op_Seq op))
      else st)"

lemma applyOp_total:
  "map_option fst (applyOp op (cs, d)) = fst (ctlTotal op (Some cs, d))"
  "applyOp op (cs, d) = Some st \<Longrightarrow> ctlTotal op (Some cs, d) = (Some (fst st), snd st)"
  by (auto simp: applyOp_def ctlTotal_def duplicate_def option.map_comp comp_def option.map_ident split: option.splits if_splits)

lemma ctlTotal_None [simp]: "fst (ctlTotal op (None, d)) = None"
  by (simp add: ctlTotal_def)

lemma fold_ctlTotal_None [simp]: "fst (fold ctlTotal ops (None, d)) = None"
proof (induction ops arbitrary: d)
  case (Cons op ops)
  obtain d' where "ctlTotal op (None, d) = (None, d')" by (metis ctlTotal_None prod.collapse)
  with Cons show ?case by simp
qed simp

lemma consume_total: "map_option fst (consume applyOp ops (cs, d)) = fst (fold ctlTotal ops (Some cs, d))"
proof (induction ops arbitrary: cs d)
  case (Cons op ops)
  show ?case
  proof (cases "applyOp op (cs, d)")
    case None
    then have "fst (ctlTotal op (Some cs, d)) = None" using applyOp_total(1) [of op cs d] by simp
    then obtain d' where "ctlTotal op (Some cs, d) = (None, d')" by (metis prod.collapse)
    with None show ?thesis by simp
  next
    case (Some st)
    then show ?thesis using applyOp_total(2) [OF Some] Cons [of "fst st" "snd st"] by simp
  qed
qed simp

lemma consume_fold: "consume f xs s = fold (\<lambda>x y. Option.bind y (f x)) xs (Some s)"
proof -
  have "Option.bind y (consume f xs) = fold (\<lambda>x y. Option.bind y (f x)) xs y" for y
  proof (induction xs arbitrary: y)
    case Nil
    show ?case by (cases y) simp_all
  next
    case (Cons x xs)
    from Cons [of "Option.bind y (f x)"] show ?case by (cases y) simp_all
  qed
  from this [of "Some s"] show ?thesis by simp
qed

interpretation ctlOnce: exactly_once ctlTotal fst snd "\<lambda>op cs. if op_Type op \<noteq> ''Query'' then Option.bind cs (applyMutation op) else cs"
  "\<lambda>op. op_Type op \<noteq> ''Query''" op_ClientId op_Seq
  by unfold_locales (auto simp: ctlTotal_def)

definition ctl_ok :: "ShardCtrler \<Rightarrow> bool" where
  "ctl_ok sc \<longleftrightarrow> waiters_ok (sc_lastApplied sc) (sc_waiters sc) \<and> configs_ok (sc_configs sc)"

definition ctl_core :: "ShardCtrler \<Rightarrow> ctlstore" where
  "ctl_core sc = (sc_configs sc, sc_dedup sc)"

definition ctlStep :: "Op \<Rightarrow> ctlstore \<Rightarrow> ctlstore" where
  "ctlStep op st = (case applyOp op st of Some st' \<Rightarrow> st' | None \<Rightarrow> st)"

lemma applyOp_ok:
  assumes "configs_ok (fst st)" and "legalOp op"
  obtains st' where "applyOp op st = Some st'" and "configs_ok (fst st')"
proof -
  obtain c where "applyMutation op (fst st) = Some (fst st @ [c])" "configs_ok (fst st @ [c])"
    using applyMutation_ok [OF assms] by metis
  then show thesis using assms(1) by (intro that [of "ctlStep op st"]) (auto simp: applyOp_def ctlStep_def)
qed

lemma ctlMsg_new:
  assumes "ctl_ok sc" and "CommandValid m" and "sc_lastApplied sc < CommandIndex m" and "Command m = Some op" and "legalOp op"
  obtains sc' where "applyMsg m sc = Some sc'" and "ctl_ok sc'" and "sc_lastApplied sc' = CommandIndex m"
    and "ctl_core sc' = ctlStep op (ctl_core sc)"
proof -
  obtain st where st: "applyOp op (ctl_core sc) = Some st" "configs_ok (fst st)"
    using applyOp_ok [of "ctl_core sc" op] assms(1,5) by (auto simp: ctl_ok_def ctl_core_def)
  obtain w where w: "wake (CommandIndex m) op (sc_waiters sc) = Some w" "waiters_ok (CommandIndex m) w"
    using waiters_ok_wake [of "sc_lastApplied sc" "sc_waiters sc" "CommandIndex m" op] assms(1,3) unfolding ctl_ok_def by metis
  from assms(2-4) st w show thesis
    by (intro that [of "sc\<lparr>sc_lastApplied := CommandIndex m, sc_configs := fst st, sc_dedup := snd st, sc_waiters := w\<rparr>"])
      (simp_all add: applyMsg_def Let_def ctl_core_def ctl_ok_def ctlStep_def)
qed

interpretation ctlLog: command_machine applyMsg ctl_ok sc_lastApplied ctl_core ctlStep legalOp
proof
  fix sc :: ShardCtrler and m :: "(Op, 'd) ApplyMsg" and x
  assume "ctl_ok sc" "CommandValid m" "sc_lastApplied sc < CommandIndex m" "Command m = Some x" "legalOp x"
  then show "\<exists>s'. applyMsg m sc = Some s' \<and> ctl_ok s' \<and> sc_lastApplied s' = CommandIndex m \<and> ctl_core s' = ctlStep x (ctl_core sc)"
    using ctlMsg_new by metis
next
  fix sc :: ShardCtrler and m :: "(Op, 'd) ApplyMsg"
  assume "CommandValid m" "CommandIndex m \<le> sc_lastApplied sc"
  then show "applyMsg m sc = Some sc" by (simp add: applyMsg_def)
qed

lemma ctl_start:
  "ctl_ok (StartServer i)" "sc_lastApplied (StartServer i) = 0" "ctl_core (StartServer i) = ([noConfig], Map.empty)"
  by (simp_all add: StartServer_def ctl_ok_def ctl_core_def configs_ok_start waiters_ok_init)

lemma consume_applyOp:
  assumes "list_all legalOp ops" and "configs_ok (fst st)"
  shows "consume applyOp ops st = Some (fold ctlStep ops st)" and "configs_ok (fst (fold ctlStep ops st))"
proof -
  have "consume applyOp ops st = Some (fold ctlStep ops st) \<and> configs_ok (fst (fold ctlStep ops st))"
    using assms
  proof (induction ops arbitrary: st)
    case (Cons op ops)
    obtain st' where st': "applyOp op st = Some st'" "configs_ok (fst st')"
      using applyOp_ok [OF Cons.prems(2), of op] Cons.prems(1) by auto
    with Cons show ?case by (simp add: ctlStep_def)
  qed simp
  then show "consume applyOp ops st = Some (fold ctlStep ops st)" and "configs_ok (fst (fold ctlStep ops st))" by blast+
qed

subsection \<open>Properties\<close>

text \<open>
  (C20) The controller follows the log. A replica that is fed, in sequence, by the commands of a
  log neither panics nor blocks, and has the configurations and the table of clients that
  applying the first \<open>lastApplied\<close> commands of the log to the initial configuration gives.
\<close>

theorem ctl_follows_log:
  assumes "in_sequence ctlStep ([noConfig], Map.empty) enc ops 0 ms"
    and "list_all CommandValid ms" and "list_all legalOp ops"
  shows "\<exists>sc. consume applyMsg ms (StartServer i) = Some sc \<and>
    consume applyOp (take (nat (sc_lastApplied sc)) ops) ([noConfig], Map.empty) = Some (sc_configs sc, sc_dedup sc)"
proof -
  obtain sc where sc: "consume applyMsg ms (StartServer i) = Some sc"
    "ctl_core sc = stateAt ctlStep ([noConfig], Map.empty) ops (sc_lastApplied sc)"
  proof (rule ctlLog.commands_follow_log [OF _ assms(2,3) ctl_start(1) [of i]])
    show "in_sequence ctlStep ([noConfig], Map.empty) enc ops (sc_lastApplied (StartServer i)) ms"
      using assms(1) by (simp add: ctl_start)
  qed (simp_all add: ctl_start stateAt_def)
  have "list_all legalOp (take (nat (sc_lastApplied sc)) ops)" using assms(3) by (auto simp: list_all_iff dest: in_set_takeD)
  from consume_applyOp(1) [OF this, of "([noConfig], Map.empty)"] sc show ?thesis
    by (auto simp: configs_ok_start stateAt_def ctl_core_def)
qed

definition demoJoin :: Op where
  "demoJoin = opOfJoin \<lparr>ja_Servers = [(2, [''b'']), (1, [''a''])], ja_ClientId = 7, ja_Seq = 1\<rparr>"

definition demoMove :: Op where
  "demoMove = opOfMove \<lparr>ma_Shard = 3, ma_GID = 2, ma_ClientId = 7, ma_Seq = 2\<rparr>"

definition demoLeave :: Op where
  "demoLeave = opOfLeave \<lparr>la_GIDs = [1], la_ClientId = 8, la_Seq = 1\<rparr>"

definition demoMsgs :: "(Op, nat) ApplyMsg list" where
  "demoMsgs = [commandMsg (Some demoJoin) 1, commandMsg (Some demoMove) 2, commandMsg (Some demoMove) 2,
     commandMsg (Some demoMove) 3, commandMsg (Some demoLeave) 4]"

lemmas demo_ops = demoJoin_def demoMove_def demoLeave_def opOfJoin_def opOfMove_def opOfLeave_def noOp_def

theorem ctl_follows_log_witness:
  "\<exists>sc. consume applyMsg demoMsgs (StartServer 0) = Some sc \<and>
    consume applyOp (take (nat (sc_lastApplied sc)) [demoJoin, demoMove, demoMove, demoLeave]) ([noConfig], Map.empty) =
      Some (sc_configs sc, sc_dedup sc)"
  by (rule ctl_follows_log [of "\<lambda>_. []"]) (simp_all add: demoMsgs_def commandMsg_def fits_def legalOp_def demo_ops NShards_def)

text \<open>
  (C21) A query is answered with the configuration it asks for: in every state that the commands
  of a log lead to, the configuration at index \<open>k\<close> has number \<open>k\<close> and an owner for each of
  the \<open>NShards\<close> shards, and a number out of range gets the latest one.
\<close>

theorem ctl_query_numbered:
  assumes "list_all legalOp ops"
    and "consume applyOp ops ([noConfig], Map.empty) = Some (sc_configs sc, sc_dedup sc)"
  shows "\<exists>reply. queryReply True args sc = Some reply \<and> qr_Err reply = OK \<and> \<not> qr_WrongLeader reply \<and>
    length (cfg_Shards (qr_Config reply)) = NShards \<and> distinct (map fst (cfg_Groups (qr_Config reply))) \<and>
    cfg_Num (qr_Config reply) =
      (if 0 \<le> qa_Num args \<and> qa_Num args < int (length (sc_configs sc)) then qa_Num args else int (length (sc_configs sc)) - 1)"
proof -
  have ok: "configs_ok (sc_configs sc)"
    using consume_applyOp [OF assms(1), of "([noConfig], Map.empty)"] assms(2) configs_ok_start by (metis fst_conv option.inject)
  show ?thesis
  proof (cases "0 \<le> qa_Num args \<and> qa_Num args < int (length (sc_configs sc))")
    case True
    then have "nat (qa_Num args) < length (sc_configs sc)" by linarith
    then have "cfg_Num (sc_configs sc ! nat (qa_Num args)) = qa_Num args" "config_ok (sc_configs sc ! nat (qa_Num args))"
      using ok True unfolding configs_ok_def by simp_all
    with True show ?thesis by (auto simp: queryReply_def configAt_def slice_get_def config_ok_def)
  next
    case False
    with configs_ok_last [OF ok] show ?thesis by (auto simp: queryReply_def configAt_def config_ok_def)
  qed
qed

definition demoStore :: ctlstore where
  "demoStore = the (consume applyOp [demoJoin, demoMove, demoMove, demoLeave] ([noConfig], Map.empty))"

definition demoCtrler :: ShardCtrler where
  "demoCtrler = (StartServer 0)\<lparr>sc_configs := fst demoStore, sc_dedup := snd demoStore\<rparr>"

theorem ctl_query_numbered_witness:
  "\<exists>reply. queryReply True \<lparr>qa_Num = 2, qa_ClientId = 1, qa_Seq = 1\<rparr> demoCtrler = Some reply \<and> cfg_Num (qr_Config reply) = 2"
proof -
  have legal: "list_all legalOp [demoJoin, demoMove, demoMove, demoLeave]" by (simp add: legalOp_def demo_ops NShards_def)
  have "\<not> Option.is_none (consume applyOp [demoJoin, demoMove, demoMove, demoLeave] ([noConfig], Map.empty))" by code_simp
  then have run: "consume applyOp [demoJoin, demoMove, demoMove, demoLeave] ([noConfig], Map.empty) =
      Some (sc_configs demoCtrler, sc_dedup demoCtrler)"
    by (auto simp: Option.is_none_def demoCtrler_def demoStore_def)
  have "length (sc_configs demoCtrler) = 4" by code_simp
  with ctl_query_numbered [OF legal run, of "\<lparr>qa_Num = 2, qa_ClientId = 1, qa_Seq = 1\<rparr>"] show ?thesis by auto
qed



text \<open>
  (C23) What Join and Leave produce: the new configuration has the groups of the old one with the
  joining ones added, or without the leaving ones, and every one of its groups that can be
  given shards holds them in balance.
\<close>

theorem ctl_join_leave:
  assumes "configs_ok cs" and "op_Type op = ''Join'' \<or> op_Type op = ''Leave''" and "distinct (map fst (op_Servers op))"
  shows "\<exists>c. applyMutation op cs = Some (cs @ [c]) \<and> configs_ok (cs @ [c]) \<and>
    map_of (cfg_Groups c) = (if op_Type op = ''Join'' then map_of (cfg_Groups (last cs)) ++ map_of (op_Servers op)
                             else map_of (cfg_Groups (last cs)) |` (- set (op_GIDs op))) \<and>
    (if cfg_Groups c = [] then cfg_Shards c = replicate NShards 0 else balancedOver (map fst (cfg_Groups c)) (cfg_Shards c))"
proof -
  have "legalOp op" using assms(2) by (auto simp: legalOp_def)
  from applyMutation_ok [OF assms(1) this] obtain c where c: "applyMutation op cs = Some (cs @ [c])" "configs_ok (cs @ [c])"
    "cfg_Groups c = nextGroups op (cfg_Groups (last cs))" "spread c"
    using assms(2) by metis
  have "map_of (cfg_Groups c) = (if op_Type op = ''Join'' then map_of (cfg_Groups (last cs)) ++ map_of (op_Servers op)
      else map_of (cfg_Groups (last cs)) |` (- set (op_GIDs op)))"
    using assms(2,3) c(3) by (auto simp: nextGroups_def joinGroups_map leaveGroups_map)
  with c show ?thesis by (auto simp: spread_def)
qed

theorem ctl_join_leave_witness:
  "\<exists>c. applyMutation demoJoin [noConfig] = Some ([noConfig] @ [c]) \<and> balancedOver (map fst (cfg_Groups c)) (cfg_Shards c) \<and>
     map_of (cfg_Groups c) 2 = Some [''b'']"
proof -
  from ctl_join_leave [OF configs_ok_start, of demoJoin] obtain c where
    c: "applyMutation demoJoin [noConfig] = Some ([noConfig] @ [c])"
      "map_of (cfg_Groups c) = map_of [] ++ map_of [(2, [''b'']), (1, [''a''])]"
      "if cfg_Groups c = [] then cfg_Shards c = replicate NShards 0 else balancedOver (map fst (cfg_Groups c)) (cfg_Shards c)"
    by (auto simp: demo_ops noConfig_def)
  have two: "map_of (cfg_Groups c) 2 = Some [''b'']" using c(2) by simp
  then have "cfg_Groups c \<noteq> []" by auto
  with c(1,3) two show ?thesis by auto
qed

text \<open>
  A Move of a shard that does not exist stops the controller: every replica that applies
  the command panics, and so does it again when it replays its log.
\<close>

lemma ctl_move_panics:
  assumes "op_Type op = ''Move''" and "op_Shard op < 0 \<or> op_Shard op \<ge> int NShards"
    and "ctl_ok sc" and "sc_dedup sc (op_ClientId op) = None" and "sc_lastApplied sc < k"
  shows "applyMsg (commandMsg (Some op) k) sc = None"
proof -
  have "config_ok (last (sc_configs sc))" using assms(3) configs_ok_last by (auto simp: ctl_ok_def)
  then have "slice_set (cfg_Shards (last (sc_configs sc))) (op_Shard op) (op_GID op) = None"
    using assms(2) by (auto simp: slice_set_def config_ok_def)
  then have "applyMutation op (sc_configs sc) = None"
    using assms(1,3) configs_ok_last(1) by (simp add: applyMutation_def Let_def ctl_ok_def)
  then show ?thesis using assms(1,4,5) by (simp add: applyMsg_def commandMsg_def applyOp_def)
qed

end
