(* ===== verification/Replicated.thy ===== *)
theory Replicated
  imports RaftService KvRaft CtrlerProps
begin

section \<open>The services on a Raft cluster\<close>

text \<open>
  The key/value service and the shard controller fed by the cluster of \<open>RaftCluster\<close> itself, without
  snapshots: whatever the network, the scheduler and crashes do, the servers go through the states of one
  sequence of operations.
\<close>

lemma kv_fresh:
  "server_ok (StartKVServer i (MakePersister :: (int, kvgob) Persister) mr)"
  "kv_lastApplied (StartKVServer i (MakePersister :: (int, kvgob) Persister) mr) = 0"
  "kv_core (StartKVServer i (MakePersister :: (int, kvgob) Persister) mr) = (Map.empty, Map.empty)"
  by (simp_all add: StartKVServer_def readSnapshot_def ReadSnapshot_def MakePersister_def server_ok_def
      waiters_ok_init kv_core_def)

text \<open>
  The shard controller on a cluster. Its snapshots are never taken; a command that no replica can apply
  (a \<^verbatim>\<open>Move\<close> of a shard out of range) is excluded.
\<close>

lemma ctl_over_raft:
  assumes "run n evs (startCluster n) = Some s" and "list_all plain evs" and "\<forall>i < n. list_all legalOp (commands (delivered s i))"
  shows "\<exists>ops. \<forall>i < n. length (delivered s i) \<le> length ops \<and>
    (\<exists>sc. consume ShardCtrler.applyMsg (delivered s i) (StartServer i) = Some sc \<and> sc_lastApplied sc = int (length (delivered s i)) \<and>
       consume ShardCtrler.applyOp (take (length (delivered s i)) ops) ([noConfig], Map.empty) = Some (sc_configs sc, sc_dedup sc))"
proof -
  obtain ops where ops: "\<forall>i < n. commands (delivered s i) = take (length (delivered s i)) ops \<and> length (delivered s i) \<le> length ops"
    using one_history [OF assms(1,2)] by blast
  have "\<exists>sc. consume ShardCtrler.applyMsg (delivered s i) (StartServer i) = Some sc \<and> sc_lastApplied sc = int (length (delivered s i)) \<and>
      consume ShardCtrler.applyOp (commands (delivered s i)) ([noConfig], Map.empty) = Some (sc_configs sc, sc_dedup sc)" if "i < n" for i
  proof -
    have leg: "list_all legalOp (commands (delivered s i))" using assms(3) that by blast
    have "inOrder (sc_lastApplied (StartServer i)) (delivered s i)" using delivered_inOrder [OF assms(1,2)] by (simp add: ctl_start)
    from ctlLog.over_raft [OF ctl_start(1) this leg] consume_applyOp(1) [OF leg, of "([noConfig], Map.empty)"] show ?thesis
      unfolding ctl_start by (auto simp: configs_ok_start ctl_core_def)
  qed
  with ops show ?thesis by (intro exI [of _ ops]) metis
qed

text \<open>
  (C12) The replicated key/value service. Take any run of a Raft cluster in which no snapshot is taken
  (\<^verbatim>\<open>maxraftstate\<close> is -1), with messages lost, delayed and reordered and peers that crash and restart.
  There is one sequence of operations such that the server of every peer, fed with what its Raft peer delivers, does
  not block or panic and holds the store and the table of clients that the operations up to
  its last applied index give.
\<close>

theorem kv_over_raft:
  assumes "run n evs (startCluster n) = Some s" and "list_all plain evs"
  shows "\<exists>ops. \<forall>i < n. length (delivered s i) \<le> length ops \<and>
    (\<exists>kv. consume (kvHandle rsize) (delivered s i) (StartKVServer i (MakePersister :: (int, kvgob) Persister) (-1)) = Some kv \<and>
       kv_lastApplied kv = int (length (delivered s i)) \<and>
       kv_core kv = fold applyStore (take (length (delivered s i)) ops) (Map.empty, Map.empty))"
proof -
  obtain ops where ops: "\<forall>i < n. commands (delivered s i) = take (length (delivered s i)) ops \<and> length (delivered s i) \<le> length ops"
    using one_history [OF assms] by blast
  have "\<exists>kv. consume (kvHandle rsize) (delivered s i) (StartKVServer i (MakePersister :: (int, kvgob) Persister) (-1)) = Some kv \<and>
      kv_lastApplied kv = int (length (delivered s i)) \<and>
      kv_core kv = fold applyStore (commands (delivered s i)) (Map.empty, Map.empty)" for i
  proof -
    have o: "inOrder (kv_lastApplied (StartKVServer i (MakePersister :: (int, kvgob) Persister) (-1))) (delivered s i)"
      using delivered_inOrder [OF assms] by (simp add: kv_fresh)
    from kvlog.over_raft [OF kv_fresh(1) o, of rsize] show ?thesis unfolding kv_fresh by (auto simp: list_all_iff)
  qed
  with ops show ?thesis by (intro exI [of _ ops]) metis
qed

definition kvRun :: "(KvRaft.Op, kvgob) event list" where
  "kvRun = [Tick 0 (10000000000, 0), VoteHandle 0 1 (10000000000, 0), VoteReply 0 1, StartCmd 0 (putOp 1 1 ''a''), Send 1,
     AppendHandle 1 (10000000000, 0), AppendReply 1, ApplyStep 0, ApplySend 0, Beat 0, Send 2,
     AppendHandle 2 (10000000000, 0), ApplyStep 1, ApplySend 1]"

definition kvCluster :: "(KvRaft.Op, kvgob) cluster" where
  "kvCluster = the (run 2 kvRun (startCluster 2))"

theorem kv_over_raft_witness:
  "map_option kv_core (consume (kvHandle 0) (delivered kvCluster 0) (StartKVServer 0 (MakePersister :: (int, kvgob) Persister) (-1))) =
   map_option kv_core (consume (kvHandle 0) (delivered kvCluster 1) (StartKVServer 1 (MakePersister :: (int, kvgob) Persister) (-1)))"
proof -
  have "\<not> Option.is_none (run 2 kvRun (startCluster 2))" by code_simp
  then have run: "run 2 kvRun (startCluster 2) = Some kvCluster" by (simp add: kvCluster_def Option.is_none_def)
  have len: "length (delivered kvCluster 0) = 1" "length (delivered kvCluster 1) = 1" by code_simp+
  have "list_all plain kvRun" by (simp add: kvRun_def)
  from kv_over_raft [OF run this, of 0] obtain ops where ops: "\<forall>i < 2. length (delivered kvCluster i) \<le> length ops \<and>
      (\<exists>kv. consume (kvHandle 0) (delivered kvCluster i) (StartKVServer i (MakePersister :: (int, kvgob) Persister) (-1)) = Some kv \<and>
         kv_lastApplied kv = int (length (delivered kvCluster i)) \<and>
         kv_core kv = fold applyStore (take (length (delivered kvCluster i)) ops) (Map.empty, Map.empty))" by blast
  then have "map_option kv_core (consume (kvHandle 0) (delivered kvCluster i) (StartKVServer i (MakePersister :: (int, kvgob) Persister) (-1))) =
      Some (fold applyStore (take (length (delivered kvCluster i)) ops) (Map.empty, Map.empty))" if "i < 2" for i
    using that by fastforce
  from this [of 0] this [of 1] show ?thesis unfolding len by auto
qed

end
