(* ===== verification/RaftProps.thy ===== *)
theory RaftProps
  imports RaftSafety RaftRun
begin

section \<open>The properties of Raft\<close>

text \<open>
  What the simulation of \<open>RaftSafety\<close> says about the code's own state, each with an instance
  on a run of a cluster of two peers that \<open>RaftRun\<close> evaluates: peer 0 is elected, replicates
  a command, both peers commit and deliver it (\<open>demo\<close>), and both are restarted (\<open>demo2\<close>).
\<close>

definition demoClock :: clock where
  "demoClock = (10000000000, 0)"

definition demoRun :: "(int, int) event list" where
  "demoRun = [Tick 0 demoClock, VoteHandle 0 1 demoClock, VoteReply 0 1, StartCmd 0 7, Send 1,
     AppendHandle 1 demoClock, AppendReply 1, ApplyStep 0, ApplySend 0, Beat 0, Send 2,
     AppendHandle 2 demoClock, ApplyStep 1, ApplySend 1]"

definition demo :: "(int, int) cluster" where
  "demo = the (run 2 demoRun (startCluster 2))"

definition demoMore :: "(int, int) event list" where
  "demoMore = [AppendReply 2, Tick 1 (20000000000, 3), VoteHandle 1 0 demoClock, VoteReply 1 0]"

definition demo2 :: "(int, int) cluster" where
  "demo2 = the (run 2 demoMore demo)"

definition demoLater :: "(int, int) cluster" where
  "demoLater = the (run 2 [StartCmd 0 8, AppendReply 2] demo)"

lemma demo_run: "run 2 demoRun (startCluster 2) = Some demo"
proof -
  have "\<not> Option.is_none (run 2 demoRun (startCluster 2))" by code_simp
  then show ?thesis by (simp add: demo_def Option.is_none_def)
qed

lemma demo2_run: "run 2 demoMore demo = Some demo2"
proof -
  have "\<not> Option.is_none (run 2 demoMore demo)" by code_simp
  then show ?thesis by (simp add: demo2_def Option.is_none_def)
qed

lemma demoLater_steps: "(clusterStep 2)\<^sup>*\<^sup>* demo demoLater"
proof -
  have "\<not> Option.is_none (run 2 [StartCmd 0 8, AppendReply 2] demo)" by code_simp
  then have "run 2 [StartCmd 0 8, AppendReply 2] demo = Some demoLater"
    by (simp add: demoLater_def Option.is_none_def)
  then show ?thesis by (rule run_steps)
qed

lemmas demo_reach = run_reach [OF demo_run]
lemmas demo_steps = run_steps [OF demo2_run]

lemma demo_state:
  "delivered demo 0 = [commandMsg (Some 7) 1]" "delivered demo 1 = [commandMsg (Some 7) 1]"
  "role (nodes demo 0) = Leader" "currentTerm (nodes demo 0) = 1" "currentTerm (nodes demo 1) = 1"
  "commitIndex (nodes demo 0) = 1" "commitIndex (nodes demo 1) = 1" "votedFor (nodes demo 1) = 0"
  "lastIncludedIndex (nodes demo 0) = 0" "lastIncludedIndex (nodes demo 1) = 0"
  "entryAt (nodes demo 0) 1 = Some \<lparr>le_Term = 1, le_Command = Some 7\<rparr>"
  "entryAt (nodes demo 1) 1 = Some \<lparr>le_Term = 1, le_Command = Some 7\<rparr>"
  by code_simp+

lemma demo2_state:
  "role (nodes demo2 1) = Leader" "currentTerm (nodes demo2 1) = 2" "currentTerm (nodes demo2 0) = 2"
  by code_simp+

subsection \<open>Agreement\<close>

text \<open>
  (C1) State machine safety. In every run of the cluster, with messages lost, delayed and
  reordered and peers that crash and restart, if the service of a peer has received a command
  at an index from \<^verbatim>\<open>applyCh\<close>, no service of any peer ever receives another command at
  that index.
\<close>

theorem state_machine_safety:
  assumes "clusterReach n s" and "(clusterStep n)\<^sup>*\<^sup>* s s'"
    and "m \<in> set (delivered s i)" and "m' \<in> set (delivered s' j)"
    and "CommandValid m" and "CommandValid m'" and "CommandIndex m = CommandIndex m'"
  shows "Command m = Command m'"
  by (rule delivered_agree [OF assms])

theorem state_machine_safety_witness:
  "Command (delivered demo 0 ! 0) = Command (delivered demo 1 ! 0) \<and> Command (delivered demo 0 ! 0) = Some 7"
  using state_machine_safety [OF demo_reach rtranclp.rtrancl_refl, of "delivered demo 0 ! 0" 0 "delivered demo 1 ! 0" 1]
  by (simp add: demo_state commandMsg_def del: One_nat_def)

text \<open>
  (C2) Leader completeness. An entry that a peer has committed is in the log of every leader
  of the same or a later term, at any later time of the run, unless that leader's snapshot
  covers it.
\<close>

theorem leader_completeness:
  assumes "clusterReach n s" and "(clusterStep n)\<^sup>*\<^sup>* s s'" and "i < n" and "j < n"
    and "role (nodes s' j) = Leader" and "currentTerm (nodes s i) \<le> currentTerm (nodes s' j)"
    and "0 \<le> k" and "k \<le> commitIndex (nodes s i)"
  shows "k \<le> lastLogIndex (nodes s' j) \<and>
    (lastIncludedIndex (nodes s i) < k \<and> lastIncludedIndex (nodes s' j) < k \<longrightarrow>
     entryAt (nodes s' j) k = entryAt (nodes s i) k)"
proof -
  obtain a b where ab: "ainv n a" "cluster_rel n s a" "ainv n b" "cluster_rel n s' b" "extends a b"
    using cluster_two [OF assms(1,2)] .
  note di = node_okD [OF cluster_relD(1) [OF ab(2) assms(3)]] and okj = cluster_relD(1) [OF ab(4) assms(4)]
  note dj = node_okD [OF okj] and ll = leader_log [OF okj assms(5) ab(3)]
  let ?F = "alog a i" and ?G = "alog b j" and ?c = "commitIndex (nodes s i)"
  have "commit_rel n b (aterm a i) ?F ?c" by (rule commit_rel_mono [OF di(4) ab(5) order_refl refl])
  moreover have "sourced (llog b) ?F"
    using sourced_mono [OF log_invD(1) [OF ainvD(1) [OF ab(1)]] extendsD(2) [OF ab(5)]] .
  ultimately have eq: "take (Suc (nat ?c)) ?F = take (Suc (nat ?c)) ?G"
    using commit_rel_leader [OF ab(3) _ _ dj(7) [OF assms(5)]] assms(6) di(2) dj(2) ll(1) by simp
  have len: "k < int (length ?F)" using assms(8) node_relD(5) [OF di(1)] by simp
  have lenG: "k < int (length ?G)"
    using take_eq_length [OF eq] assms(7,8) node_relD(5) [OF di(1)] by linarith
  have "?F ! nat k = ?G ! nat k" by (rule take_eq_nth [OF eq]) (use assms(7,8) len in auto)
  then show ?thesis
    using node_rel_entry [OF di(1) _ len] node_rel_entry [OF dj(1) _ lenG] node_rel_last [OF dj(1)] lenG by auto
qed

theorem leader_completeness_witness:
  "1 \<le> lastLogIndex (nodes demo2 1) \<and> entryAt (nodes demo2 1) 1 = entryAt (nodes demo 0) 1"
proof -
  have "lastIncludedIndex (nodes demo2 1) < 1" by code_simp
  then show ?thesis
    using leader_completeness [OF demo_reach demo_steps, of 0 1 1] by (simp add: demo_state demo2_state del: One_nat_def)
qed

text \<open>
  (C3) Election safety. Two peers that are leader in the same term, at whatever times of the
  run, are the same peer.
\<close>

theorem election_safety:
  assumes "clusterReach n s" and "(clusterStep n)\<^sup>*\<^sup>* s s'" and "i < n" and "j < n"
    and "role (nodes s i) = Leader" and "role (nodes s' j) = Leader"
    and "currentTerm (nodes s i) = currentTerm (nodes s' j)"
  shows "i = j"
  by (rule leader_agree [OF assms])

theorem election_safety_witness:
  "hd (filter (\<lambda>i. role (nodes demo i) = Leader) [0..<2]) =
   hd (filter (\<lambda>i. role (nodes demoLater i) = Leader) [0..<2])"
proof -
  have "role (nodes demoLater 0) = Leader" "currentTerm (nodes demoLater 0) = 1"
    "hd (filter (\<lambda>i. role (nodes demo i) = Leader) [0..<2]) = 0"
    "hd (filter (\<lambda>i. role (nodes demoLater i) = Leader) [0..<2]) = 0"
    by code_simp+
  then show ?thesis
    using election_safety [OF demo_reach demoLater_steps, of "hd (filter (\<lambda>i. role (nodes demo i) = Leader) [0..<2])"
        "hd (filter (\<lambda>i. role (nodes demoLater i) = Leader) [0..<2])"]
    by (simp add: demo_state)
qed

text \<open>
  (C4) Log matching. If the logs of two peers have an entry of the same term at an index, they
  have the same entries at that index and at every index before it that neither snapshot
  has replaced.
\<close>

theorem log_matching:
  assumes "clusterReach n s" and "i < n" and "j < n"
    and "lastIncludedIndex (nodes s i) \<le> k" and "lastIncludedIndex (nodes s j) \<le> k"
    and "termAt (nodes s i) k = Some t" and "termAt (nodes s j) k = Some t"
    and "lastIncludedIndex (nodes s i) < k'" and "lastIncludedIndex (nodes s j) < k'" and "k' \<le> k"
  shows "entryAt (nodes s i) k' = entryAt (nodes s j) k'"
proof -
  obtain a where a: "ainv n a" "cluster_rel n s a" using cluster_reach_rel [OF assms(1)] by blast
  note ri = node_okD(1) [OF cluster_relD(1) [OF a(2) assms(2)]] and rj = node_okD(1) [OF cluster_relD(1) [OF a(2) assms(3)]]
  note ti = termAt_rel [OF ri assms(6,4)] and tj = termAt_rel [OF rj assms(7,5)]
  have "take (Suc (nat k)) (alog a i) = take (Suc (nat k)) (alog a j)"
    by (rule sourced_match [OF log_invD(1) [OF ainvD(1) [OF a(1)]] log_invD(1) [OF ainvD(1) [OF a(1)]]])
      (use ti tj assms(4) node_relD(3) [OF ri] in auto)
  then have "alog a i ! nat k' = alog a j ! nat k'"
    by (rule take_eq_nth) (use assms(8,10) ti(1) node_relD(3) [OF ri] in auto)
  then show ?thesis
    using node_rel_entry [OF ri assms(8)] node_rel_entry [OF rj assms(9)] ti(1) tj(1) assms(10) by simp
qed

theorem log_matching_witness:
  "entryAt (nodes demo 0) 1 = entryAt (nodes demo 1) 1 \<and> entryAt (nodes demo 0) 1 \<noteq> None"
proof -
  have "termAt (nodes demo 0) 1 = Some 1" "termAt (nodes demo 1) 1 = Some 1" by code_simp+
  then show ?thesis using log_matching [OF demo_reach, of 0 1 1 1 1] by (simp add: demo_state del: One_nat_def)
qed

text \<open>
  (C5) No goroutine of the cluster panics: in no reachable state does a handler index a slice
  out of its bounds or ask for a slice of negative length.
\<close>

theorem no_panic:
  assumes "clusterReach n s"
  shows "\<not> clusterPanic n s"
  using cluster_reach_rel [OF assms] cluster_rel_no_panic by blast

theorem no_panic_witness: "\<not> clusterPanic 2 demo2"
  using no_panic [OF steps_reach [OF demo_steps demo_reach]] .

text \<open>
  (C6) The term of a peer never decreases, and a peer votes for at most one candidate in a
  term, across any number of crashes and restarts.
\<close>

theorem one_vote_per_term:
  assumes "clusterReach n s" and "(clusterStep n)\<^sup>*\<^sup>* s s'" and "i < n"
  shows "currentTerm (nodes s i) \<le> currentTerm (nodes s' i) \<and>
    (currentTerm (nodes s' i) = currentTerm (nodes s i) \<and> votedFor (nodes s i) \<noteq> -1 \<longrightarrow>
     votedFor (nodes s' i) = votedFor (nodes s i))"
proof -
  obtain a b where ab: "ainv n a" "cluster_rel n s a" "ainv n b" "cluster_rel n s' b" "extends a b"
    using cluster_two [OF assms(1,2)] .
  note d = node_okD [OF cluster_relD(1) [OF ab(2) assms(3)]] and d' = node_okD [OF cluster_relD(1) [OF ab(4) assms(3)]]
  have "avote b t i = avote a t i" if "avote a t i \<noteq> None" for t
    using that extendsD(5) [OF ab(5), of t i] by fastforce
  then show ?thesis
    using d(2,3) d'(2,3) extendsD(4) [OF ab(5), of i] voteOf_eq(1) by metis
qed

theorem one_vote_per_term_witness:
  "currentTerm (nodes demo 0) \<le> currentTerm (nodes demo2 0) \<and> votedFor (nodes demo 1) = 0"
  using one_vote_per_term [OF demo_reach demo_steps, of 0] by (simp add: demo_state del: One_nat_def)

text \<open>
  (C7) A restart loses nothing that Raft relies on: a peer that \<^verbatim>\<open>Make\<close> builds from a copy
  of its stable storage has the term, the vote, the log and the snapshot boundary it had when it
  stopped, is a follower, and resumes from its snapshot.
\<close>

theorem restart_keeps:
  assumes "clusterReach n s" and "i < n" and "rf = Make clk n i (Copy (persister (nodes s i)))"
  shows "currentTerm rf = currentTerm (nodes s i) \<and> votedFor rf = votedFor (nodes s i) \<and>
    log rf = log (nodes s i) \<and> lastIncludedIndex rf = lastIncludedIndex (nodes s i) \<and>
    lastIncludedTerm rf = lastIncludedTerm (nodes s i) \<and> role rf = Follower \<and>
    commitIndex rf = lastIncludedIndex rf \<and> lastApplied rf = lastIncludedIndex rf"
proof -
  obtain a where a: "ainv n a" "cluster_rel n s a" using cluster_reach_rel [OF assms(1)] by blast
  note r = node_okD(1) [OF cluster_relD(1) [OF a(2) assms(2)]]
  note m = Make_rel [OF r, of clk]
  show ?thesis
    using m(2-7) node_relD(8,9) [OF r] node_relD(8,9) [OF m(1)] unfolding assms(3) by simp
qed

theorem restart_keeps_witness:
  "currentTerm (Make demoClock 2 1 (Copy (persister (nodes demo 1)))) = 1 \<and>
   votedFor (Make demoClock 2 1 (Copy (persister (nodes demo 1)))) = 0"
  using restart_keeps [OF demo_reach _ refl, of 1 demoClock] by (simp add: demo_state del: One_nat_def)

end
