(* ===== verification/Harness.thy ===== *)
theory Harness
  imports RaftService RaftProps "HOL-Library.AList"
begin

section \<open>The checks of the Raft test harness\<close>

text \<open>
  The checks of \<^verbatim>\<open>raft/config.go\<close>, with which the tests of Raft watch a cluster: the log that
  the harness keeps of what each server has applied (\<^verbatim>\<open>checkLogs\<close>, \<^verbatim>\<open>applier\<close>), how many
  servers have committed an index (\<^verbatim>\<open>nCommitted\<close>), and who leads (\<^verbatim>\<open>checkOneLeader\<close>, \<^verbatim>\<open>checkTerms\<close>,
  \<^verbatim>\<open>checkNoLeader\<close>). A check that ends the test, by \<^verbatim>\<open>log.Fatalf\<close> or \<^verbatim>\<open>t.Fatalf\<close>, has no result. They are
  run on the cluster of \<open>RaftCluster\<close> (\<open>watch\<close>), and never fail there.
\<close>

subsection \<open>What the harness remembers\<close>

record 'c config =
  hc_logs :: "(int \<rightharpoonup> 'c option) list"
  hc_maxIndex :: int

definition makeLogs :: "nat \<Rightarrow> 'c config" where
  "makeLogs n = \<lparr>hc_logs = replicate n Map.empty, hc_maxIndex = 0\<rparr>"

datatype applyErr = Differs nat nat int | OutOfOrder nat int

text \<open>The loop over the logs of the servers; the last one that differs is reported.\<close>

fun compareLogs :: "nat \<Rightarrow> nat \<Rightarrow> ('c, 'd) ApplyMsg \<Rightarrow> (int \<rightharpoonup> 'c option) list \<Rightarrow> applyErr option \<Rightarrow> applyErr option" where
  "compareLogs i j m [] err = err"
| "compareLogs i j m (l # ls) err =
     compareLogs i (Suc j) m ls
       (case l (CommandIndex m) of
          Some old \<Rightarrow> if old \<noteq> Command m then Some (Differs i j (CommandIndex m)) else err
        | None \<Rightarrow> err)"

definition checkLogs :: "nat \<Rightarrow> ('c, 'd) ApplyMsg \<Rightarrow> 'c config \<Rightarrow> (applyErr option \<times> bool \<times> 'c config) option" where
  "checkLogs i m cfg =
     do { let err = compareLogs i 0 m (hc_logs cfg) None;
          l \<leftarrow> slice_get (hc_logs cfg) (int i);
          let prevok = (l (CommandIndex m - 1) \<noteq> None);
          logs \<leftarrow> slice_set (hc_logs cfg) (int i) (l(CommandIndex m \<mapsto> Command m));
          Some (err, prevok, cfg\<lparr>hc_logs := logs,
            hc_maxIndex := (if CommandIndex m > hc_maxIndex cfg then CommandIndex m else hc_maxIndex cfg)\<rparr>) }"

definition harnessApply :: "nat \<Rightarrow> ('c, 'd) ApplyMsg \<Rightarrow> 'c config \<Rightarrow> 'c config option" where
  "harnessApply i m cfg =
     (if \<not> CommandValid m then Some cfg
      else do { (err, prevok, cfg) \<leftarrow> checkLogs i m cfg;
                let err = (if CommandIndex m > 1 \<and> \<not> prevok then Some (OutOfOrder i (CommandIndex m)) else err);
                if err \<noteq> None then None else Some cfg })"

text \<open>The count of the servers that have committed an index, and the command.\<close>

fun committedLoop :: "int \<Rightarrow> (int \<rightharpoonup> 'c option) list \<Rightarrow> int \<Rightarrow> 'c option \<Rightarrow> (int \<times> 'c option) option" where
  "committedLoop index [] count cmd = Some (count, cmd)"
| "committedLoop index (l # ls) count cmd =
     (case l index of
        Some cmd1 \<Rightarrow> if count > 0 \<and> cmd \<noteq> cmd1 then None else committedLoop index ls (count + 1) cmd1
      | None \<Rightarrow> committedLoop index ls count cmd)"

definition nCommitted :: "int \<Rightarrow> 'c config \<Rightarrow> (int \<times> 'c option) option" where
  "nCommitted index cfg = committedLoop index (hc_logs cfg) 0 None"

subsection \<open>Who leads\<close>

text \<open>
  The answers of \<^verbatim>\<open>GetState\<close> of the connected servers, in the order in which they are asked. One round of
  \<^verbatim>\<open>checkOneLeader\<close>: the map from terms to leaders, then the latest term; \<open>Some None\<close> when nobody leads and another
  round is made.
\<close>

fun leadersOf :: "(nat \<times> int \<times> bool) list \<Rightarrow> (int \<times> nat list) list \<Rightarrow> (int \<times> nat list) list" where
  "leadersOf [] ls = ls"
| "leadersOf ((i, term, leader) # answers) ls =
     leadersOf answers
       (if leader then AList.update term ((case map_of ls term of Some is \<Rightarrow> is | None \<Rightarrow> []) @ [i]) ls else ls)"

fun lastTerm :: "(int \<times> nat list) list \<Rightarrow> int \<Rightarrow> int option" where
  "lastTerm [] t = Some t"
| "lastTerm ((term, is) # ls) t = (if length is > 1 then None else lastTerm ls (if term > t then term else t))"

definition oneLeaderRound :: "(nat \<times> int \<times> bool) list \<Rightarrow> nat option option" where
  "oneLeaderRound answers =
     do { let leaders = leadersOf answers [];
          t \<leftarrow> lastTerm leaders (-1);
          if leaders \<noteq> []
          then do { is \<leftarrow> Some (case map_of leaders t of Some is \<Rightarrow> is | None \<Rightarrow> []); i \<leftarrow> slice_get is 0; Some (Some i) }
          else Some None }"

fun checkOneLeader :: "(nat \<times> int \<times> bool) list list \<Rightarrow> nat option" where
  "checkOneLeader [] = None"
| "checkOneLeader (answers # rounds) =
     (case oneLeaderRound answers of
        None \<Rightarrow> None
      | Some (Some i) \<Rightarrow> Some i
      | Some None \<Rightarrow> checkOneLeader rounds)"

fun termsLoop :: "(nat \<times> int \<times> bool) list \<Rightarrow> int \<Rightarrow> int option" where
  "termsLoop [] term = Some term"
| "termsLoop ((i, xterm, leader) # answers) term =
     (if term = -1 then termsLoop answers xterm
      else if term \<noteq> xterm then None
      else termsLoop answers term)"

definition checkTerms :: "(nat \<times> int \<times> bool) list \<Rightarrow> int option" where
  "checkTerms answers = termsLoop answers (-1)"

fun checkNoLeader :: "(nat \<times> int \<times> bool) list \<Rightarrow> unit option" where
  "checkNoLeader [] = Some ()"
| "checkNoLeader ((i, term, is_leader) # answers) = (if is_leader then None else checkNoLeader answers)"

subsection \<open>The harness watches a cluster\<close>

text \<open>A step of the cluster, with the goroutine of the harness that reads what a server delivers.\<close>

definition watchStep :: "nat \<Rightarrow> ('c, 'd) event \<Rightarrow> ('c, 'd) cluster \<Rightarrow> 'c config \<Rightarrow> 'c config option" where
  "watchStep n ev s cfg =
     (case ev of
        ApplySend i \<Rightarrow> (case sending s i of Some m \<Rightarrow> harnessApply i m cfg | None \<Rightarrow> Some cfg)
      | InstallDeliver k \<Rightarrow>
          (case rp_stage (repls s ! k) of InstallHandled args reply m ep \<Rightarrow> harnessApply (rp_server (repls s ! k)) m cfg | _ \<Rightarrow> Some cfg)
      | _ \<Rightarrow> Some cfg)"

fun watch :: "nat \<Rightarrow> ('c, 'd) event list \<Rightarrow> ('c, 'd) cluster \<Rightarrow> 'c config \<Rightarrow> (('c, 'd) cluster \<times> 'c config) option" where
  "watch n [] s cfg = Some (s, cfg)"
| "watch n (ev # evs) s cfg = do { s' \<leftarrow> exec n ev s; cfg \<leftarrow> watchStep n ev s cfg; watch n evs s' cfg }"

definition received :: "nat \<Rightarrow> ('c, 'd) cluster \<Rightarrow> int \<Rightarrow> 'c option \<Rightarrow> bool" where
  "received n s x v \<longleftrightarrow> (\<exists>s0 j m. clusterReach n s0 \<and> (clusterStep n)\<^sup>*\<^sup>* s0 s \<and> m \<in> set (delivered s0 j) \<and>
     CommandValid m \<and> CommandIndex m = x \<and> Command m = v)"

text \<open>
  The invariant: the harness has what the services have received, every entry it has was received at
  some time, and no two logs differ.
\<close>

definition watched :: "nat \<Rightarrow> ('c, 'd) cluster \<Rightarrow> 'c config \<Rightarrow> bool" where
  "watched n s cfg \<longleftrightarrow> length (hc_logs cfg) = n \<and>
     (\<forall>i < n. \<forall>m \<in> set (delivered s i). (hc_logs cfg ! i) (CommandIndex m) = Some (Command m)) \<and>
     (\<forall>l \<in> set (hc_logs cfg). \<forall>x v. l x = Some v \<longrightarrow> received n s x v) \<and>
     (\<forall>l \<in> set (hc_logs cfg). \<forall>l' \<in> set (hc_logs cfg). \<forall>x v w. l x = Some v \<longrightarrow> l' x = Some w \<longrightarrow> v = w)"

lemma received_step: "received n s x v \<Longrightarrow> clusterStep n s s' \<Longrightarrow> received n s' x v"
  unfolding received_def by (elim exE conjE, intro exI conjI) (assumption | rule rtranclp.rtrancl_into_rtrancl)+

lemma received_agree:
  assumes "received n s x v" and "m \<in> set (delivered s i)" and "CommandValid m" and "CommandIndex m = x"
  shows "v = Command m"
proof -
  obtain s0 j m0 where "clusterReach n s0" "(clusterStep n)\<^sup>*\<^sup>* s0 s" "m0 \<in> set (delivered s0 j)" "CommandValid m0"
      "CommandIndex m0 = x" "Command m0 = v" using assms(1) by (auto simp: received_def)
  with delivered_agree [of n s0 s m0 j m i] assms(2-4) show ?thesis by simp
qed

lemma compareLogs_none:
  assumes "\<And>l old. l \<in> set ls \<Longrightarrow> l (CommandIndex m) = Some old \<Longrightarrow> old = Command m"
  shows "compareLogs i j m ls None = None"
  using assms
proof (induction ls arbitrary: j)
  case (Cons l ls)
  then show ?case by (cases "l (CommandIndex m)") auto
qed simp

text \<open>What a step does to what the services have received.\<close>

lemma exec_delivered:
  assumes "exec n ev s = Some s'" and "quiet s" and "plain ev"
  shows "(\<exists>i m. ev = ApplySend i \<and> i < n \<and> sending s i = Some m \<and> delivered s' = (delivered s)(i := delivered s i @ [m])) \<or>
    (\<exists>i. delivered s' = (delivered s)(i := [])) \<and> watchStep n ev s cfg = Some cfg \<or>
    delivered s' = delivered s \<and> watchStep n ev s cfg = Some cfg"
proof (cases ev)
  case (InstallDeliver k)
  then show ?thesis using assms(1) quietD(4) [OF assms(2), of k]
    by (auto simp: exec_def split: if_splits repl_stage.splits)
next
  case (ApplySend i)
  then show ?thesis using assms(1) by (auto simp: exec_def deliver_def split: if_splits)
next
  case (Crash i clk)
  then show ?thesis using assms(1) by (auto simp: exec_def watchStep_def split: if_splits)
qed (use assms in \<open>auto simp: exec_def watchStep_def cluster_updates Let_def split: if_splits option.splits vote_stage.splits prod.splits repl_stage.splits\<close>)

lemma watchedD:
  assumes "watched n s cfg"
  shows "length (hc_logs cfg) = n"
    and "\<And>i m. i < n \<Longrightarrow> m \<in> set (delivered s i) \<Longrightarrow> (hc_logs cfg ! i) (CommandIndex m) = Some (Command m)"
    and "\<And>l x v. l \<in> set (hc_logs cfg) \<Longrightarrow> l x = Some v \<Longrightarrow> received n s x v"
    and "\<And>l l' x v w. l \<in> set (hc_logs cfg) \<Longrightarrow> l' \<in> set (hc_logs cfg) \<Longrightarrow> l x = Some v \<Longrightarrow> l' x = Some w \<Longrightarrow> v = w"
  using assms by (auto simp: watched_def)

text \<open>
  Message \<open>m\<close> is what the step to \<open>s'\<close> has delivered to server \<open>i\<close>. No log has another command at its
  index, and the invariant holds again after it is entered.
\<close>

definition delivers :: "nat \<Rightarrow> ('c, 'd) cluster \<Rightarrow> nat \<Rightarrow> ('c, 'd) ApplyMsg \<Rightarrow> ('c, 'd) cluster \<Rightarrow> bool" where
  "delivers n s i m s' \<longleftrightarrow> i < n \<and> CommandValid m \<and> clusterReach n s' \<and> clusterStep n s s' \<and>
     delivered s' = (delivered s)(i := delivered s i @ [m])"

lemma watched_old:
  assumes "watched n s cfg" and "delivers n s i m s'" and "l \<in> set (hc_logs cfg)" and "l (CommandIndex m) = Some v"
  shows "v = Command m"
proof -
  have "received n s' (CommandIndex m) v"
    using received_step [OF watchedD(3) [OF assms(1,3,4)]] assms(2) by (simp add: delivers_def)
  then show ?thesis by (rule received_agree [of n s' _ v m i]) (use assms(2) in \<open>simp_all add: delivers_def\<close>)
qed

lemma watched_put:
  assumes w: "watched n s cfg" and d: "delivers n s i m s'"
  shows "watched n s' (cfg\<lparr>hc_logs := (hc_logs cfg)[i := (hc_logs cfg ! i)(CommandIndex m \<mapsto> Command m)], hc_maxIndex := k\<rparr>)"
proof -
  let ?ls = "hc_logs cfg"
  let ?l = "(?ls ! i)(CommandIndex m \<mapsto> Command m)"
  have i: "i < n" and st: "clusterStep n s s'" and dd: "delivered s' = (delivered s)(i := delivered s i @ [m])"
    using d by (simp_all add: delivers_def)
  note len = watchedD(1) [OF w]
  have li: "?ls ! i \<in> set ?ls" using i len by simp
  have mem: "l \<in> set ?ls \<or> l = ?l" if "l \<in> set (?ls[i := ?l])" for l using that by (metis insertE set_update_subset_insert subsetD)
  have old: "v = Command m" if "l \<in> set (?ls[i := ?l])" "l (CommandIndex m) = Some v" for l v
    using mem [OF that(1)] watched_old [OF w d] that(2) by auto
  have "received n s' x v" if "l \<in> set (?ls[i := ?l])" "l x = Some v" for l x v
  proof -
    have "received n s' (CommandIndex m) (Command m)"
      unfolding received_def using d by (intro exI [of _ s'] exI [of _ i] exI [of _ m]) (simp add: delivers_def)
    then show ?thesis using mem [OF that(1)] that(2) received_step [OF watchedD(3) [OF w] st] li by (auto split: if_splits)
  qed
  moreover have "v = v'" if "l \<in> set (?ls[i := ?l])" "l' \<in> set (?ls[i := ?l])" "l x = Some v" "l' x = Some v'" for l l' x v v'
  proof (cases "x = CommandIndex m")
    case False
    then show ?thesis using mem [OF that(1)] mem [OF that(2)] that(3,4) watchedD(4) [OF w] li by (auto split: if_splits)
  qed (use that old in blast)
  moreover have "(?ls[i := ?l] ! k) (CommandIndex m') = Some (Command m')" if "k < n" "m' \<in> set (delivered s' k)" for k m'
  proof (cases "k = i")
    case True
    with that dd have "m' = m \<or> (?ls ! i) (CommandIndex m') = Some (Command m')" using watchedD(2) [OF w i] by auto
    then show ?thesis using True i len watched_old [OF w d li] by (auto split: if_splits)
  qed (use that dd watchedD(2) [OF w that(1)] in simp)
  ultimately show ?thesis using len unfolding watched_def by simp
qed

text \<open>The harness accepts the message.\<close>

lemma harnessApply_ok:
  assumes w: "watched n s cfg" and d: "delivers n s i m s'" and m: "inOrder 0 (delivered s i @ [m])"
  shows "\<exists>cfg'. harnessApply i m cfg = Some cfg' \<and> watched n s' cfg'"
proof -
  have i: "i < n" and val: "CommandValid m" using d by (simp_all add: delivers_def)
  have prev: "(hc_logs cfg ! i) (CommandIndex m - 1) \<noteq> None" if "CommandIndex m > 1"
  proof -
    have ord: "inOrder 0 (delivered s i)" "CommandIndex m = int (length (delivered s i)) + 1"
      using m by (simp_all add: inOrder_append)
    then have k: "length (delivered s i) - 1 < length (delivered s i)" using that by auto
    from inOrder_nth [OF ord(1) k] have "CommandIndex (delivered s i ! (length (delivered s i) - 1)) = CommandIndex m - 1"
      using ord(2) k by (simp add: of_nat_diff)
    with watchedD(2) [OF w i nth_mem [OF k]] show ?thesis by simp
  qed
  have "compareLogs i 0 m (hc_logs cfg) None = None" by (rule compareLogs_none) (rule watched_old [OF w d])
  with prev i val watchedD(1) [OF w] have "harnessApply i m cfg =
      Some (cfg\<lparr>hc_logs := (hc_logs cfg)[i := (hc_logs cfg ! i)(CommandIndex m \<mapsto> Command m)],
        hc_maxIndex := (if CommandIndex m > hc_maxIndex cfg then CommandIndex m else hc_maxIndex cfg)\<rparr>)"
    by (auto simp: harnessApply_def checkLogs_def slice_get_def slice_set_def)
  with watched_put [OF w d] show ?thesis by blast
qed

lemma watched_other:
  assumes "watched n s cfg" and "clusterStep n s s'" and "\<And>i. set (delivered s' i) \<subseteq> set (delivered s i)"
  shows "watched n s' cfg"
  unfolding watched_def using watchedD [OF assms(1)] received_step [OF _ assms(2)] assms(3)
  by (intro conjI ballI allI impI) (assumption | blast)+

lemma watch_ok:
  assumes "quiet s" and "clusterReach n s" and "watched n s cfg" and "run n evs s = Some s'" and "list_all plain evs"
  shows "\<exists>cfg'. watch n evs s cfg = Some (s', cfg') \<and> watched n s' cfg'"
  using assms
proof (induction evs arbitrary: s cfg)
  case (Cons ev evs)
  then obtain s1 where s1: "exec n ev s = Some s1" "run n evs s1 = Some s'" by (auto split: option.splits)
  have pl: "plain ev" "list_all plain evs" using Cons.prems(5) by simp_all
  have step: "clusterStep n s s1" by (rule exec_sound [OF s1(1)])
  have q1: "quiet s1" using run_quiet [of n "[ev]" s s1] s1(1) Cons.prems(1) pl(1) by simp
  have r1: "clusterReach n s1" using Cons.prems(2) step by (rule reaches_step)
  have "\<exists>cfg1. watchStep n ev s cfg = Some cfg1 \<and> watched n s1 cfg1"
    using exec_delivered [OF s1(1) Cons.prems(1) pl(1), of cfg]
  proof (elim disjE)
    assume "\<exists>i m. ev = ApplySend i \<and> i < n \<and> sending s i = Some m \<and> delivered s1 = (delivered s)(i := delivered s i @ [m])"
    then obtain i m where m: "ev = ApplySend i" "i < n" "sending s i = Some m" "delivered s1 = (delivered s)(i := delivered s i @ [m])" by blast
    have "inOrder 0 (delivered s i @ [m])" using quietD(2) [OF Cons.prems(1), of i] m(3) by (simp add: queue_def)
    moreover then have "delivers n s i m s1" using m(2,4) r1 step by (simp add: delivers_def inOrder_append)
    ultimately show ?thesis using harnessApply_ok [OF Cons.prems(3)] m by (simp add: watchStep_def)
  qed (use watched_other [OF Cons.prems(3) step] in auto)
  then show ?case using s1(1) Cons.IH [OF q1 r1 _ s1(2) pl(2)] by auto
qed simp

lemma committedLoop_ok:
  "\<forall>l \<in> set ls. l x = None \<or> l x = Some v \<Longrightarrow> (0 < count \<longrightarrow> cmd = v) \<Longrightarrow> 0 \<le> count \<Longrightarrow>
   \<exists>cmd'. committedLoop x ls count cmd = Some (count + int (length (filter (\<lambda>l. l x \<noteq> None) ls)), cmd')"
proof (induction ls arbitrary: count cmd)
  case (Cons l ls)
  have ls: "\<forall>l \<in> set ls. l x = None \<or> l x = Some v" using Cons.prems(1) by simp
  show ?case
  proof (cases "l x")
    case None
    with Cons.IH [OF ls Cons.prems(2,3)] show ?thesis by simp
  next
    case (Some u)
    with Cons.prems(1) have "u = v" by simp
    with Some Cons.IH [OF ls, of "count + 1" v] Cons.prems(2,3) show ?thesis by (auto simp: algebra_simps)
  qed
qed simp

lemma nCommitted_ok:
  assumes "watched n s cfg"
  shows "\<exists>cmd. nCommitted x cfg = Some (int (length (filter (\<lambda>l. l x \<noteq> None) (hc_logs cfg))), cmd)"
proof -
  obtain v where "\<forall>l \<in> set (hc_logs cfg). l x = None \<or> l x = Some v"
    using watchedD(4) [OF assms, of _ _ x] by (metis not_Some_eq)
  from committedLoop_ok [OF this, of 0 None] show ?thesis by (simp add: nCommitted_def)
qed

lemma watched_start: "watched n (startCluster n) (makeLogs n)"
  by (simp add: watched_def makeLogs_def startCluster_def)

subsection \<open>The poll for leaders\<close>

text \<open>
  The servers are asked one after the other, while the cluster runs on: the answers come from a
  sequence of states of one run.
\<close>

definition polled :: "nat \<Rightarrow> (nat \<times> ('c, 'd) cluster) list \<Rightarrow> bool" where
  "polled n xs \<longleftrightarrow> distinct (map fst xs) \<and> (\<forall>(i, s) \<in> set xs. i < n \<and> clusterReach n s) \<and>
     sorted_wrt (\<lambda>x y. (clusterStep n)\<^sup>*\<^sup>* (snd x) (snd y)) xs"

definition answersOf :: "(nat \<times> ('c, 'd) cluster) list \<Rightarrow> (nat \<times> int \<times> bool) list" where
  "answersOf xs = map (\<lambda>(i, s). (i, GetState (nodes s i))) xs"

definition leadersIn :: "int \<Rightarrow> (nat \<times> int \<times> bool) list \<Rightarrow> nat list" where
  "leadersIn t answers = map fst (filter (\<lambda>(i, term, leader). leader \<and> term = t) answers)"

lemma leadersOf_map:
  "map_of (leadersOf answers ls) t =
     (case map_of ls t of Some is \<Rightarrow> Some (is @ leadersIn t answers)
      | None \<Rightarrow> if leadersIn t answers = [] then None else Some (leadersIn t answers))"
proof (induction answers ls rule: leadersOf.induct)
  case (2 i u leader answers ls)
  then show ?case by (auto simp: leadersIn_def update_conv split: option.splits)
qed (auto simp: leadersIn_def split: option.splits)

lemma leadersOf_distinct: "distinct (map fst ls) \<Longrightarrow> distinct (map fst (leadersOf answers ls))"
  by (induction answers ls rule: leadersOf.induct) (auto simp: distinct_update)

lemma leadersIn_one:
  assumes "polled n xs"
  shows "length (leadersIn t (answersOf xs)) \<le> 1"
  using assms
proof (induction xs)
  case (Cons x xs)
  obtain i s where x: "x = (i, s)" by force
  have p: "polled n xs" using Cons.prems by (auto simp: polled_def)
  show ?case
  proof (cases "currentTerm (nodes s i) = t \<and> role (nodes s i) = Leader")
    case True
    have "\<not> (currentTerm (nodes s' j) = t \<and> role (nodes s' j) = Leader)" if "(j, s') \<in> set xs" for j s'
    proof
      assume l: "currentTerm (nodes s' j) = t \<and> role (nodes s' j) = Leader"
      have "clusterReach n s" "(clusterStep n)\<^sup>*\<^sup>* s s'" "i < n" "j < n" "i \<noteq> j"
        using Cons.prems that x by (auto simp: polled_def rev_image_eqI)
      with leader_agree [of n s s' i j] True l show False by simp
    qed
    then have "leadersIn t (answersOf xs) = []"
      by (auto simp: leadersIn_def answersOf_def GetState_def filter_empty_conv)
    then show ?thesis using True x by (simp add: leadersIn_def answersOf_def GetState_def)
  next
    case False
    then have "leadersIn t (answersOf (x # xs)) = leadersIn t (answersOf xs)"
      by (auto simp: x leadersIn_def answersOf_def GetState_def)
    with Cons.IH [OF p] show ?thesis by simp
  qed
qed (simp add: leadersIn_def answersOf_def)

lemma term_nonneg:
  assumes "clusterReach n s" and "i < n"
  shows "0 \<le> currentTerm (nodes s i)"
proof -
  obtain a where a: "ainv n a" "cluster_rel n s a" using cluster_reach_rel [OF assms(1)] by blast
  from node_okD(2) [OF cluster_relD(1) [OF a(2) assms(2)]] log_invD(8) [OF ainvD(1) [OF a(1)]] show ?thesis by simp
qed

lemma lastTerm_ok:
  "list_all (\<lambda>(t, is). length is \<le> 1) ls \<Longrightarrow>
   \<exists>t'. lastTerm ls t = Some t' \<and> t \<le> t' \<and> (\<forall>u \<in> fst ` set ls. u \<le> t') \<and> (t' = t \<or> t' \<in> fst ` set ls)"
proof (induction ls t rule: lastTerm.induct)
  case (2 u js ls t)
  then obtain t' where "lastTerm ls (if u > t then u else t) = Some t'" "(if u > t then u else t) \<le> t'"
      "\<forall>w \<in> fst ` set ls. w \<le> t'" "t' = (if u > t then u else t) \<or> t' \<in> fst ` set ls" by auto
  with "2.prems" show ?case by (intro exI [of _ t']) (auto split: if_splits)
qed simp

lemma leaders_short:
  assumes "polled n xs"
  shows "list_all (\<lambda>(t, is). length is \<le> 1) (leadersOf (answersOf xs) [])"
  unfolding list_all_iff
proof (clarify)
  fix t js assume "(t, js) \<in> set (leadersOf (answersOf xs) [])"
  then have "map_of (leadersOf (answersOf xs) []) t = Some js"
    using leadersOf_distinct [of "[]" "answersOf xs"] by (intro map_of_is_SomeI) simp_all
  then have "js = leadersIn t (answersOf xs)" by (simp add: leadersOf_map split: if_splits)
  with leadersIn_one [OF assms, of t] show "length js \<le> 1" by simp
qed

subsection \<open>Properties\<close>

text \<open>
  (C8) The harness never finds a fault in what the servers apply. In any run of a cluster that takes no
  snapshots, with crashes and restarts, the goroutines of the harness that read what the servers deliver
  accept every message: no two servers apply different commands at an index, no server skips
  an index. And the harness can count the servers that have committed an index without finding a difference.
\<close>

theorem harness_accepts:
  assumes "run n evs (startCluster n) = Some s" and "list_all plain evs"
  shows "\<exists>cfg. watch n evs (startCluster n) (makeLogs n) = Some (s, cfg) \<and>
    (\<exists>cmd. nCommitted x cfg = Some (int (length (filter (\<lambda>l. l x \<noteq> None) (hc_logs cfg))), cmd))"
proof -
  have "clusterReach n (startCluster n)" by (rule reaches_init) (rule startCluster_init)
  from watch_ok [OF start_quiet this watched_start assms] nCommitted_ok show ?thesis by blast
qed

text \<open>
  (C9) The poll of the harness finds one leader at most. The servers are asked one after the other
  while the cluster goes on; the check for two leaders of one term does not fail, and a leader that
  it returns has answered that it leads, in the latest term of all that did.
\<close>

theorem poll_one_leader:
  assumes "polled n xs"
  shows "\<exists>r. oneLeaderRound (answersOf xs) = Some r \<and>
    (\<forall>i. r = Some i \<longrightarrow> (\<exists>t. (i, t, True) \<in> set (answersOf xs) \<and> (\<forall>j u. (j, u, True) \<in> set (answersOf xs) \<longrightarrow> u \<le> t))) \<and>
    (r = None \<longleftrightarrow> (\<forall>j u. (j, u, True) \<notin> set (answersOf xs)))"
proof -
  let ?as = "answersOf xs"
  let ?ls = "leadersOf ?as []"
  have keys: "t \<in> fst ` set ?ls \<longleftrightarrow> (\<exists>j. (j, t, True) \<in> set ?as)" for t
  proof -
    have "t \<in> fst ` set ?ls \<longleftrightarrow> map_of ?ls t \<noteq> None" by (metis map_of_eq_None_iff)
    also have "\<dots> \<longleftrightarrow> leadersIn t ?as \<noteq> []" by (simp add: leadersOf_map)
    also have "\<dots> \<longleftrightarrow> (\<exists>j. (j, t, True) \<in> set ?as)" by (auto simp: leadersIn_def filter_empty_conv)
    finally show ?thesis .
  qed
  obtain t' where t': "lastTerm ?ls (-1) = Some t'" "-1 \<le> t'" "\<forall>u \<in> fst ` set ?ls. u \<le> t'" "t' = -1 \<or> t' \<in> fst ` set ?ls"
    using lastTerm_ok [OF leaders_short [OF assms]] by blast
  show ?thesis
  proof (cases "?ls = []")
    case True
    with t'(1) keys show ?thesis by (intro exI [of _ None]) (auto simp: oneLeaderRound_def)
  next
    case False
    then obtain u where u: "u \<in> fst ` set ?ls" by (cases ?ls) auto
    then obtain j where "(j, u, True) \<in> set ?as" using keys by blast
    then have "0 \<le> u" using assms term_nonneg by (fastforce simp: polled_def answersOf_def GetState_def)
    with t'(3,4) u have k: "t' \<in> fst ` set ?ls" by force
    then have ne: "leadersIn t' ?as \<noteq> []" by (auto simp: keys leadersIn_def filter_empty_conv)
    then have "map_of ?ls t' = Some (leadersIn t' ?as)" by (simp add: leadersOf_map)
    with t'(1) False ne have r: "oneLeaderRound ?as = Some (Some (leadersIn t' ?as ! 0))"
      by (simp add: oneLeaderRound_def slice_get_def)
    have "leadersIn t' ?as ! 0 \<in> set (leadersIn t' ?as)" using ne by simp
    then have "(leadersIn t' ?as ! 0, t', True) \<in> set ?as" by (auto simp: leadersIn_def)
    moreover have "u \<le> t'" if "(j, u, True) \<in> set ?as" for j u using t'(3) keys that by blast
    ultimately show ?thesis using r by (intro exI [of _ "Some (leadersIn t' ?as ! 0)"]) auto
  qed
qed

theorem harness_accepts_witness:
  "\<exists>cfg cmd. watch 2 demoRun (startCluster 2) (makeLogs 2) = Some (demo, cfg) \<and>
     nCommitted 1 cfg = Some (int (length (filter (\<lambda>l. l 1 \<noteq> None) (hc_logs cfg))), cmd)"
proof -
  have "list_all plain demoRun" by (simp add: demoRun_def)
  from harness_accepts [OF demo_run this, of 1] show ?thesis by blast
qed

theorem poll_one_leader_witness: "oneLeaderRound (answersOf [(0, demo), (1, demo)]) = Some (Some 0)"
proof -
  have "polled 2 [(0, demo), (1, demo)]" using demo_reach by (simp add: polled_def)
  moreover have "answersOf [(0, demo), (1, demo)] = [(0, 1, True), (1, 1, False)]" by code_simp
  ultimately show ?thesis using poll_one_leader [of 2 "[(0, demo), (1, demo)]"] by auto
qed

end
