(* ===== verification/ShardKv.thy ===== *)
theory ShardKv
  imports ShardCtrler "HOL-Library.Finite_Map"
begin

section \<open>The sharded key/value service\<close>

text \<open>
  \<^verbatim>\<open>shardkv/server.go\<close>, \<^verbatim>\<open>shardkv/client.go\<close> and \<^verbatim>\<open>shardkv/common.go\<close>. The part of a server that
  its log determines (the shards, the table of clients, the two configurations) is the record
  \<open>shardstore\<close>; the functions that apply an operation work on it, and the server holds it
  together with its waiters. The map of the shards is finite, since the code iterates over it.
  The loops of the background goroutines are modelled by one iteration each: what it reads
  under the lock, what it asks of other servers (arguments), and the operation it starts.
\<close>

subsection \<open>Data\<close>

definition OK :: string where "OK = ''OK''"
definition ErrNoKey :: string where "ErrNoKey = ''ErrNoKey''"
definition ErrWrongGroup :: string where "ErrWrongGroup = ''ErrWrongGroup''"
definition ErrWrongLeader :: string where "ErrWrongLeader = ''ErrWrongLeader''"
definition ErrTimeout :: string where "ErrTimeout = ''ErrTimeout''"
definition ErrNotReady :: string where "ErrNotReady = ''ErrNotReady''"

lemmas err_defs = OK_def ErrNoKey_def ErrWrongGroup_def ErrWrongLeader_def ErrTimeout_def ErrNotReady_def

type_synonym kvmap = "string \<rightharpoonup> string"

record PutAppendArgs =
  pa_Key :: string
  pa_Value :: string
  pa_Op :: string
  pa_ClientId :: int
  pa_Seq :: int

record PutAppendReply =
  par_Err :: string

record GetArgs =
  ga_Key :: string
  ga_ClientId :: int
  ga_Seq :: int

record GetReply =
  gr_Err :: string
  gr_Value :: string

record PullShardArgs =
  ps_ConfigNum :: int
  ps_Shards :: "int list"

record PullShardReply =
  psr_Err :: string
  psr_ConfigNum :: int
  psr_Data :: "int \<rightharpoonup> kvmap"
  psr_Dedup :: "int \<rightharpoonup> int"

record DeleteShardArgs =
  ds_ConfigNum :: int
  ds_Shards :: "int list"

record DeleteShardReply =
  dsr_Err :: string

datatype ShardState = Serving | Pulling | BePulling | GCing

record Shard =
  sh_Data :: kvmap
  sh_State :: ShardState

record Op =
  so_Type :: string
  so_Key :: string
  so_Value :: string
  so_ClientId :: int
  so_Seq :: int
  so_Config :: Config
  so_ConfigNum :: int
  so_Shards :: "int list"
  so_ShardData :: "int \<rightharpoonup> kvmap"
  so_Dedup :: "int \<rightharpoonup> int"

record result =
  res_err :: string
  res_value :: string
  res_clientId :: int
  res_seq :: int

record shardstore =
  sk_shards :: "(int, Shard) fmap"
  sk_dedup :: "int \<rightharpoonup> int"
  sk_prevConfig :: Config
  sk_config :: Config

record ShardKV =
  kv_me :: nat
  kv_gid :: int
  kv_maxraftstate :: int
  kv_dead :: bool
  kv_store :: shardstore
  kv_waiters :: "result waiters"
  kv_lastApplied :: int

definition emptyOp :: Op where
  "emptyOp = \<lparr>so_Type = '''', so_Key = '''', so_Value = '''', so_ClientId = 0, so_Seq = 0, so_Config = noConfig,
     so_ConfigNum = 0, so_Shards = [], so_ShardData = Map.empty, so_Dedup = Map.empty\<rparr>"

definition noResult :: result where
  "noResult = \<lparr>res_err = '''', res_value = '''', res_clientId = 0, res_seq = 0\<rparr>"

definition newShard :: Shard where
  "newShard = \<lparr>sh_Data = Map.empty, sh_State = Serving\<rparr>"

definition copyData :: "Shard \<Rightarrow> kvmap" where
  "copyData s = (\<lambda>k. sh_Data s k)"

text \<open>The shard of a key: its first byte modulo the number of shards.\<close>

definition key2shard :: "string \<Rightarrow> int" where
  "key2shard key = (let shard = (if length key > 0 then of_char (key ! 0) else 0) in shard mod int NShards)"

text \<open>The array access \<^verbatim>\<open>c.Shards[shard]\<close>, for an index that is in range.\<close>

definition owner :: "Config \<Rightarrow> int \<Rightarrow> int" where
  "owner c shard = cfg_Shards c ! nat shard"

definition settled :: "shardstore \<Rightarrow> bool" where
  "settled st = fmpred (\<lambda>_ s. sh_State s = Serving) (sk_shards st)"

subsection \<open>Applying\<close>

definition canServe :: "int \<Rightarrow> int \<Rightarrow> shardstore \<Rightarrow> bool" where
  "canServe gid shard st =
     (if owner (sk_config st) shard \<noteq> gid then False
      else case fmlookup (sk_shards st) shard of None \<Rightarrow> False | Some s \<Rightarrow> sh_State s = Serving)"

definition applyClientOp :: "int \<Rightarrow> Op \<Rightarrow> shardstore \<Rightarrow> shardstore \<times> result" where
  "applyClientOp gid op st =
     (let shard = key2shard (so_Key op);
          refused = noResult\<lparr>res_err := ErrWrongGroup, res_clientId := so_ClientId op, res_seq := so_Seq op\<rparr>
      in if owner (sk_config st) shard \<noteq> gid then (st, refused)
         else case fmlookup (sk_shards st) shard of
           None \<Rightarrow> (st, refused)
         | Some s \<Rightarrow>
             if sh_State s \<noteq> Serving then (st, refused)
             else
               let res = noResult\<lparr>res_err := OK, res_clientId := so_ClientId op, res_seq := so_Seq op\<rparr>
               in if so_Type op = ''Get''
                  then (case sh_Data s (so_Key op) of
                          Some v \<Rightarrow> (st, res\<lparr>res_value := v\<rparr>)
                        | None \<Rightarrow> (st, res\<lparr>res_err := ErrNoKey\<rparr>))
                  else if (case sk_dedup st (so_ClientId op) of Some lst \<Rightarrow> so_Seq op \<le> lst | None \<Rightarrow> False)
                  then (st, res)
                  else
                    let d = (if so_Type op = ''Put'' then (sh_Data s)(so_Key op \<mapsto> so_Value op)
                             else (sh_Data s)(so_Key op \<mapsto>
                               (case sh_Data s (so_Key op) of None \<Rightarrow> '''' | Some v \<Rightarrow> v) @ so_Value op))
                    in (st\<lparr>sk_shards := fmupd shard (s\<lparr>sh_Data := d\<rparr>) (sk_shards st),
                           sk_dedup := (sk_dedup st)(so_ClientId op \<mapsto> so_Seq op)\<rparr>, res))"

text \<open>The body of the loop of \<^verbatim>\<open>applyConfig\<close>, for one shard.\<close>

definition reassign :: "int \<Rightarrow> Config \<Rightarrow> Config \<Rightarrow> int \<Rightarrow> (int, Shard) fmap \<Rightarrow> (int, Shard) fmap" where
  "reassign gid old new shard shards =
     (let oldGid = owner old shard; newGid = owner new shard
      in if newGid \<noteq> gid
         then (if oldGid = gid
               then (case fmlookup shards shard of
                       Some s \<Rightarrow> fmupd shard (s\<lparr>sh_State := BePulling\<rparr>) shards
                     | None \<Rightarrow> shards)
               else shards)
         else if oldGid = gid \<or> oldGid = 0
         then (let s = (case fmlookup shards shard of Some s \<Rightarrow> s | None \<Rightarrow> newShard)
               in fmupd shard (s\<lparr>sh_State := Serving\<rparr>) shards)
         else fmupd shard \<lparr>sh_Data = Map.empty, sh_State = Pulling\<rparr> shards)"

definition applyConfig :: "int \<Rightarrow> Config \<Rightarrow> shardstore \<Rightarrow> shardstore" where
  "applyConfig gid newConfig st =
     (if cfg_Num newConfig \<noteq> cfg_Num (sk_config st) + 1 then st
      else if \<not> settled st then st
      else let old = sk_config st
           in st\<lparr>sk_prevConfig := old, sk_config := newConfig,
                 sk_shards := fold (reassign gid old newConfig) (map int [0..<NShards]) (sk_shards st)\<rparr>)"

definition installOne :: "(int \<rightharpoonup> kvmap) \<Rightarrow> int \<Rightarrow> (int, Shard) fmap \<Rightarrow> (int, Shard) fmap" where
  "installOne dat shard shards =
     (case fmlookup shards shard of
        None \<Rightarrow> shards
      | Some s \<Rightarrow>
          if sh_State s \<noteq> Pulling then shards
          else fmupd shard \<lparr>sh_Data = (case dat shard of None \<Rightarrow> Map.empty | Some d \<Rightarrow> d), sh_State = GCing\<rparr> shards)"

definition mergeDedup :: "(int \<rightharpoonup> int) \<Rightarrow> (int \<rightharpoonup> int) \<Rightarrow> (int \<rightharpoonup> int)" where
  "mergeDedup new cur =
     (\<lambda>cid. case new cid of
        None \<Rightarrow> cur cid
      | Some seq \<Rightarrow> (case cur cid of None \<Rightarrow> Some seq | Some c \<Rightarrow> if seq > c then Some seq else Some c))"

definition applyInstallShard :: "Op \<Rightarrow> shardstore \<Rightarrow> shardstore" where
  "applyInstallShard op st =
     (if so_ConfigNum op \<noteq> cfg_Num (sk_config st) then st
      else st\<lparr>sk_shards := fold (installOne (so_ShardData op)) (so_Shards op) (sk_shards st),
              sk_dedup := mergeDedup (so_Dedup op) (sk_dedup st)\<rparr>)"

definition deleteOne :: "int \<Rightarrow> (int, Shard) fmap \<Rightarrow> (int, Shard) fmap" where
  "deleteOne shard shards =
     (case fmlookup shards shard of
        None \<Rightarrow> shards
      | Some s \<Rightarrow>
          if sh_State s = GCing then fmupd shard (s\<lparr>sh_State := Serving\<rparr>) shards
          else if sh_State s = BePulling then fmdrop shard shards
          else shards)"

definition applyDeleteShard :: "Op \<Rightarrow> shardstore \<Rightarrow> shardstore" where
  "applyDeleteShard op st =
     (if so_ConfigNum op \<noteq> cfg_Num (sk_config st) then st
      else st\<lparr>sk_shards := fold deleteOne (so_Shards op) (sk_shards st)\<rparr>)"

text \<open>The switch of \<^verbatim>\<open>applyCommand\<close>.\<close>

definition applyOp :: "int \<Rightarrow> Op \<Rightarrow> shardstore \<Rightarrow> shardstore \<times> result" where
  "applyOp gid op st =
     (let res = noResult\<lparr>res_clientId := so_ClientId op, res_seq := so_Seq op\<rparr>
      in if so_Type op = ''Get'' \<or> so_Type op = ''Put'' \<or> so_Type op = ''Append'' then applyClientOp gid op st
         else if so_Type op = ''Config'' then (applyConfig gid (so_Config op) st, res)
         else if so_Type op = ''InstallShard'' then (applyInstallShard op st, res)
         else if so_Type op = ''DeleteShard'' then (applyDeleteShard op st, res)
         else (st, res))"

subsection \<open>Snapshots and the apply loop\<close>

datatype skgob = GobShards "(int, Shard) fmap" | GobDedup "int \<rightharpoonup> int" | GobConfig Config

definition encodeSnapshot :: "shardstore \<Rightarrow> skgob list" where
  "encodeSnapshot st = [GobShards (sk_shards st), GobDedup (sk_dedup st), GobConfig (sk_config st), GobConfig (sk_prevConfig st)]"

definition maybeSnapshot :: "int \<Rightarrow> int \<Rightarrow> ShardKV \<Rightarrow> (int \<times> skgob list) option" where
  "maybeSnapshot rsize index kv =
     (if kv_maxraftstate kv < 0 \<or> rsize < kv_maxraftstate kv then None
      else Some (index, encodeSnapshot (kv_store kv)))"

definition readSnapshot :: "skgob list \<Rightarrow> ShardKV \<Rightarrow> ShardKV" where
  "readSnapshot buf kv =
     (case buf of
        GobShards s # GobDedup d # GobConfig c # GobConfig p # _ \<Rightarrow>
          kv\<lparr>kv_store := \<lparr>sk_shards = s, sk_dedup = d, sk_prevConfig = p, sk_config = c\<rparr>\<rparr>
      | _ \<Rightarrow> kv)"

definition applyCommand ::
  "int \<Rightarrow> (Op, skgob) ApplyMsg \<Rightarrow> ShardKV \<Rightarrow> (ShardKV \<times> (int \<times> skgob list) option) option" where
  "applyCommand rsize msg kv =
     (if CommandIndex msg \<le> kv_lastApplied kv then Some (kv, None)
      else do {
        let kv1 = kv\<lparr>kv_lastApplied := CommandIndex msg\<rparr>;
        op \<leftarrow> Command msg;
        let (st, res) = applyOp (kv_gid kv1) op (kv_store kv1);
        let kv2 = kv1\<lparr>kv_store := st\<rparr>;
        w \<leftarrow> wake (CommandIndex msg) res (kv_waiters kv2);
        let kv3 = kv2\<lparr>kv_waiters := w\<rparr>;
        Some (kv3, maybeSnapshot rsize (CommandIndex msg) kv3)
      })"

definition applySnapshot :: "(Op, skgob) ApplyMsg \<Rightarrow> ShardKV \<Rightarrow> ShardKV" where
  "applySnapshot msg kv =
     (if SnapshotIndex msg \<le> kv_lastApplied kv then kv
      else (readSnapshot (Snapshot_data msg) kv)\<lparr>kv_lastApplied := SnapshotIndex msg\<rparr>)"

definition applyMsg ::
  "int \<Rightarrow> (Op, skgob) ApplyMsg \<Rightarrow> ShardKV \<Rightarrow> (ShardKV \<times> (int \<times> skgob list) option) option" where
  "applyMsg rsize msg kv =
     (if CommandValid msg then applyCommand rsize msg kv
      else if SnapshotValid msg then Some (applySnapshot msg kv, None)
      else Some (kv, None))"

definition KillServer :: "ShardKV \<Rightarrow> ShardKV" where
  "KillServer kv = kv\<lparr>kv_dead := True\<rparr>"

definition emptyStore :: shardstore where
  "emptyStore = \<lparr>sk_shards = fmempty, sk_dedup = Map.empty, sk_prevConfig = noConfig, sk_config = noConfig\<rparr>"

definition StartServer :: "nat \<Rightarrow> ('r, skgob) Persister \<Rightarrow> int \<Rightarrow> int \<Rightarrow> ShardKV" where
  "StartServer i ps maxraftstate gid =
     readSnapshot (ReadSnapshot ps)
       \<lparr>kv_me = i, kv_gid = gid, kv_maxraftstate = maxraftstate, kv_dead = False, kv_store = emptyStore,
        kv_waiters = noWaiters, kv_lastApplied = 0\<rparr>"

subsection \<open>Submitting\<close>

definition submitBegin :: "int \<Rightarrow> bool \<Rightarrow> ShardKV \<Rightarrow> result + (ShardKV \<times> nat)" where
  "submitBegin index isLeader kv =
     (if \<not> isLeader then Inl (noResult\<lparr>res_err := ErrWrongLeader\<rparr>)
      else let (w, ch) = register index (kv_waiters kv) in Inr (kv\<lparr>kv_waiters := w\<rparr>, ch))"

definition submitResult :: "Op \<Rightarrow> int \<Rightarrow> nat \<Rightarrow> ShardKV \<Rightarrow> (ShardKV \<times> result) option" where
  "submitResult op index ch kv =
     (case receive ch (kv_waiters kv) of
        None \<Rightarrow> None
      | Some (res, w) \<Rightarrow>
          Some (kv\<lparr>kv_waiters := forget index w\<rparr>,
                if (so_Type op = ''Get'' \<or> so_Type op = ''Put'' \<or> so_Type op = ''Append'') \<and>
                   (res_clientId res \<noteq> so_ClientId op \<or> res_seq res \<noteq> so_Seq op)
                then noResult\<lparr>res_err := ErrWrongLeader\<rparr> else res))"

definition submitTimeout :: "int \<Rightarrow> ShardKV \<Rightarrow> ShardKV \<times> result" where
  "submitTimeout index kv =
     (kv\<lparr>kv_waiters := forget index (kv_waiters kv)\<rparr>, noResult\<lparr>res_err := ErrTimeout\<rparr>)"

text \<open>A handler: the reply at once, or the operation it submits and the reply it makes of the result.\<close>

definition Get :: "GetArgs \<Rightarrow> ShardKV \<Rightarrow> GetReply + (Op \<times> (result \<Rightarrow> GetReply))" where
  "Get args kv =
     (if \<not> canServe (kv_gid kv) (key2shard (ga_Key args)) (kv_store kv)
      then Inl \<lparr>gr_Err = ErrWrongGroup, gr_Value = ''''\<rparr>
      else Inr (emptyOp\<lparr>so_Type := ''Get'', so_Key := ga_Key args, so_ClientId := ga_ClientId args, so_Seq := ga_Seq args\<rparr>,
                \<lambda>res. \<lparr>gr_Err = res_err res, gr_Value = res_value res\<rparr>))"

definition PutAppend :: "PutAppendArgs \<Rightarrow> ShardKV \<Rightarrow> PutAppendReply + (Op \<times> (result \<Rightarrow> PutAppendReply))" where
  "PutAppend args kv =
     (if \<not> canServe (kv_gid kv) (key2shard (pa_Key args)) (kv_store kv)
      then Inl \<lparr>par_Err = ErrWrongGroup\<rparr>
      else Inr (emptyOp\<lparr>so_Type := pa_Op args, so_Key := pa_Key args, so_Value := pa_Value args,
                        so_ClientId := pa_ClientId args, so_Seq := pa_Seq args\<rparr>,
                \<lambda>res. \<lparr>par_Err = res_err res\<rparr>))"

definition PullShard :: "bool \<Rightarrow> PullShardArgs \<Rightarrow> shardstore \<Rightarrow> PullShardReply" where
  "PullShard isLeader args st =
     (let nothing = \<lparr>psr_Err = '''', psr_ConfigNum = 0, psr_Data = Map.empty, psr_Dedup = Map.empty\<rparr>
      in if \<not> isLeader then nothing\<lparr>psr_Err := ErrWrongLeader\<rparr>
         else if ps_ConfigNum args > cfg_Num (sk_config st) then nothing\<lparr>psr_Err := ErrNotReady\<rparr>
         else \<lparr>psr_Err = OK, psr_ConfigNum = ps_ConfigNum args,
               psr_Data = fold (\<lambda>shard dat. dat(shard \<mapsto>
                   (case fmlookup (sk_shards st) shard of Some s \<Rightarrow> copyData s | None \<Rightarrow> Map.empty)))
                 (ps_Shards args) Map.empty,
               psr_Dedup = (\<lambda>cid. sk_dedup st cid)\<rparr>)"

definition DeleteShard :: "bool \<Rightarrow> DeleteShardArgs \<Rightarrow> shardstore \<Rightarrow> DeleteShardReply + (Op \<times> (result \<Rightarrow> DeleteShardReply))" where
  "DeleteShard isLeader args st =
     (if \<not> isLeader then Inl \<lparr>dsr_Err = ErrWrongLeader\<rparr>
      else if ds_ConfigNum args < cfg_Num (sk_config st) then Inl \<lparr>dsr_Err = OK\<rparr>
      else if ds_ConfigNum args > cfg_Num (sk_config st) then Inl \<lparr>dsr_Err = ErrNotReady\<rparr>
      else Inr (emptyOp\<lparr>so_Type := ''DeleteShard'', so_ConfigNum := ds_ConfigNum args, so_Shards := ds_Shards args\<rparr>,
                \<lambda>res. if res_err res = ErrWrongLeader \<or> res_err res = ErrTimeout
                      then \<lparr>dsr_Err = res_err res\<rparr> else \<lparr>dsr_Err = OK\<rparr>))"

subsection \<open>Background loops\<close>

text \<open>
  One iteration of \<^verbatim>\<open>configPoller\<close>: \<open>query\<close> is the answer of the controller's clerk.
\<close>

definition configPoller :: "bool \<Rightarrow> (int \<Rightarrow> Config) \<Rightarrow> shardstore \<Rightarrow> Op option" where
  "configPoller isLeader query st =
     (if \<not> isLeader then None
      else let nextNum = cfg_Num (sk_config st) + 1
           in if \<not> settled st then None
              else let nxt = query nextNum
                   in if cfg_Num nxt = nextNum then Some (emptyOp\<lparr>so_Type := ''Config'', so_Config := nxt\<rparr>) else None)"

text \<open>
  The shards in a state, grouped by their previous owner; \<open>ks\<close> is the order in which the loop
  visits the keys of the map. No result is the panic of an index out of the array.
\<close>

fun groupShards :: "ShardState \<Rightarrow> shardstore \<Rightarrow> int list \<Rightarrow> (int \<rightharpoonup> int list) \<Rightarrow> (int \<rightharpoonup> int list) option" where
  "groupShards state st [] m = Some m"
| "groupShards state st (shard # ks) m =
     (case fmlookup (sk_shards st) shard of
        None \<Rightarrow> groupShards state st ks m
      | Some s \<Rightarrow>
          if sh_State s = state
          then do { gid \<leftarrow> slice_get (cfg_Shards (sk_prevConfig st)) shard;
                    groupShards state st ks (m(gid \<mapsto> (case m gid of None \<Rightarrow> [] | Some l \<Rightarrow> l) @ [shard])) }
          else groupShards state st ks m)"

text \<open>The goroutine for one group: the servers are called in turn until one answers \<open>OK\<close>.\<close>

fun firstOK :: "(string \<Rightarrow> 'r option) \<Rightarrow> ('r \<Rightarrow> bool) \<Rightarrow> string list \<Rightarrow> 'r option" where
  "firstOK call ok [] = None"
| "firstOK call ok (name # names) =
     (case call name of Some r \<Rightarrow> if ok r then Some r else firstOK call ok names | None \<Rightarrow> firstOK call ok names)"

text \<open>The requests that \<^verbatim>\<open>shardPuller\<close> and \<^verbatim>\<open>shardGC\<close> prepare under the lock, by group.\<close>

definition pullTasks :: "int list \<Rightarrow> shardstore \<Rightarrow> (int \<rightharpoonup> PullShardArgs) option" where
  "pullTasks ks st =
     map_option (\<lambda>gidShards gid. map_option (\<lambda>shards. \<lparr>ps_ConfigNum = cfg_Num (sk_config st), ps_Shards = shards\<rparr>) (gidShards gid))
       (groupShards Pulling st ks Map.empty)"

definition gcTasks :: "int list \<Rightarrow> shardstore \<Rightarrow> (int \<rightharpoonup> DeleteShardArgs) option" where
  "gcTasks ks st =
     map_option (\<lambda>gidShards gid. map_option (\<lambda>shards. \<lparr>ds_ConfigNum = cfg_Num (sk_config st), ds_Shards = shards\<rparr>) (gidShards gid))
       (groupShards GCing st ks Map.empty)"

definition prevServers :: "int \<Rightarrow> shardstore \<Rightarrow> string list" where
  "prevServers gid st = (case map_of (cfg_Groups (sk_prevConfig st)) gid of None \<Rightarrow> [] | Some servers \<Rightarrow> servers)"

text \<open>One iteration of each loop: for every group that was asked, the operation that is started.\<close>

definition shardPuller ::
  "bool \<Rightarrow> int list \<Rightarrow> (string \<Rightarrow> PullShardArgs \<Rightarrow> PullShardReply option) \<Rightarrow> shardstore \<Rightarrow> (int \<Rightarrow> Op option) option" where
  "shardPuller isLeader ks call st =
     (if \<not> isLeader then Some (\<lambda>_. None)
      else do {
        tasks \<leftarrow> pullTasks ks st;
        Some (\<lambda>gid. do {
          args \<leftarrow> tasks gid;
          reply \<leftarrow> firstOK (\<lambda>name. call name args) (\<lambda>reply. psr_Err reply = OK) (prevServers gid st);
          Some (emptyOp\<lparr>so_Type := ''InstallShard'', so_ConfigNum := ps_ConfigNum args, so_Shards := ps_Shards args,
                        so_ShardData := psr_Data reply, so_Dedup := psr_Dedup reply\<rparr>)
        })
      })"

definition shardGC ::
  "bool \<Rightarrow> int list \<Rightarrow> (string \<Rightarrow> DeleteShardArgs \<Rightarrow> DeleteShardReply option) \<Rightarrow> shardstore \<Rightarrow> (int \<Rightarrow> Op option) option" where
  "shardGC isLeader ks call st =
     (if \<not> isLeader then Some (\<lambda>_. None)
      else do {
        tasks \<leftarrow> gcTasks ks st;
        Some (\<lambda>gid. do {
          args \<leftarrow> tasks gid;
          reply \<leftarrow> firstOK (\<lambda>name. call name args) (\<lambda>reply. dsr_Err reply = OK) (prevServers gid st);
          Some (emptyOp\<lparr>so_Type := ''DeleteShard'', so_ConfigNum := ds_ConfigNum args, so_Shards := ds_Shards args\<rparr>)
        })
      })"

definition emptyLogChecker :: "bool \<Rightarrow> bool \<Rightarrow> Op option" where
  "emptyLogChecker isLeader hasCurrentTermLog =
     (if \<not> isLeader then None
      else if \<not> hasCurrentTermLog then Some (emptyOp\<lparr>so_Type := ''Empty''\<rparr>) else None)"

subsection \<open>The clerk\<close>

record Clerk =
  ck_config :: Config
  ck_clientId :: int
  ck_seq :: int

definition MakeClerk :: "int \<Rightarrow> Clerk" where
  "MakeClerk rand = \<lparr>ck_config = noConfig, ck_clientId = rand, ck_seq = 0\<rparr>"

definition nextSeq :: "Clerk \<Rightarrow> Clerk \<times> int" where
  "nextSeq ck = (ck\<lparr>ck_seq := ck_seq ck + 1\<rparr>, ck_seq ck + 1)"

text \<open>The inner loop: a server's answer is accepted, ends the round, or makes the clerk try the next.\<close>

fun tryServers :: "('r \<Rightarrow> bool) \<Rightarrow> ('r \<Rightarrow> bool) \<Rightarrow> (string \<Rightarrow> 'r option) \<Rightarrow> string list \<Rightarrow> 'r option" where
  "tryServers accept wrong call [] = None"
| "tryServers accept wrong call (srv # srvs) =
     (case call srv of
        Some r \<Rightarrow> if accept r then Some r else if wrong r then None else tryServers accept wrong call srvs
      | None \<Rightarrow> tryServers accept wrong call srvs)"

text \<open>
  The outer loop. A round is what the servers answer in it and the configuration that the
  clerk gets from the controller after it; no result means that the loop is still running
  when the rounds given are over.
\<close>

fun clerkLoop ::
  "('r \<Rightarrow> bool) \<Rightarrow> ('r \<Rightarrow> bool) \<Rightarrow> string \<Rightarrow> Clerk \<Rightarrow> ((string \<Rightarrow> 'r option) \<times> Config) list \<Rightarrow> (Clerk \<times> 'r) option" where
  "clerkLoop accept wrong key ck [] = None"
| "clerkLoop accept wrong key ck ((call, latest) # rounds) =
     (let gid = owner (ck_config ck) (key2shard key)
      in case (case map_of (cfg_Groups (ck_config ck)) gid of
                 Some servers \<Rightarrow> tryServers accept wrong call servers
               | None \<Rightarrow> None) of
           Some r \<Rightarrow> Some (ck, r)
         | None \<Rightarrow> clerkLoop accept wrong key (ck\<lparr>ck_config := latest\<rparr>) rounds)"

definition clerkGet :: "Clerk \<Rightarrow> string \<Rightarrow> (GetArgs \<Rightarrow> ((string \<Rightarrow> GetReply option) \<times> Config) list) \<Rightarrow> (Clerk \<times> string) option" where
  "clerkGet ck key rounds =
     (let (ck1, s) = nextSeq ck; args = \<lparr>ga_Key = key, ga_ClientId = ck_clientId ck, ga_Seq = s\<rparr>
      in map_option (\<lambda>(ck2, reply). (ck2, gr_Value reply))
           (clerkLoop (\<lambda>r. gr_Err r = OK \<or> gr_Err r = ErrNoKey) (\<lambda>r. gr_Err r = ErrWrongGroup) key ck1 (rounds args)))"

definition clerkPutAppend ::
  "Clerk \<Rightarrow> string \<Rightarrow> string \<Rightarrow> string \<Rightarrow> (PutAppendArgs \<Rightarrow> ((string \<Rightarrow> PutAppendReply option) \<times> Config) list) \<Rightarrow> Clerk option" where
  "clerkPutAppend ck key value op rounds =
     (let (ck1, s) = nextSeq ck;
          args = \<lparr>pa_Key = key, pa_Value = value, pa_Op = op, pa_ClientId = ck_clientId ck, pa_Seq = s\<rparr>
      in map_option fst
           (clerkLoop (\<lambda>r. par_Err r = OK) (\<lambda>r. par_Err r = ErrWrongGroup) key ck1 (rounds args)))"

definition clerkPut where
  "clerkPut ck key value rounds = clerkPutAppend ck key value ''Put'' rounds"

definition clerkAppend where
  "clerkAppend ck key value rounds = clerkPutAppend ck key value ''Append'' rounds"

end
