(* ===== verification/ShardSteps.thy ===== *)
theory ShardSteps
  imports ShardKv Dedup
begin

section \<open>What each operation does to a shard\<close>

text \<open>
  The effect of every operation of the log on one shard, as a function of that shard alone
  (the loops of \<^verbatim>\<open>applyConfig\<close>, \<^verbatim>\<open>applyInstallShard\<close> and \<^verbatim>\<open>applyDeleteShard\<close> visit each shard on its
  own), and on the table of clients, which only grows.
\<close>

subsection \<open>Loops that treat each key on its own\<close>

lemma fold_pointwise:
  assumes "\<And>k m j. fmlookup (f k m) j = (if j = k then h k (fmlookup m k) else fmlookup m j)"
    and "\<And>k x. h k (h k x) = h k x"
  shows "fmlookup (fold f ks m) j = (if j \<in> set ks then h j (fmlookup m j) else fmlookup m j)"
  by (induction ks arbitrary: m) (auto simp: assms)

definition reassigned :: "int \<Rightarrow> Config \<Rightarrow> Config \<Rightarrow> int \<Rightarrow> Shard option \<Rightarrow> Shard option" where
  "reassigned gid old new s x =
     (if owner new s \<noteq> gid
      then (if owner old s = gid then map_option (\<lambda>sh. sh\<lparr>sh_State := BePulling\<rparr>) x else x)
      else if owner old s = gid \<or> owner old s = 0
      then Some ((case x of Some sh \<Rightarrow> sh | None \<Rightarrow> newShard)\<lparr>sh_State := Serving\<rparr>)
      else Some \<lparr>sh_Data = Map.empty, sh_State = Pulling\<rparr>)"

definition installed :: "(int \<rightharpoonup> kvmap) \<Rightarrow> int \<Rightarrow> Shard option \<Rightarrow> Shard option" where
  "installed dat s x =
     map_option (\<lambda>sh. if sh_State sh = Pulling
       then \<lparr>sh_Data = (case dat s of None \<Rightarrow> Map.empty | Some d \<Rightarrow> d), sh_State = GCing\<rparr> else sh) x"

definition deleted :: "Shard option \<Rightarrow> Shard option" where
  "deleted x =
     (case x of
        None \<Rightarrow> None
      | Some sh \<Rightarrow> if sh_State sh = GCing then Some (sh\<lparr>sh_State := Serving\<rparr>)
                   else if sh_State sh = BePulling then None else Some sh)"

lemma installed_None [simp]: "installed dat s None = None"
  by (simp add: installed_def)

lemma deleted_None [simp]: "deleted None = None"
  by (simp add: deleted_def)

lemma reassign_lookup:
  "fmlookup (reassign gid old new k m) j = (if j = k then reassigned gid old new k (fmlookup m k) else fmlookup m j)"
  by (auto simp: reassign_def reassigned_def Let_def split: option.split)

lemma reassigned_twice: "reassigned gid old new k (reassigned gid old new k x) = reassigned gid old new k x"
  by (cases x) (auto simp: reassigned_def)

lemma installOne_lookup:
  "fmlookup (installOne dat k m) j = (if j = k then installed dat k (fmlookup m k) else fmlookup m j)"
  by (auto simp: installOne_def installed_def split: option.split)

lemma installed_twice: "installed dat k (installed dat k x) = installed dat k x"
  by (cases x) (auto simp: installed_def)

lemma deleteOne_lookup: "fmlookup (deleteOne k m) j = (if j = k then deleted (fmlookup m k) else fmlookup m j)"
  by (auto simp: deleteOne_def deleted_def split: option.split)

lemma deleted_twice: "deleted (deleted x) = deleted x"
  by (cases x) (auto simp: deleted_def)

lemma reassign_all:
  "fmlookup (fold (reassign gid old new) (map int [0..<NShards]) m) s =
     (if 0 \<le> s \<and> s < int NShards then reassigned gid old new s (fmlookup m s) else fmlookup m s)"
proof -
  have "s \<in> set (map int [0..<NShards]) \<longleftrightarrow> 0 \<le> s \<and> s < int NShards"
    by (auto simp: image_iff intro: bexI [of _ "nat s"])
  moreover have "fmlookup (fold (reassign gid old new) ks m) s =
      (if s \<in> set ks then reassigned gid old new s (fmlookup m s) else fmlookup m s)" for ks
    by (rule fold_pointwise [OF reassign_lookup reassigned_twice])
  ultimately show ?thesis by simp
qed

lemma install_all:
  "fmlookup (fold (installOne dat) ks m) s = (if s \<in> set ks then installed dat s (fmlookup m s) else fmlookup m s)"
  by (rule fold_pointwise [OF installOne_lookup installed_twice])

lemma delete_all: "fmlookup (fold deleteOne ks m) s = (if s \<in> set ks then deleted (fmlookup m s) else fmlookup m s)"
  by (rule fold_pointwise [OF deleteOne_lookup deleted_twice])

subsection \<open>The operations\<close>

text \<open>A write to the data of a shard.\<close>

definition writeEffect :: "Op \<Rightarrow> kvmap \<Rightarrow> kvmap" where
  "writeEffect op d =
     (if so_Type op = ''Put'' then d(so_Key op \<mapsto> so_Value op)
      else d(so_Key op \<mapsto> (case d (so_Key op) of None \<Rightarrow> '''' | Some v \<Rightarrow> v) @ so_Value op))"

text \<open>When a client's operation changes the state.\<close>

definition effective :: "int \<Rightarrow> Op \<Rightarrow> shardstore \<Rightarrow> bool" where
  "effective gid op st \<longleftrightarrow> so_Type op \<noteq> ''Get'' \<and> canServe gid (key2shard (so_Key op)) st \<and>
     \<not> duplicate (sk_dedup st) (so_ClientId op) (so_Seq op)"

lemma key2shard_range: "0 \<le> key2shard key" "key2shard key < int NShards"
  by (simp_all add: key2shard_def Let_def NShards_def)

lemma applyClientOp_effective:
  assumes "effective gid op st"
  obtains sh where "fmlookup (sk_shards st) (key2shard (so_Key op)) = Some sh" and "sh_State sh = Serving"
    and "owner (sk_config st) (key2shard (so_Key op)) = gid"
    and "fst (applyClientOp gid op st) =
      st\<lparr>sk_shards := fmupd (key2shard (so_Key op)) (sh\<lparr>sh_Data := writeEffect op (sh_Data sh)\<rparr>) (sk_shards st),
         sk_dedup := (sk_dedup st)(so_ClientId op \<mapsto> so_Seq op)\<rparr>"
    and "res_err (snd (applyClientOp gid op st)) = OK"
  using assms that
  by (auto simp: effective_def canServe_def duplicate_def applyClientOp_def writeEffect_def noResult_def Let_def
      split: if_splits option.splits)

lemma applyClientOp_ineffective: "\<not> effective gid op st \<Longrightarrow> fst (applyClientOp gid op st) = st"
  by (auto simp: effective_def canServe_def duplicate_def applyClientOp_def Let_def split: option.splits)

definition clientType :: "string \<Rightarrow> bool" where
  "clientType t \<longleftrightarrow> t = ''Get'' \<or> t = ''Put'' \<or> t = ''Append''"

abbreviation applyStore :: "int \<Rightarrow> Op \<Rightarrow> shardstore \<Rightarrow> shardstore" where
  "applyStore gid op st \<equiv> fst (applyOp gid op st)"

lemma applyStore_cases:
  obtains (client) "clientType (so_Type op)" "applyStore gid op st = fst (applyClientOp gid op st)"
  | (config) "so_Type op = ''Config''" "applyStore gid op st = applyConfig gid (so_Config op) st"
  | (install) "so_Type op = ''InstallShard''" "applyStore gid op st = applyInstallShard op st"
  | (delete) "so_Type op = ''DeleteShard''" "applyStore gid op st = applyDeleteShard op st"
  | (other) "\<not> clientType (so_Type op)" "applyStore gid op st = st"
  by (cases "clientType (so_Type op)"; cases "so_Type op = ''Config''"; cases "so_Type op = ''InstallShard''";
      cases "so_Type op = ''DeleteShard''") (auto simp: applyOp_def Let_def clientType_def)

subsection \<open>The table of clients only grows\<close>

definition covers :: "(int \<rightharpoonup> int) \<Rightarrow> Op list \<Rightarrow> bool" where
  "covers m ops \<longleftrightarrow> (\<forall>op \<in> set ops. duplicate m (so_ClientId op) (so_Seq op))"

lemma mergeDedup_left: "duplicate new c q \<Longrightarrow> duplicate (mergeDedup new cur) c q"
  by (auto simp: mergeDedup_def duplicate_def split: option.splits)

lemma mergeDedup_right: "duplicate cur c q \<Longrightarrow> duplicate (mergeDedup new cur) c q"
  by (auto simp: mergeDedup_def duplicate_def split: option.splits)

lemma fresh_dedup:
  assumes "\<not> duplicate m c q" and "duplicate m c' q'"
  shows "duplicate (m(c \<mapsto> q)) c' q'"
  using assms by (auto simp: duplicate_def split: option.splits)

lemma applyStore_dedup:
  assumes "duplicate (sk_dedup st) c q"
  shows "duplicate (sk_dedup (applyStore gid op st)) c q"
proof (cases rule: applyStore_cases [of op gid st])
  case client
  show ?thesis
  proof (cases "effective gid op st")
    case True
    then show ?thesis
      by (rule applyClientOp_effective) (use assms True client(2) in \<open>auto simp: effective_def fresh_dedup\<close>)
  qed (use assms client(2) in \<open>simp add: applyClientOp_ineffective\<close>)
qed (use assms in \<open>auto simp: applyConfig_def applyInstallShard_def applyDeleteShard_def Let_def mergeDedup_right\<close>)

lemma covers_applyStore: "covers (sk_dedup st) ops \<Longrightarrow> covers (sk_dedup (applyStore gid op st)) ops"
  by (auto simp: covers_def applyStore_dedup)

end
