(* ===== verification/Migration.thy ===== *)
theory Migration
  imports ShardSteps
begin

section \<open>Moving shards between groups\<close>

text \<open>
  All the groups of the sharded service together. What a group's log determines is a sequence
  of states; \<open>past\<close> holds them, the latest first, since a server that answers a request or
  runs a background loop may be behind. An operation is started at a group when a server of
  the group, in one of its states, decides to (\<open>started\<close>: the loops and handlers of
  \<^verbatim>\<open>shardkv/server.go\<close>), and may then be applied, once or more often, at any later time. \<open>writes\<close>
  records for each shard the client operations that took effect on it, wherever they did.
\<close>

record world =
  past :: "int \<Rightarrow> shardstore list"
  pool :: "int \<Rightarrow> Op list"
  writes :: "int \<Rightarrow> Op list"

definition cur :: "world \<Rightarrow> int \<Rightarrow> shardstore" where
  "cur W g = hd (past W g)"

definition epoch :: "shardstore \<Rightarrow> nat" where
  "epoch st = nat (cfg_Num (sk_config st))"

definition own :: "Config list \<Rightarrow> nat \<Rightarrow> int \<Rightarrow> int" where
  "own cfgs n s = owner (cfgs ! n) s"

definition shardIds :: "int set" where
  "shardIds = {0..<int NShards}"

text \<open>
  What the groups rely on: the controller's configurations are numbered and start with the
  empty one, a shard that has an owner is not left without one, and the names that a
  configuration lists for a group are names of its servers.
\<close>

definition history_ok :: "Config list \<Rightarrow> (string \<Rightarrow> int) \<Rightarrow> bool" where
  "history_ok cfgs grp \<longleftrightarrow>
     0 < length cfgs \<and> cfgs ! 0 = noConfig \<and>
     (\<forall>k < length cfgs. cfg_Num (cfgs ! k) = int k \<and> length (cfg_Shards (cfgs ! k)) = NShards) \<and>
     (\<forall>k s. Suc k < length cfgs \<longrightarrow> s \<in> shardIds \<longrightarrow> own cfgs k s \<noteq> 0 \<longrightarrow> own cfgs (Suc k) s \<noteq> 0) \<and>
     (\<forall>c \<in> set cfgs. \<forall>(gid, servers) \<in> set (cfg_Groups c). \<forall>name \<in> set servers. grp name = gid)"

inductive started :: "Config list \<Rightarrow> (string \<Rightarrow> int) \<Rightarrow> world \<Rightarrow> int \<Rightarrow> Op \<Rightarrow> bool"
  for cfgs :: "Config list" and grp :: "string \<Rightarrow> int" and W :: world where
  client: "clientType (so_Type op) \<Longrightarrow> started cfgs grp W g op"
| poll: "p \<in> set (past W g) \<Longrightarrow> configPoller True query p = Some op \<Longrightarrow> range query \<subseteq> set cfgs \<Longrightarrow>
    started cfgs grp W g op"
| pull: "p \<in> set (past W g) \<Longrightarrow> shardPuller True ks call p = Some ops \<Longrightarrow> ops g' = Some op \<Longrightarrow>
    (\<And>name args r. call name args = Some r \<Longrightarrow> \<exists>l. \<exists>q \<in> set (past W (grp name)). r = PullShard l args q) \<Longrightarrow>
    started cfgs grp W g op"
| gc: "p \<in> set (past W g) \<Longrightarrow> shardGC True ks call p = Some ops \<Longrightarrow> ops g' = Some op \<Longrightarrow>
    started cfgs grp W g op"
| delete: "p \<in> set (past W h) \<Longrightarrow> h \<noteq> 0 \<Longrightarrow> gcTasks ks p = Some tasks \<Longrightarrow> tasks g' = Some args \<Longrightarrow>
    name \<in> set (prevServers g' p) \<Longrightarrow> grp name = g \<Longrightarrow>
    q \<in> set (past W g) \<Longrightarrow> DeleteShard True args q = Inr (op, k) \<Longrightarrow>
    started cfgs grp W g op"
| empty: "emptyLogChecker True b = Some op \<Longrightarrow> started cfgs grp W g op"

definition start :: "int \<Rightarrow> Op \<Rightarrow> world \<Rightarrow> world" where
  "start g op W = W\<lparr>pool := (pool W)(g := op # pool W g)\<rparr>"

definition applyAt :: "int \<Rightarrow> Op \<Rightarrow> world \<Rightarrow> world" where
  "applyAt g op W =
     W\<lparr>past := (past W)(g := applyStore g op (cur W g) # past W g),
       writes := (if clientType (so_Type op) \<and> effective g op (cur W g)
                  then (writes W)(key2shard (so_Key op) := writes W (key2shard (so_Key op)) @ [op])
                  else writes W)\<rparr>"

inductive wstep :: "Config list \<Rightarrow> (string \<Rightarrow> int) \<Rightarrow> world \<Rightarrow> world \<Rightarrow> bool"
  for cfgs :: "Config list" and grp :: "string \<Rightarrow> int" where
  start: "started cfgs grp W g op \<Longrightarrow> g \<noteq> 0 \<Longrightarrow> wstep cfgs grp W (start g op W)"
| applied: "op \<in> set (pool W g) \<Longrightarrow> g \<noteq> 0 \<Longrightarrow> wstep cfgs grp W (applyAt g op W)"

definition startWorld :: world where
  "startWorld = \<lparr>past = (\<lambda>_. [emptyStore]), pool = (\<lambda>_. []), writes = (\<lambda>_. [])\<rparr>"

abbreviation wreach :: "Config list \<Rightarrow> (string \<Rightarrow> int) \<Rightarrow> world \<Rightarrow> bool" where
  "wreach cfgs grp \<equiv> reaches (\<lambda>W. W = startWorld) (wstep cfgs grp)"

subsection \<open>One group\<close>

definition holds :: "shardstore \<Rightarrow> int \<Rightarrow> bool" where
  "holds st s \<longleftrightarrow> (case fmlookup (sk_shards st) s of None \<Rightarrow> False | Some sh \<Rightarrow> sh_State sh = Serving \<or> sh_State sh = GCing)"

definition shard_ok :: "Config list \<Rightarrow> int \<Rightarrow> nat \<Rightarrow> int \<Rightarrow> Shard option \<Rightarrow> bool" where
  "shard_ok cfgs g n s x \<longleftrightarrow>
     (case x of
        None \<Rightarrow> own cfgs n s \<noteq> g
      | Some sh \<Rightarrow>
          (case sh_State sh of
             Serving \<Rightarrow> own cfgs n s = g
           | BePulling \<Rightarrow> 0 < n \<and> own cfgs (n - 1) s = g \<and> own cfgs n s \<noteq> g
           | _ \<Rightarrow> own cfgs n s = g \<and> 0 < n \<and> own cfgs (n - 1) s \<noteq> g \<and> own cfgs (n - 1) s \<noteq> 0))"

definition store_ok :: "Config list \<Rightarrow> int \<Rightarrow> shardstore \<Rightarrow> bool" where
  "store_ok cfgs g st \<longleftrightarrow>
     epoch st < length cfgs \<and> sk_config st = cfgs ! epoch st \<and>
     (0 < epoch st \<longrightarrow> sk_prevConfig st = cfgs ! (epoch st - 1)) \<and>
     (\<forall>s \<in> shardIds. shard_ok cfgs g (epoch st) s (fmlookup (sk_shards st) s)) \<and>
     (\<forall>s. s \<notin> shardIds \<longrightarrow> fmlookup (sk_shards st) s = None)"

lemma history_num: "history_ok cfgs grp \<Longrightarrow> k < length cfgs \<Longrightarrow> cfg_Num (cfgs ! k) = int k"
  by (simp add: history_ok_def)

lemma store_num:
  assumes "history_ok cfgs grp" and "store_ok cfgs g st"
  shows "cfg_Num (sk_config st) = int (epoch st)"
  using assms history_num unfolding store_ok_def by metis

lemma store_holds: "store_ok cfgs g st \<Longrightarrow> holds st s \<Longrightarrow> s \<in> shardIds \<and> own cfgs (epoch st) s = g"
  unfolding store_ok_def holds_def shard_ok_def by (fastforce split: option.splits ShardState.splits)

lemma store_present:
  assumes "store_ok cfgs g st" and "settled st" and "s \<in> shardIds" and "own cfgs (epoch st) s = g"
  obtains sh where "fmlookup (sk_shards st) s = Some sh" and "sh_State sh = Serving" and "holds st s"
  using assms that unfolding store_ok_def holds_def shard_ok_def settled_def
  by (cases "fmlookup (sk_shards st) s") (auto simp: fmpred_iff)

lemma store_absent:
  assumes "store_ok cfgs g st" and "settled st" and "own cfgs (epoch st) s \<noteq> g"
  shows "fmlookup (sk_shards st) s = None"
proof (rule ccontr)
  assume "\<not> ?thesis"
  then obtain sh where sh: "fmlookup (sk_shards st) s = Some sh" by blast
  then have "holds st s" using assms(2) unfolding settled_def fmpred_iff holds_def by auto
  with store_holds [OF assms(1)] assms(3) show False by blast
qed

lemma history_zero: "history_ok cfgs grp \<Longrightarrow> s \<in> shardIds \<Longrightarrow> own cfgs 0 s = 0"
  by (simp add: history_ok_def own_def owner_def noConfig_def shardIds_def nat_less_iff)

lemma epoch_empty [simp]: "epoch emptyStore = 0"
  by (simp add: epoch_def emptyStore_def noConfig_def)

lemma store_ok_start:
  assumes "history_ok cfgs grp" and "g \<noteq> 0"
  shows "store_ok cfgs g emptyStore"
  using assms history_zero [OF assms(1)]
  by (auto simp: store_ok_def history_ok_def shard_ok_def) (auto simp: emptyStore_def)

lemma history_unbroken:
  assumes "history_ok cfgs grp" and "s \<in> shardIds" and "m \<le> n" and "n < length cfgs" and "own cfgs m s \<noteq> 0"
  shows "own cfgs n s \<noteq> 0"
  using assms(3,4)
proof (induction rule: dec_induct)
  case (step k)
  then show ?case using assms(1,2) by (simp add: history_ok_def)
qed (rule assms(5))

text \<open>The other operations leave the epoch as it is.\<close>

lemma store_ok_shards:
  assumes "store_ok cfgs g st" and "sk_config st' = sk_config st" and "sk_prevConfig st' = sk_prevConfig st"
    and "\<And>s. s \<in> shardIds \<Longrightarrow> shard_ok cfgs g (epoch st) s (fmlookup (sk_shards st) s) \<Longrightarrow>
      shard_ok cfgs g (epoch st) s (fmlookup (sk_shards st') s)"
    and "\<And>s. fmlookup (sk_shards st) s = None \<Longrightarrow> fmlookup (sk_shards st') s = None"
  shows "store_ok cfgs g st'"
  using assms unfolding store_ok_def epoch_def by auto

lemma shard_ok_state:
  assumes "shard_ok cfgs g n s (Some sh)" and "sh_State sh' = sh_State sh"
  shows "shard_ok cfgs g n s (Some sh')"
  using assms by (simp add: shard_ok_def)

lemma shard_ok_installed: "shard_ok cfgs g n s x \<Longrightarrow> shard_ok cfgs g n s (installed dat s x)"
  by (cases x) (auto simp: shard_ok_def installed_def split: ShardState.splits)

lemma shard_ok_deleted: "shard_ok cfgs g n s x \<Longrightarrow> shard_ok cfgs g n s (deleted x)"
  by (cases x) (auto simp: shard_ok_def deleted_def split: ShardState.splits)

lemma store_ok_client:
  assumes "store_ok cfgs g st"
  shows "store_ok cfgs g (fst (applyClientOp g op st))"
proof (cases "effective g op st")
  case True
  then show ?thesis
  proof (rule applyClientOp_effective)
    fix sh assume sh: "fmlookup (sk_shards st) (key2shard (so_Key op)) = Some sh"
      "fst (applyClientOp g op st) =
      st\<lparr>sk_shards := fmupd (key2shard (so_Key op)) (sh\<lparr>sh_Data := writeEffect op (sh_Data sh)\<rparr>) (sk_shards st),
         sk_dedup := (sk_dedup st)(so_ClientId op \<mapsto> so_Seq op)\<rparr>"
    show ?thesis
      by (rule store_ok_shards [OF assms]) (use sh in \<open>auto intro: shard_ok_state\<close>)
  qed
qed (use assms in \<open>simp add: applyClientOp_ineffective\<close>)

lemma store_ok_install:
  assumes "store_ok cfgs g st"
  shows "store_ok cfgs g (applyInstallShard op st)"
  by (rule store_ok_shards [OF assms])
    (auto simp: applyInstallShard_def install_all shard_ok_installed)

lemma store_ok_delete:
  assumes "store_ok cfgs g st"
  shows "store_ok cfgs g (applyDeleteShard op st)"
  by (rule store_ok_shards [OF assms])
    (auto simp: applyDeleteShard_def delete_all shard_ok_deleted)

lemma store_ok_config:
  assumes "history_ok cfgs grp" and "store_ok cfgs g st" and "g \<noteq> 0" and "c \<in> set cfgs"
    and "cfg_Num c = cfg_Num (sk_config st) + 1" and "settled st"
  shows "applyConfig g c st = st\<lparr>sk_prevConfig := cfgs ! epoch st, sk_config := cfgs ! Suc (epoch st),
      sk_shards := fold (reassign g (cfgs ! epoch st) (cfgs ! Suc (epoch st))) (map int [0..<NShards]) (sk_shards st)\<rparr>"
    and "epoch (applyConfig g c st) = Suc (epoch st)" and "store_ok cfgs g (applyConfig g c st)"
    and "s \<in> shardIds \<Longrightarrow> fmlookup (sk_shards (applyConfig g c st)) s =
      reassigned g (cfgs ! epoch st) (cfgs ! Suc (epoch st)) s (fmlookup (sk_shards st) s)"
proof -
  obtain k where k: "k < length cfgs" "c = cfgs ! k" using assms(4) by (auto simp: in_set_conv_nth)
  have n: "cfg_Num (sk_config st) = int (epoch st)" by (rule store_num [OF assms(1,2)])
  then have "k = Suc (epoch st)" using k assms(5) history_num [OF assms(1) k(1)] by simp
  with k have k: "Suc (epoch st) < length cfgs" "c = cfgs ! Suc (epoch st)" by simp_all
  have conf: "sk_config st = cfgs ! epoch st" using assms(2) by (simp add: store_ok_def)
  show eq: "applyConfig g c st = st\<lparr>sk_prevConfig := cfgs ! epoch st, sk_config := cfgs ! Suc (epoch st),
      sk_shards := fold (reassign g (cfgs ! epoch st) (cfgs ! Suc (epoch st))) (map int [0..<NShards]) (sk_shards st)\<rparr>"
    using assms(5,6) k(2) conf by (simp add: applyConfig_def Let_def)
  have conf': "sk_config (applyConfig g c st) = cfgs ! Suc (epoch st)" unfolding eq by simp
  show ep: "epoch (applyConfig g c st) = Suc (epoch st)"
    unfolding epoch_def [of "applyConfig g c st"] conf' using history_num [OF assms(1) k(1)] by simp
  have look: "fmlookup (sk_shards (applyConfig g c st)) s =
      (if s \<in> shardIds then reassigned g (cfgs ! epoch st) (cfgs ! Suc (epoch st)) s (fmlookup (sk_shards st) s)
       else fmlookup (sk_shards st) s)" for s
    unfolding eq by (simp add: reassign_all shardIds_def)
  then show "s \<in> shardIds \<Longrightarrow> fmlookup (sk_shards (applyConfig g c st)) s =
      reassigned g (cfgs ! epoch st) (cfgs ! Suc (epoch st)) s (fmlookup (sk_shards st) s)" by simp
  have "shard_ok cfgs g (Suc (epoch st)) s (reassigned g (cfgs ! epoch st) (cfgs ! Suc (epoch st)) s (fmlookup (sk_shards st) s))"
    if s: "s \<in> shardIds" for s
  proof (cases "own cfgs (epoch st) s = g")
    case True
    then obtain sh where "fmlookup (sk_shards st) s = Some sh" by (rule store_present [OF assms(2,6) s])
    with True assms(3) show ?thesis by (auto simp: shard_ok_def reassigned_def own_def newShard_def)
  next
    case False
    with store_absent [OF assms(2,6) False] show ?thesis by (auto simp: shard_ok_def reassigned_def own_def newShard_def)
  qed
  moreover have "fmlookup (sk_shards st) s = None" if "s \<notin> shardIds" for s
    using assms(2) that by (simp add: store_ok_def)
  ultimately show "store_ok cfgs g (applyConfig g c st)"
    unfolding store_ok_def ep using look k(1) by (auto simp: eq)
qed

end
