(* ===== verification/MigrationInv.thy ===== *)
theory MigrationInv
  imports Migration
begin

section \<open>The invariant of the migration\<close>

text \<open>
  A shard is in one place at a time. \<open>got\<close> says that the owner of epoch \<open>n\<close> has had the shard's
  data in that epoch; \<open>inv_custody\<close> that the owners of all earlier epochs have then moved on;
  \<open>inv_good\<close> and \<open>inv_frozen\<close> that whoever holds the shard, or has it ready for the next owner
  who does not have it yet, has exactly the writes that took effect so far, and a table of
  clients that covers them; \<open>inv_pool\<close> the same of the data on its way.
\<close>

definition content :: "Op list \<Rightarrow> kvmap" where
  "content ops = fold writeEffect ops Map.empty"

definition rising :: "Op list \<Rightarrow> bool" where
  "rising ops \<longleftrightarrow> sorted_wrt (\<lambda>x y. so_ClientId x = so_ClientId y \<longrightarrow> so_Seq x < so_Seq y) ops"

definition good :: "(int \<Rightarrow> Op list) \<Rightarrow> shardstore \<Rightarrow> int \<Rightarrow> bool" where
  "good w st s \<longleftrightarrow> (\<exists>sh. fmlookup (sk_shards st) s = Some sh \<and> sh_Data sh = content (w s) \<and> covers (sk_dedup st) (w s))"

definition got :: "Config list \<Rightarrow> world \<Rightarrow> int \<Rightarrow> nat \<Rightarrow> bool" where
  "got cfgs W s n \<longleftrightarrow> own cfgs n s \<noteq> 0 \<and>
     (\<exists>q \<in> set (past W (own cfgs n s)). n < epoch q \<or> epoch q = n \<and> holds q s)"

definition waiting :: "shardstore \<Rightarrow> int \<Rightarrow> bool" where
  "waiting st s \<longleftrightarrow> (\<exists>sh. fmlookup (sk_shards st) s = Some sh \<and> sh_State sh = BePulling)"

definition inv_past :: "Config list \<Rightarrow> world \<Rightarrow> bool" where
  "inv_past cfgs W \<longleftrightarrow> (\<forall>g. past W g \<noteq> []) \<and>
     (\<forall>g q s. g \<noteq> 0 \<longrightarrow> q \<in> set (past W g) \<longrightarrow> store_ok cfgs g q \<and> epoch q \<le> epoch (cur W g) \<and>
        (epoch q = epoch (cur W g) \<longrightarrow> holds q s \<longrightarrow> holds (cur W g) s))"

definition inv_custody :: "Config list \<Rightarrow> world \<Rightarrow> bool" where
  "inv_custody cfgs W \<longleftrightarrow>
     (\<forall>s n m. s \<in> shardIds \<longrightarrow> got cfgs W s n \<longrightarrow> m < n \<longrightarrow> own cfgs m s \<noteq> 0 \<longrightarrow> m < epoch (cur W (own cfgs m s)))"

definition inv_good :: "world \<Rightarrow> bool" where
  "inv_good W \<longleftrightarrow> (\<forall>g s. g \<noteq> 0 \<longrightarrow> holds (cur W g) s \<longrightarrow> good (writes W) (cur W g) s)"

definition inv_frozen :: "Config list \<Rightarrow> world \<Rightarrow> bool" where
  "inv_frozen cfgs W \<longleftrightarrow>
     (\<forall>s n q. s \<in> shardIds \<longrightarrow> 0 < n \<longrightarrow> own cfgs (n - 1) s \<noteq> 0 \<longrightarrow> q \<in> set (past W (own cfgs (n - 1) s)) \<longrightarrow>
        n \<le> epoch q \<longrightarrow> own cfgs n s \<noteq> own cfgs (n - 1) s \<longrightarrow> \<not> got cfgs W s n \<longrightarrow>
        epoch q = n \<and> waiting q s \<and> good (writes W) q s)"

definition install_ok :: "Config list \<Rightarrow> world \<Rightarrow> int \<Rightarrow> Op \<Rightarrow> nat \<Rightarrow> int \<Rightarrow> bool" where
  "install_ok cfgs W g op n s \<longleftrightarrow> s \<in> shardIds \<and> 0 < n \<and> own cfgs n s = g \<and> own cfgs (n - 1) s \<noteq> g \<and>
     own cfgs (n - 1) s \<noteq> 0 \<and> n \<le> epoch (cur W (own cfgs (n - 1) s)) \<and>
     (\<not> got cfgs W s n \<longrightarrow> so_ShardData op s = Some (content (writes W s)) \<and> covers (so_Dedup op) (writes W s))"

definition pooled_ok :: "Config list \<Rightarrow> world \<Rightarrow> int \<Rightarrow> Op \<Rightarrow> bool" where
  "pooled_ok cfgs W g op \<longleftrightarrow>
     (so_Type op = ''Config'' \<longrightarrow> so_Config op \<in> set cfgs) \<and>
     (so_Type op = ''InstallShard'' \<longrightarrow> (\<exists>n. so_ConfigNum op = int n \<and> (\<forall>s \<in> set (so_Shards op). install_ok cfgs W g op n s))) \<and>
     (so_Type op = ''DeleteShard'' \<longrightarrow> (\<exists>n. so_ConfigNum op = int n \<and> (\<forall>s \<in> set (so_Shards op). got cfgs W s n)))"

definition inv_pool :: "Config list \<Rightarrow> world \<Rightarrow> bool" where
  "inv_pool cfgs W \<longleftrightarrow> (\<forall>g op. g \<noteq> 0 \<longrightarrow> op \<in> set (pool W g) \<longrightarrow> pooled_ok cfgs W g op)"

definition inv_writes :: "Config list \<Rightarrow> world \<Rightarrow> bool" where
  "inv_writes cfgs W \<longleftrightarrow> (\<forall>s. rising (writes W s) \<and> (writes W s \<noteq> [] \<longrightarrow> (\<exists>n. got cfgs W s n)))"

definition inv :: "Config list \<Rightarrow> world \<Rightarrow> bool" where
  "inv cfgs W \<longleftrightarrow> inv_past cfgs W \<and> inv_custody cfgs W \<and> inv_good W \<and> inv_frozen cfgs W \<and> inv_pool cfgs W \<and> inv_writes cfgs W"

subsection \<open>Consequences\<close>

lemma cur_past: "inv cfgs W \<Longrightarrow> cur W g \<in> set (past W g)"
  by (simp add: inv_def inv_past_def cur_def)

lemma past_ok:
  assumes "inv cfgs W" and "g \<noteq> 0" and "q \<in> set (past W g)"
  shows "store_ok cfgs g q" and "epoch q \<le> epoch (cur W g)"
    and "epoch q = epoch (cur W g) \<Longrightarrow> holds q s \<Longrightarrow> holds (cur W g) s"
  using assms unfolding inv_def inv_past_def by blast+

lemma custody:
  assumes "inv cfgs W" and "s \<in> shardIds" and "got cfgs W s n" and "m < n" and "own cfgs m s \<noteq> 0"
  shows "m < epoch (cur W (own cfgs m s))"
  using assms unfolding inv_def inv_custody_def by blast

lemma got_passed:
  assumes "inv cfgs W" and "own cfgs n s \<noteq> 0" and "n < epoch (cur W (own cfgs n s))"
  shows "got cfgs W s n"
  using assms cur_past by (auto simp: got_def)

lemma got_down:
  assumes "inv cfgs W" and "s \<in> shardIds" and "got cfgs W s n" and "m \<le> n" and "own cfgs m s \<noteq> 0"
  shows "got cfgs W s m"
proof (cases "m = n")
  case False
  then show ?thesis using got_passed custody assms by (metis le_neq_implies_less)
qed (use assms in simp)

lemma holder:
  assumes "inv cfgs W" and "g \<noteq> 0" and "holds (cur W g) s"
  shows "s \<in> shardIds" and "own cfgs (epoch (cur W g)) s = g" and "got cfgs W s (epoch (cur W g))"
    and "epoch (cur W g) < length cfgs"
proof -
  have ok: "store_ok cfgs g (cur W g)" by (rule past_ok(1) [OF assms(1,2) cur_past [OF assms(1)]])
  from store_holds [OF ok assms(3)] show h: "s \<in> shardIds" "own cfgs (epoch (cur W g)) s = g" by blast+
  with assms cur_past [OF assms(1), of g] show "got cfgs W s (epoch (cur W g))" by (auto simp: got_def)
  show "epoch (cur W g) < length cfgs" using ok by (simp add: store_ok_def)
qed

lemma holder_latest_epoch:
  assumes "inv cfgs W" and "g \<noteq> 0" and "holds (cur W g) s" and "got cfgs W s n"
  shows "n \<le> epoch (cur W g)"
proof (rule ccontr)
  note g = holder [OF assms(1-3)]
  assume "\<not> n \<le> epoch (cur W g)"
  then have "epoch (cur W g) < n" by simp
  from custody [OF assms(1) g(1) assms(4) this] show False unfolding g(2) using assms(2) by simp
qed

lemma holder_unique:
  assumes "inv cfgs W" and "g \<noteq> 0" and "h \<noteq> 0" and "holds (cur W g) s" and "holds (cur W h) s"
  shows "g = h"
proof -
  note g = holder [OF assms(1,2,4)] and h = holder [OF assms(1,3,5)]
  have "epoch (cur W g) = epoch (cur W h)"
    using holder_latest_epoch [OF assms(1,2,4) h(3)] holder_latest_epoch [OF assms(1,3,5) g(3)] by (rule antisym [rotated])
  then show ?thesis using g(2) h(2) by metis
qed

text \<open>While a group holds a shard, no earlier owner waits for a successor that does not have it.\<close>

lemma holder_latest:
  assumes hist: "history_ok cfgs grp" and "inv cfgs W" and "g \<noteq> 0" and "holds (cur W g) s"
    and "0 < n" and "own cfgs (n - 1) s \<noteq> 0" and "n \<le> epoch (cur W (own cfgs (n - 1) s))"
  shows "got cfgs W s n"
proof (cases "n \<le> epoch (cur W g)")
  note g = holder [OF assms(2-4)]
  case True
  then have "own cfgs n s \<noteq> 0"
    using history_unbroken [OF hist g(1), of "n - 1" n] g(4) assms(6) by simp
  then show ?thesis using got_down [OF assms(2) g(1,3) True] by blast
next
  note g = holder [OF assms(2-4)]
  case False
  have "got cfgs W s (n - 1)" using got_passed [OF assms(2,6)] assms(5,7) by linarith
  then have "n - 1 \<le> epoch (cur W g)" by (rule holder_latest_epoch [OF assms(2-4)])
  with False have "epoch (cur W g) = n - 1" by linarith
  with g(2) assms(5,7) show ?thesis by simp
qed

subsection \<open>The initial state\<close>

lemma inv_start:
  assumes "history_ok cfgs grp"
  shows "inv cfgs startWorld"
proof -
  have "store_ok cfgs g emptyStore" if "g \<noteq> 0" for g using store_ok_start [OF assms that] .
  moreover have h: "\<not> holds emptyStore s" for s by (simp add: holds_def emptyStore_def)
  moreover have "\<not> got cfgs startWorld s n" for s n using h by (auto simp: got_def startWorld_def)
  ultimately show ?thesis
    by (simp add: inv_def inv_past_def inv_custody_def inv_good_def inv_frozen_def inv_pool_def inv_writes_def
        cur_def startWorld_def rising_def)
qed

subsection \<open>A group takes a step\<close>

definition record_step :: "int \<Rightarrow> shardstore \<Rightarrow> (int \<Rightarrow> Op list) \<Rightarrow> world \<Rightarrow> world" where
  "record_step g st w W = W\<lparr>past := (past W)(g := st # past W g), writes := w\<rparr>"

lemma record_step_simps [simp]:
  "past (record_step g st w W) h = (if h = g then st # past W g else past W h)"
  "pool (record_step g st w W) = pool W" "writes (record_step g st w W) = w"
  "cur (record_step g st w W) h = (if h = g then st else cur W h)"
  by (simp_all add: record_step_def cur_def)

lemma got_record: "got cfgs W s n \<Longrightarrow> got cfgs (record_step g st w W) s n"
  by (auto simp: got_def)

lemma got_recordD:
  assumes "got cfgs (record_step g st w W) s n"
  shows "got cfgs W s n \<or> own cfgs n s = g \<and> (n < epoch st \<or> epoch st = n \<and> holds st s)"
  using assms by (auto simp: got_def split: if_splits)

lemma good_mono:
  assumes "good w st s" and "fmlookup (sk_shards st') s = fmlookup (sk_shards st) s"
    and "\<And>ops. covers (sk_dedup st) ops \<Longrightarrow> covers (sk_dedup st') ops"
  shows "good w st' s"
  using assms unfolding good_def by metis

lemma good_cong: "w' s = w s \<Longrightarrow> good w' st s = good w st s"
  by (simp add: good_def)

text \<open>
  What a step of a group from its latest state to \<open>st'\<close> must respect: it keeps what it holds
  within an epoch; what it comes to hold, the owner of the epoch before has had and has given
  up; what it holds, or has waiting for a successor, agrees with the writes; and the writes to
  a shard change only if the group holds it.
\<close>

definition step_ok :: "Config list \<Rightarrow> world \<Rightarrow> int \<Rightarrow> shardstore \<Rightarrow> (int \<Rightarrow> Op list) \<Rightarrow> bool" where
  "step_ok cfgs W g st' w' \<longleftrightarrow>
     store_ok cfgs g st' \<and> epoch (cur W g) \<le> epoch st' \<and>
     (\<forall>s. epoch st' = epoch (cur W g) \<longrightarrow> holds (cur W g) s \<longrightarrow> holds st' s) \<and>
     (\<forall>s m. s \<in> shardIds \<longrightarrow> m < epoch st' \<longrightarrow> own cfgs m s = g \<longrightarrow> got cfgs W s m) \<and>
     (\<forall>s m. holds st' s \<longrightarrow> m < epoch st' \<longrightarrow> own cfgs m s \<noteq> 0 \<longrightarrow>
        got cfgs W s (epoch st' - 1) \<and> epoch st' \<le> epoch (cur (record_step g st' w' W) (own cfgs (epoch st' - 1) s))) \<and>
     (\<forall>s. holds st' s \<longrightarrow> good w' st' s) \<and>
     (\<forall>s n. s \<in> shardIds \<longrightarrow> 0 < n \<longrightarrow> n \<le> epoch st' \<longrightarrow> own cfgs (n - 1) s = g \<longrightarrow> own cfgs n s \<noteq> g \<longrightarrow>
        \<not> got cfgs W s n \<longrightarrow> epoch st' = n \<and> waiting st' s \<and> good w' st' s) \<and>
     (\<forall>s. w' s = writes W s \<or> holds (cur W g) s) \<and> (\<forall>s. rising (w' s))"

lemma step_past:
  assumes "inv cfgs W" and "g \<noteq> 0" and "step_ok cfgs W g st' w'"
  shows "inv_past cfgs (record_step g st' w' W)"
proof -
  have "past W h \<noteq> []" for h using assms(1) by (simp add: inv_def inv_past_def)
  moreover have "store_ok cfgs h q \<and> epoch q \<le> epoch (cur (record_step g st' w' W) h) \<and>
      (epoch q = epoch (cur (record_step g st' w' W) h) \<longrightarrow> holds q s \<longrightarrow> holds (cur (record_step g st' w' W) h) s)"
    if "h \<noteq> 0" "q \<in> set (past (record_step g st' w' W) h)" for h q s
  proof (cases "h = g \<and> q \<in> set (past W g)")
    case True
    note q = past_ok [OF assms(1,2), of q]
    have le: "epoch q \<le> epoch (cur W g)" "epoch (cur W g) \<le> epoch st'" using q True assms(3) by (auto simp: step_ok_def)
    have "holds st' s" if "epoch q = epoch st'" "holds q s"
      using q(3) [of s] that True le assms(3) unfolding step_ok_def by (metis le_antisym)
    with q True le show ?thesis by simp
  next
    case False
    with that past_ok [OF assms(1), of h q] assms(3) show ?thesis by (auto simp: step_ok_def split: if_splits)
  qed
  ultimately show ?thesis by (auto simp: inv_past_def)
qed

lemma step_custody:
  assumes "inv cfgs W" and "g \<noteq> 0" and "step_ok cfgs W g st' w'"
  shows "inv_custody cfgs (record_step g st' w' W)"
  unfolding inv_custody_def
proof (intro allI impI)
  fix s n m assume s: "s \<in> shardIds" and gt: "got cfgs (record_step g st' w' W) s n" and m: "m < n" "own cfgs m s \<noteq> 0"
  have le: "epoch (cur W h) \<le> epoch (cur (record_step g st' w' W) h)" for h using assms(3) by (simp add: step_ok_def)
  show "m < epoch (cur (record_step g st' w' W) (own cfgs m s))"
  proof (cases "got cfgs W s n")
    case True
    from custody [OF assms(1) s this m] le show ?thesis by (rule order_less_le_trans)
  next
    case False
    then have n: "own cfgs n s = g" "n < epoch st' \<or> epoch st' = n \<and> holds st' s" using got_recordD [OF gt] by blast+
    then have h: "epoch st' = n" "holds st' s" using False assms(3) s by (auto simp: step_ok_def)
    then have p: "got cfgs W s (n - 1)" "n \<le> epoch (cur (record_step g st' w' W) (own cfgs (n - 1) s))"
      using assms(3) m unfolding step_ok_def by blast+
    show ?thesis
    proof (cases "m = n - 1")
      case True
      with p(2) m(1) show ?thesis by simp
    next
      case False
      with m(1) have "m < n - 1" by linarith
      from custody [OF assms(1) s p(1) this m(2)] le show ?thesis by (rule order_less_le_trans)
    qed
  qed
qed

lemma step_good:
  assumes "inv cfgs W" and "g \<noteq> 0" and "step_ok cfgs W g st' w'"
  shows "inv_good (record_step g st' w' W)"
  unfolding inv_good_def
proof (intro allI impI)
  fix h s assume h: "h \<noteq> 0" "holds (cur (record_step g st' w' W) h) s"
  show "good (writes (record_step g st' w' W)) (cur (record_step g st' w' W) h) s"
  proof (cases "h = g")
    case True
    with h assms(3) show ?thesis by (simp add: step_ok_def)
  next
    case False
    then have "holds (cur W h) s" using h by simp
    then have "\<not> holds (cur W g) s" and "good (writes W) (cur W h) s"
      using holder_unique [OF assms(1) h(1) assms(2)] False assms(1) h(1) by (auto simp: inv_def inv_good_def)
    moreover from this(1) have "w' s = writes W s" using assms(3) by (auto simp: step_ok_def)
    ultimately show ?thesis using False by (simp add: good_cong [of w'])
  qed
qed

lemma step_frozen:
  assumes "history_ok cfgs grp" and "inv cfgs W" and "g \<noteq> 0" and "step_ok cfgs W g st' w'"
  shows "inv_frozen cfgs (record_step g st' w' W)"
  unfolding inv_frozen_def
proof (intro allI impI)
  fix s n q assume s: "s \<in> shardIds" "0 < n" "own cfgs (n - 1) s \<noteq> 0" "n \<le> epoch q" "own cfgs n s \<noteq> own cfgs (n - 1) s"
    and q: "q \<in> set (past (record_step g st' w' W) (own cfgs (n - 1) s))" and "\<not> got cfgs (record_step g st' w' W) s n"
  then have ng: "\<not> got cfgs W s n" using got_record by blast
  show "epoch q = n \<and> waiting q s \<and> good (writes (record_step g st' w' W)) q s"
  proof (cases "q \<in> set (past W (own cfgs (n - 1) s))")
    case True
    then have "n \<le> epoch (cur W (own cfgs (n - 1) s))" using past_ok(2) [OF assms(2) s(3)] s(4) by (meson order_trans)
    then have "\<not> holds (cur W g) s" using holder_latest [OF assms(1-3) _ s(2,3)] ng by blast
    then have "w' s = writes W s" using assms(4) by (auto simp: step_ok_def)
    moreover have "epoch q = n \<and> waiting q s \<and> good (writes W) q s"
      using assms(2) s True ng unfolding inv_def inv_frozen_def by blast
    ultimately show ?thesis by (simp add: good_cong [of w'])
  next
    case False
    then have "own cfgs (n - 1) s = g" "q = st'" using q by (auto split: if_splits)
    with assms(4) s ng show ?thesis by (simp add: step_ok_def)
  qed
qed

lemma step_pool:
  assumes "history_ok cfgs grp" and "inv cfgs W" and "g \<noteq> 0" and "step_ok cfgs W g st' w'"
  shows "inv_pool cfgs (record_step g st' w' W)"
proof -
  have le: "epoch (cur W h) \<le> epoch (cur (record_step g st' w' W) h)" for h using assms(4) by (simp add: step_ok_def)
  have "install_ok cfgs (record_step g st' w' W) h op n s" if i: "install_ok cfgs W h op n s" for h op n s
  proof -
    have "w' s = writes W s" if "\<not> got cfgs W s n"
      using holder_latest [OF assms(1-3), of s n] that i assms(4) unfolding install_ok_def step_ok_def by blast
    then show ?thesis
      using i got_record [of cfgs W s n] le [of "own cfgs (n - 1) s"] unfolding install_ok_def record_step_simps(3)
      by (metis order_trans)
  qed
  then have "pooled_ok cfgs (record_step g st' w' W) h op" if "pooled_ok cfgs W h op" for h op
    using that got_record unfolding pooled_ok_def by metis
  then show ?thesis using assms(2) by (simp add: inv_def inv_pool_def)
qed

lemma step_writes:
  assumes "inv cfgs W" and "g \<noteq> 0" and "step_ok cfgs W g st' w'"
  shows "inv_writes cfgs (record_step g st' w' W)"
proof -
  have "\<exists>n. got cfgs (record_step g st' w' W) s n" if "w' s \<noteq> []" for s
  proof (cases "w' s = writes W s")
    case True
    then show ?thesis using assms(1) that got_record unfolding inv_def inv_writes_def by metis
  next
    case False
    then have "holds (cur W g) s" using assms(3) by (auto simp: step_ok_def)
    then show ?thesis using holder(3) [OF assms(1,2)] got_record by metis
  qed
  with assms(3) show ?thesis by (simp add: inv_writes_def step_ok_def)
qed

lemma inv_record:
  assumes "history_ok cfgs grp" and "inv cfgs W" and "g \<noteq> 0" and "step_ok cfgs W g st' w'"
  shows "inv cfgs (record_step g st' w' W)"
  unfolding inv_def
  using step_past [OF assms(2-4)] step_custody [OF assms(2-4)] step_good [OF assms(2-4)] step_frozen [OF assms]
    step_pool [OF assms] step_writes [OF assms(2-4)] by blast

end
