(* ===== verification/MigrationSteps.thy ===== *)
theory MigrationSteps
  imports MigrationInv
begin

section \<open>Every step keeps the invariant\<close>

text \<open>
  The operations of the log, one after the other, and the operations that the background loops
  and handlers start.
\<close>

subsection \<open>Within an epoch\<close>

lemma frozen:
  assumes "inv cfgs W" and "s \<in> shardIds" and "0 < n" and "own cfgs (n - 1) s = g" and "g \<noteq> 0" and "q \<in> set (past W g)"
    and "n \<le> epoch q" and "own cfgs n s \<noteq> g" and "\<not> got cfgs W s n"
  shows "epoch q = n" and "waiting q s" and "good (writes W) q s"
  using assms unfolding inv_def inv_frozen_def by blast+

lemma waiting_not_holds: "waiting st s \<Longrightarrow> \<not> holds st s"
  by (auto simp: waiting_def holds_def)

lemma holder_source:
  assumes "history_ok cfgs grp" and "inv cfgs W" and "g \<noteq> 0" and "holds (cur W g) s" and "m < epoch (cur W g)" and "own cfgs m s \<noteq> 0"
  shows "got cfgs W s (epoch (cur W g) - 1)"
    and "epoch (cur W g) \<le> epoch (cur W (own cfgs (epoch (cur W g) - 1) s))"
proof -
  note h = holder [OF assms(2-4)]
  have "own cfgs (epoch (cur W g) - 1) s \<noteq> 0"
    using history_unbroken [OF assms(1) h(1), of m "epoch (cur W g) - 1"] assms(5,6) h(4) by simp
  from custody [OF assms(2) h(1,3) _ this] this got_passed [OF assms(2) this] assms(5)
  show "got cfgs W s (epoch (cur W g) - 1)" and "epoch (cur W g) \<le> epoch (cur W (own cfgs (epoch (cur W g) - 1) s))" by auto
qed

lemma step_ok_same:
  assumes hist: "history_ok cfgs grp" and inv: "inv cfgs W" and g: "g \<noteq> 0"
    and conf: "sk_config st' = sk_config (cur W g)" and ok: "store_ok cfgs g st'"
    and keep: "\<And>s. holds (cur W g) s \<Longrightarrow> holds st' s"
    and acq: "\<And>s. holds st' s \<Longrightarrow> \<not> holds (cur W g) s \<Longrightarrow> own cfgs (epoch (cur W g) - 1) s \<noteq> g \<and>
      got cfgs W s (epoch (cur W g) - 1) \<and> epoch (cur W g) \<le> epoch (cur W (own cfgs (epoch (cur W g) - 1) s))"
    and gd: "\<And>s. holds st' s \<Longrightarrow> good w' st' s"
    and frz: "\<And>s. s \<in> shardIds \<Longrightarrow> \<not> got cfgs W s (epoch (cur W g)) \<Longrightarrow> waiting (cur W g) s \<Longrightarrow>
      fmlookup (sk_shards st') s = fmlookup (sk_shards (cur W g)) s"
    and cov: "\<And>ops. covers (sk_dedup (cur W g)) ops \<Longrightarrow> covers (sk_dedup st') ops"
    and wr: "\<And>s. w' s = writes W s \<or> holds (cur W g) s" and ris: "\<And>s. rising (w' s)"
  shows "step_ok cfgs W g st' w'"
proof -
  have ep: "epoch st' = epoch (cur W g)" using conf by (simp add: epoch_def)
  have "got cfgs W s m" if "m < epoch (cur W g)" "own cfgs m s = g" for s m
    using got_passed [OF inv, of m s] that g by simp
  moreover have "got cfgs W s (epoch (cur W g) - 1) \<and>
      epoch (cur W g) \<le> epoch (cur (record_step g st' w' W) (own cfgs (epoch (cur W g) - 1) s))"
    if "holds st' s" "m < epoch (cur W g)" "own cfgs m s \<noteq> 0" for s m
  proof (cases "holds (cur W g) s")
    case True
    show ?thesis using holder_source [OF hist inv g True that(2,3)] by (simp add: ep)
  next
    case False
    show ?thesis using acq [OF that(1) False] by simp
  qed
  moreover have "epoch (cur W g) = n \<and> waiting st' s \<and> good w' st' s"
    if s: "s \<in> shardIds" "0 < n" "own cfgs (n - 1) s = g" and n: "n \<le> epoch (cur W g)" "own cfgs n s \<noteq> g" "\<not> got cfgs W s n" for s n
  proof -
    note f = frozen [OF inv s g cur_past [OF inv] n]
    have same: "fmlookup (sk_shards st') s = fmlookup (sk_shards (cur W g)) s" using frz [OF s(1)] f(1,2) n(3) by simp
    moreover have "w' s = writes W s" using wr waiting_not_holds [OF f(2)] by blast
    ultimately have "good w' st' s" using good_mono [OF f(3) same cov] by (simp add: good_cong [of w'])
    with f same show ?thesis by (simp add: waiting_def)
  qed
  ultimately show ?thesis
    unfolding step_ok_def ep using ok keep gd wr ris by blast
qed

lemma step_ok_none:
  assumes "history_ok cfgs grp" and "inv cfgs W" and "g \<noteq> 0"
  shows "step_ok cfgs W g (cur W g) (writes W)"
proof (rule step_ok_same [OF assms])
  show "store_ok cfgs g (cur W g)" by (rule past_ok(1) [OF assms(2,3) cur_past [OF assms(2)]])
  show "holds (cur W g) s \<Longrightarrow> good (writes W) (cur W g) s" and "rising (writes W s)" for s
    using assms(2,3) by (simp_all add: inv_def inv_good_def inv_writes_def)
qed simp_all

subsection \<open>Client operations\<close>

lemma rising_snoc:
  assumes "rising ops" and "covers m ops" and "\<not> duplicate m (so_ClientId op) (so_Seq op)"
  shows "rising (ops @ [op])"
  using assms by (auto simp: rising_def sorted_wrt_append covers_def duplicate_def split: option.splits)

lemma covers_snoc:
  assumes "covers m ops" and "\<not> duplicate m (so_ClientId op) (so_Seq op)"
  shows "covers (m(so_ClientId op \<mapsto> so_Seq op)) (ops @ [op])"
proof -
  have "duplicate (m(so_ClientId op \<mapsto> so_Seq op)) (so_ClientId op) (so_Seq op)" by (simp add: duplicate_def)
  with assms(1) show ?thesis by (auto simp: covers_def intro: fresh_dedup [OF assms(2)])
qed

lemma step_ok_client:
  assumes hist: "history_ok cfgs grp" and inv: "inv cfgs W" and g: "g \<noteq> 0" and eff: "effective g op (cur W g)"
  shows "step_ok cfgs W g (fst (applyClientOp g op (cur W g)))
    ((writes W)(key2shard (so_Key op) := writes W (key2shard (so_Key op)) @ [op]))"
proof -
  let ?k = "key2shard (so_Key op)" and ?st = "cur W g"
  obtain sh where sh: "fmlookup (sk_shards ?st) ?k = Some sh" "sh_State sh = Serving"
    "fst (applyClientOp g op ?st) =
      ?st\<lparr>sk_shards := fmupd ?k (sh\<lparr>sh_Data := writeEffect op (sh_Data sh)\<rparr>) (sk_shards ?st),
         sk_dedup := (sk_dedup ?st)(so_ClientId op \<mapsto> so_Seq op)\<rparr>"
    using applyClientOp_effective [OF eff] by metis
  have fresh: "\<not> duplicate (sk_dedup ?st) (so_ClientId op) (so_Seq op)" using eff by (simp add: effective_def)
  have ok: "store_ok cfgs g ?st" by (rule past_ok(1) [OF inv g cur_past [OF inv]])
  have hk: "holds ?st ?k" using sh(1,2) by (simp add: holds_def)
  have good: "good (writes W) ?st s" if "holds ?st s" for s using inv g that by (simp add: inv_def inv_good_def)
  have cov: "covers ((sk_dedup ?st)(so_ClientId op \<mapsto> so_Seq op)) ops" if "covers (sk_dedup ?st) ops" for ops
    using that fresh_dedup [OF fresh] by (simp add: covers_def)
  have hs: "holds (fst (applyClientOp g op ?st)) s = holds ?st s" for s
    unfolding sh(3) using sh(1,2) by (auto simp: holds_def)
  show ?thesis
  proof (rule step_ok_same [OF hist inv g])
    show "store_ok cfgs g (fst (applyClientOp g op ?st))" by (rule store_ok_client [OF ok])
    show "good ((writes W)(?k := writes W ?k @ [op])) (fst (applyClientOp g op ?st)) s"
      if "holds (fst (applyClientOp g op ?st)) s" for s
    proof (cases "s = ?k")
      case True
      from good [OF hk] show ?thesis
        unfolding True sh(3) using sh(1) covers_snoc [OF _ fresh] by (auto simp: good_def content_def)
    next
      case False
      have "good (writes W) ?st s" using good that by (simp only: hs)
      with False cov show ?thesis unfolding sh(3) by (auto simp: good_def)
    qed
    show "rising (((writes W)(?k := writes W ?k @ [op])) s)" for s
    proof -
      have "covers (sk_dedup ?st) (writes W ?k)" using good [OF hk] by (auto simp: good_def)
      from rising_snoc [OF _ this fresh] inv show ?thesis by (simp add: inv_def inv_writes_def)
    qed
    show "waiting ?st s \<Longrightarrow> fmlookup (sk_shards (fst (applyClientOp g op ?st))) s = fmlookup (sk_shards ?st) s" for s
      using waiting_not_holds [of ?st s] hk unfolding sh(3) by auto
  qed (use hk hs cov in \<open>auto simp: sh(3)\<close>)
qed

subsection \<open>Migration operations\<close>

lemma covers_merge: "covers m ops \<Longrightarrow> covers (mergeDedup new m) ops" "covers new ops \<Longrightarrow> covers (mergeDedup new m) ops"
  by (auto simp: covers_def mergeDedup_left mergeDedup_right)

lemma applyInstallShard_lookup:
  assumes "so_ConfigNum op = cfg_Num (sk_config st)"
  shows "fmlookup (sk_shards (applyInstallShard op st)) s =
    (if s \<in> set (so_Shards op) then installed (so_ShardData op) s (fmlookup (sk_shards st) s) else fmlookup (sk_shards st) s)"
  using assms by (simp add: applyInstallShard_def install_all)

lemma install_holds:
  assumes "so_ConfigNum op = cfg_Num (sk_config st)"
  shows "holds (applyInstallShard op st) s \<longleftrightarrow> holds st s \<or>
    s \<in> set (so_Shards op) \<and> (\<exists>sh. fmlookup (sk_shards st) s = Some sh \<and> sh_State sh = Pulling)"
  by (cases "fmlookup (sk_shards st) s") (auto simp: holds_def applyInstallShard_lookup [OF assms] installed_def)

lemma install_same:
  assumes "so_ConfigNum op = cfg_Num (sk_config st)" and "holds st s \<or> waiting st s"
  shows "fmlookup (sk_shards (applyInstallShard op st)) s = fmlookup (sk_shards st) s"
  using assms(2) by (auto simp: holds_def waiting_def applyInstallShard_lookup [OF assms(1)] installed_def split: option.splits)

lemma pulling_not_got:
  assumes "inv cfgs W" and "g \<noteq> 0" and "own cfgs (epoch (cur W g)) s = g" and "\<not> holds (cur W g) s"
  shows "\<not> got cfgs W s (epoch (cur W g))"
proof
  assume "got cfgs W s (epoch (cur W g))"
  then obtain q where q: "q \<in> set (past W g)" "epoch (cur W g) < epoch q \<or> epoch q = epoch (cur W g) \<and> holds q s"
    unfolding got_def assms(3) by blast
  with past_ok [OF assms(1,2) q(1)] assms(4) show False by fastforce
qed

lemma step_ok_install:
  assumes hist: "history_ok cfgs grp" and inv: "inv cfgs W" and g: "g \<noteq> 0"
    and pooled: "pooled_ok cfgs W g op" "so_Type op = ''InstallShard''"
    and num: "so_ConfigNum op = cfg_Num (sk_config (cur W g))"
  shows "step_ok cfgs W g (applyInstallShard op (cur W g)) (writes W)"
proof -
  let ?st = "cur W g"
  have ok: "store_ok cfgs g ?st" by (rule past_ok(1) [OF inv g cur_past [OF inv]])
  have inst: "install_ok cfgs W g op (epoch ?st) s" if "s \<in> set (so_Shards op)" for s
    using pooled num store_num [OF hist ok] that by (auto simp: pooled_ok_def)
  have dd: "sk_dedup (applyInstallShard op ?st) = mergeDedup (so_Dedup op) (sk_dedup ?st)"
    using num by (simp add: applyInstallShard_def)
  have good: "good (writes W) ?st s" if "holds ?st s" for s using inv g that by (simp add: inv_def inv_good_def)
  have new: "install_ok cfgs W g op (epoch ?st) s" "\<not> got cfgs W s (epoch ?st)"
      "\<exists>sh. fmlookup (sk_shards ?st) s = Some sh \<and> sh_State sh = Pulling" "s \<in> set (so_Shards op)"
    if "holds (applyInstallShard op ?st) s" "\<not> holds ?st s" for s
  proof -
    show s: "s \<in> set (so_Shards op)" "\<exists>sh. fmlookup (sk_shards ?st) s = Some sh \<and> sh_State sh = Pulling"
      using that install_holds [OF num] by blast+
    show i: "install_ok cfgs W g op (epoch ?st) s" by (rule inst [OF s(1)])
    show "\<not> got cfgs W s (epoch ?st)"
      by (rule pulling_not_got [OF inv g _ that(2)]) (use i in \<open>simp add: install_ok_def\<close>)
  qed
  show ?thesis
  proof (rule step_ok_same [OF hist inv g])
    show "store_ok cfgs g (applyInstallShard op ?st)" by (rule store_ok_install [OF ok])
    show "own cfgs (epoch ?st - 1) s \<noteq> g \<and> got cfgs W s (epoch ?st - 1) \<and> epoch ?st \<le> epoch (cur W (own cfgs (epoch ?st - 1) s))"
      if "holds (applyInstallShard op ?st) s" "\<not> holds ?st s" for s
    proof -
      have i: "0 < epoch ?st" "own cfgs (epoch ?st - 1) s \<noteq> 0" "own cfgs (epoch ?st - 1) s \<noteq> g"
        "epoch ?st \<le> epoch (cur W (own cfgs (epoch ?st - 1) s))" using new(1) [OF that] by (simp_all add: install_ok_def)
      from got_passed [OF inv i(2)] i show ?thesis by simp
    qed
    show "good (writes W) (applyInstallShard op ?st) s" if "holds (applyInstallShard op ?st) s" for s
    proof (cases "holds ?st s")
      case True
      show ?thesis
        by (rule good_mono [OF good [OF True]]) (simp_all add: install_same [OF num] True dd covers_merge)
    next
      case False
      note n = new [OF that False]
      then have "so_ShardData op s = Some (content (writes W s))" "covers (so_Dedup op) (writes W s)"
        by (simp_all add: install_ok_def)
      with n(3,4) show ?thesis
        by (auto simp: good_def applyInstallShard_lookup [OF num] installed_def dd covers_merge)
    qed
    show "waiting ?st s \<Longrightarrow> fmlookup (sk_shards (applyInstallShard op ?st)) s = fmlookup (sk_shards ?st) s" for s
      by (rule install_same [OF num]) simp
    show "rising (writes W s)" for s using inv by (simp add: inv_def inv_writes_def)
  qed (auto simp: install_holds [OF num] dd covers_merge, simp_all add: applyInstallShard_def)
qed

lemma applyDeleteShard_lookup:
  assumes "so_ConfigNum op = cfg_Num (sk_config st)"
  shows "fmlookup (sk_shards (applyDeleteShard op st)) s =
    (if s \<in> set (so_Shards op) then deleted (fmlookup (sk_shards st) s) else fmlookup (sk_shards st) s)"
  using assms by (simp add: applyDeleteShard_def delete_all)

lemma delete_holds:
  assumes "so_ConfigNum op = cfg_Num (sk_config st)"
  shows "holds (applyDeleteShard op st) s \<longleftrightarrow> holds st s"
  by (cases "fmlookup (sk_shards st) s") (auto simp: holds_def applyDeleteShard_lookup [OF assms] deleted_def)

lemma step_ok_delete:
  assumes hist: "history_ok cfgs grp" and inv: "inv cfgs W" and g: "g \<noteq> 0"
    and pooled: "pooled_ok cfgs W g op" "so_Type op = ''DeleteShard''"
    and num: "so_ConfigNum op = cfg_Num (sk_config (cur W g))"
  shows "step_ok cfgs W g (applyDeleteShard op (cur W g)) (writes W)"
proof -
  let ?st = "cur W g"
  have ok: "store_ok cfgs g ?st" by (rule past_ok(1) [OF inv g cur_past [OF inv]])
  have got: "got cfgs W s (epoch ?st)" if "s \<in> set (so_Shards op)" for s
    using pooled num store_num [OF hist ok] that by (auto simp: pooled_ok_def)
  have dd: "sk_dedup (applyDeleteShard op ?st) = sk_dedup ?st" by (simp add: applyDeleteShard_def)
  have good: "good (writes W) ?st s" if "holds ?st s" for s using inv g that by (simp add: inv_def inv_good_def)
  show ?thesis
  proof (rule step_ok_same [OF hist inv g])
    show "store_ok cfgs g (applyDeleteShard op ?st)" by (rule store_ok_delete [OF ok])
    show "good (writes W) (applyDeleteShard op ?st) s" if "holds (applyDeleteShard op ?st) s" for s
      using good [of s] that delete_holds [OF num, of s]
      by (auto simp: good_def applyDeleteShard_lookup [OF num] deleted_def dd holds_def split: option.splits)
    show "fmlookup (sk_shards (applyDeleteShard op ?st)) s = fmlookup (sk_shards ?st) s"
      if "\<not> got cfgs W s (epoch ?st)" for s
      using got [of s] that by (auto simp: applyDeleteShard_lookup [OF num])
    show "rising (writes W s)" for s using inv by (simp add: inv_def inv_writes_def)
  qed (auto simp: delete_holds [OF num] dd, simp_all add: applyDeleteShard_def)
qed

subsection \<open>The next configuration\<close>

lemma waiting_not_settled: "waiting st s \<Longrightarrow> \<not> settled st"
  unfolding waiting_def settled_def fmpred_iff by fastforce

text \<open>A shard that gets its first owner has not been written to.\<close>

lemma first_owner_empty:
  assumes hist: "history_ok cfgs grp" and inv: "inv cfgs W" and g: "g \<noteq> 0" and s: "s \<in> shardIds"
    and len: "Suc (epoch (cur W g)) < length cfgs"
    and old: "own cfgs (epoch (cur W g)) s = 0" and new: "own cfgs (Suc (epoch (cur W g))) s = g"
  shows "writes W s = []"
proof (rule ccontr)
  let ?n = "epoch (cur W g)"
  assume "writes W s \<noteq> []"
  then obtain k where k: "got cfgs W s k" using inv by (auto simp: inv_def inv_writes_def)
  have "own cfgs k s \<noteq> 0" using k by (simp add: got_def)
  then have "\<not> k \<le> ?n" using history_unbroken [OF hist s, of k ?n] len old by auto
  moreover have "\<not> Suc ?n < k" using custody [OF inv s k, of "Suc ?n"] new g by auto
  ultimately have "k = Suc ?n" by linarith
  then obtain q where "q \<in> set (past W g)" "?n < epoch q" using k new unfolding got_def by auto
  then show False using past_ok(2) [OF inv g, of q] by simp
qed

lemma reassigned_kept:
  assumes "holds st s" and "owner old s = gid" and "settled st"
  obtains sh where "fmlookup (sk_shards st) s = Some sh" and "sh_State sh = Serving"
    and "reassigned gid old new s (fmlookup (sk_shards st) s) =
      Some (sh\<lparr>sh_State := (if owner new s = gid then Serving else BePulling)\<rparr>)"
  using assms that by (auto simp: holds_def settled_def fmpred_iff reassigned_def split: option.splits)

text \<open>What the group owned before it keeps, or has it waiting; what it gets without an owner before is new.\<close>

lemma config_kept:
  assumes hist: "history_ok cfgs grp" and inv: "inv cfgs W" and g: "g \<noteq> 0" and c: "c \<in> set cfgs"
    and num: "cfg_Num c = cfg_Num (sk_config (cur W g)) + 1" and set: "settled (cur W g)"
    and s: "s \<in> shardIds" and own: "own cfgs (epoch (cur W g)) s = g"
  shows "holds (cur W g) s" and "good (writes W) (applyConfig g c (cur W g)) s"
    and "own cfgs (Suc (epoch (cur W g))) s \<noteq> g \<Longrightarrow> waiting (applyConfig g c (cur W g)) s"
proof -
  let ?st = "cur W g" and ?st' = "applyConfig g c (cur W g)" and ?n = "epoch (cur W g)"
  have ok: "store_ok cfgs g ?st" by (rule past_ok(1) [OF inv g cur_past [OF inv]])
  note a = store_ok_config [OF hist ok g c num set]
  show h: "holds ?st s" using store_present [OF ok set s own] by blast
  then have gd: "good (writes W) ?st s" using inv g by (simp add: inv_def inv_good_def)
  obtain sh where sh: "fmlookup (sk_shards ?st) s = Some sh" "fmlookup (sk_shards ?st') s =
      Some (sh\<lparr>sh_State := (if owner (cfgs ! Suc ?n) s = g then Serving else BePulling)\<rparr>)"
    using reassigned_kept [OF h _ set, of "cfgs ! ?n" g "cfgs ! Suc ?n"] own a(4) [OF s] unfolding own_def by metis
  show "good (writes W) ?st' s" using gd sh by (simp add: good_def a(1))
  show "own cfgs (Suc ?n) s \<noteq> g \<Longrightarrow> waiting ?st' s" using sh(2) by (simp add: waiting_def own_def)
qed

lemma config_fresh:
  assumes hist: "history_ok cfgs grp" and inv: "inv cfgs W" and g: "g \<noteq> 0" and c: "c \<in> set cfgs"
    and num: "cfg_Num c = cfg_Num (sk_config (cur W g)) + 1" and set: "settled (cur W g)"
    and h: "holds (applyConfig g c (cur W g)) s" and own: "own cfgs (epoch (cur W g)) s \<noteq> g"
  shows "own cfgs (epoch (cur W g)) s = 0" and "good (writes W) (applyConfig g c (cur W g)) s"
proof -
  let ?st = "cur W g" and ?st' = "applyConfig g c (cur W g)" and ?n = "epoch (cur W g)"
  have ok: "store_ok cfgs g ?st" by (rule past_ok(1) [OF inv g cur_past [OF inv]])
  note a = store_ok_config [OF hist ok g c num set]
  have len: "Suc ?n < length cfgs" using a(2,3) by (auto simp: store_ok_def)
  have s: "s \<in> shardIds" "own cfgs (Suc ?n) s = g" using store_holds [OF a(3) h] a(2) by auto
  have l: "fmlookup (sk_shards ?st') s = reassigned g (cfgs ! ?n) (cfgs ! Suc ?n) s None"
    using a(4) [OF s(1)] store_absent [OF ok set own] by simp
  then show old: "own cfgs ?n s = 0"
    using h own s(2) by (auto simp: holds_def reassigned_def own_def split: if_splits)
  then have "writes W s = []" by (rule first_owner_empty [OF hist inv g s(1) len _ s(2)])
  moreover have "fmlookup (sk_shards ?st') s = Some newShard"
    unfolding l using old s(2) by (simp add: reassigned_def own_def newShard_def)
  ultimately show "good (writes W) ?st' s" by (simp add: good_def content_def covers_def newShard_def)
qed

lemma step_ok_config:
  assumes hist: "history_ok cfgs grp" and inv: "inv cfgs W" and g: "g \<noteq> 0" and c: "c \<in> set cfgs"
    and num: "cfg_Num c = cfg_Num (sk_config (cur W g)) + 1" and set: "settled (cur W g)"
  shows "step_ok cfgs W g (applyConfig g c (cur W g)) (writes W)"
proof -
  let ?st = "cur W g" and ?st' = "applyConfig g c (cur W g)" and ?n = "epoch (cur W g)"
  have ok: "store_ok cfgs g ?st" by (rule past_ok(1) [OF inv g cur_past [OF inv]])
  note a = store_ok_config [OF hist ok g c num set]
    and kept = config_kept [OF hist inv g c num set] and fresh = config_fresh [OF hist inv g c num set]
  have len: "Suc ?n < length cfgs" using a(2,3) by (auto simp: store_ok_def)
  have "got cfgs W s m" if "s \<in> shardIds" "m < Suc ?n" "own cfgs m s = g" for s m
  proof (cases "m = ?n")
    case True
    then show ?thesis using holder(3) [OF inv g kept(1) [OF that(1)]] that(3) by simp
  next
    case False
    with that g show ?thesis by (intro got_passed [OF inv]) simp_all
  qed
  moreover have "got cfgs W s ?n \<and> Suc ?n \<le> epoch (cur (record_step g ?st' (writes W) W) (own cfgs ?n s))"
    if "holds ?st' s" "m < Suc ?n" "own cfgs m s \<noteq> 0" for s m
  proof -
    have s: "s \<in> shardIds" using store_holds [OF a(3) that(1)] by blast
    have "own cfgs ?n s \<noteq> 0" using history_unbroken [OF hist s, of m ?n] that(2,3) len by simp
    then have o: "own cfgs ?n s = g" using fresh(1) [OF that(1)] by blast
    then have "got cfgs W s ?n" by (rule holder(3) [OF inv g kept(1) [OF s]])
    with o show ?thesis by (simp add: a(2))
  qed
  moreover have "good (writes W) ?st' s" if "holds ?st' s" for s
    using kept(2) fresh(2) that store_holds [OF a(3) that] by blast
  moreover have "Suc ?n = k \<and> waiting ?st' s \<and> good (writes W) ?st' s"
    if s: "s \<in> shardIds" "0 < k" "own cfgs (k - 1) s = g" and k: "k \<le> Suc ?n" "own cfgs k s \<noteq> g" "\<not> got cfgs W s k" for s k
  proof (cases "k = Suc ?n")
    case True
    with s k kept(2,3) [OF s(1)] show ?thesis by simp
  next
    case False
    then have "k \<le> ?n" using k(1) by simp
    from frozen(2) [OF inv s g cur_past [OF inv] this k(2,3)] set show ?thesis using waiting_not_settled by blast
  qed
  ultimately show ?thesis
    using a(3) inv unfolding step_ok_def a(2) by (simp add: inv_def inv_writes_def)
qed

subsection \<open>Applying an operation\<close>

lemma applyAt_record:
  "applyAt g op W = record_step g (applyStore g op (cur W g))
     (if clientType (so_Type op) \<and> effective g op (cur W g)
      then (writes W)(key2shard (so_Key op) := writes W (key2shard (so_Key op)) @ [op]) else writes W) W"
  by (simp add: applyAt_def record_step_def)

lemma inv_applyAt:
  assumes hist: "history_ok cfgs grp" and inv: "inv cfgs W" and g: "g \<noteq> 0" and op: "op \<in> set (pool W g)"
  shows "inv cfgs (applyAt g op W)"
proof -
  have pooled: "pooled_ok cfgs W g op" using inv g op by (simp add: inv_def inv_pool_def)
  note none = step_ok_none [OF hist inv g]
  show ?thesis
    unfolding applyAt_record
  proof (rule inv_record [OF hist inv g])
    show "step_ok cfgs W g (applyStore g op (cur W g)) (if clientType (so_Type op) \<and> effective g op (cur W g)
      then (writes W)(key2shard (so_Key op) := writes W (key2shard (so_Key op)) @ [op]) else writes W)"
    proof (cases rule: applyStore_cases [of op g "cur W g"])
      case client
      then show ?thesis
        using step_ok_client [OF hist inv g] none by (cases "effective g op (cur W g)") (simp_all add: applyClientOp_ineffective)
    next
      case config
      have "so_Config op \<in> set cfgs" using pooled config(1) by (simp add: pooled_ok_def)
      from step_ok_config [OF hist inv g this] none config show ?thesis
        by (cases "cfg_Num (so_Config op) = cfg_Num (sk_config (cur W g)) + 1 \<and> settled (cur W g)")
          (auto simp: clientType_def applyConfig_def)
    next
      case install
      from step_ok_install [OF hist inv g pooled install(1)] none install show ?thesis
        by (cases "so_ConfigNum op = cfg_Num (sk_config (cur W g))") (auto simp: clientType_def applyInstallShard_def)
    next
      case delete
      from step_ok_delete [OF hist inv g pooled delete(1)] none delete show ?thesis
        by (cases "so_ConfigNum op = cfg_Num (sk_config (cur W g))") (auto simp: clientType_def applyDeleteShard_def)
    next
      case other
      with none show ?thesis by simp
    qed
  qed
qed

subsection \<open>Starting an operation\<close>

lemma groupShards_mem:
  assumes "groupShards state st ks m = Some m'" and "m' gid = Some shards" and "s \<in> set shards"
  shows "(\<exists>l. m gid = Some l \<and> s \<in> set l) \<or>
    (\<exists>sh. fmlookup (sk_shards st) s = Some sh \<and> sh_State sh = state \<and> slice_get (cfg_Shards (sk_prevConfig st)) s = Some gid)"
  using assms(1)
proof (induction ks arbitrary: m)
  case Nil
  then show ?case using assms(2,3) by simp
next
  case (Cons k ks)
  show ?case
  proof (cases "\<exists>sh. fmlookup (sk_shards st) k = Some sh \<and> sh_State sh = state")
    case True
    then obtain sh v where k: "fmlookup (sk_shards st) k = Some sh" "sh_State sh = state"
      "slice_get (cfg_Shards (sk_prevConfig st)) k = Some v"
      "groupShards state st ks (m(v \<mapsto> (case m v of None \<Rightarrow> [] | Some l \<Rightarrow> l) @ [k])) = Some m'"
      using Cons.prems by (auto split: Option.bind_splits)
    from Cons.IH [OF k(4)] k(1-3) show ?thesis by (auto split: if_splits option.splits)
  next
    case False
    then have "groupShards state st ks m = Some m'" using Cons.prems by (auto split: option.splits)
    then show ?thesis by (rule Cons.IH)
  qed
qed

lemma grouped:
  assumes "groupShards state st ks Map.empty = Some m" and "m gid = Some shards" and "s \<in> set shards"
  obtains sh where "fmlookup (sk_shards st) s = Some sh" and "sh_State sh = state" and "owner (sk_prevConfig st) s = gid"
  using groupShards_mem [OF assms] that by (auto simp: slice_get_def owner_def split: if_splits)

lemma firstOK_Some:
  assumes "firstOK call ok names = Some r"
  obtains name where "name \<in> set names" and "call name = Some r" and "ok r"
  using assms by (induction names arbitrary: thesis) (auto split: option.splits if_splits)

lemma prevServers_group:
  assumes "history_ok cfgs grp" and "store_ok cfgs g st" and "0 < epoch st" and "name \<in> set (prevServers gid st)"
  shows "grp name = gid"
proof -
  have "sk_prevConfig st = cfgs ! (epoch st - 1)" "epoch st - 1 < length cfgs" using assms(2,3) by (auto simp: store_ok_def)
  then have "sk_prevConfig st \<in> set cfgs" by simp
  moreover have "\<exists>servers. (gid, servers) \<in> set (cfg_Groups (sk_prevConfig st)) \<and> name \<in> set servers"
    using assms(4) map_of_SomeD [of "cfg_Groups (sk_prevConfig st)" gid]
    by (cases "map_of (cfg_Groups (sk_prevConfig st)) gid") (auto simp: prevServers_def)
  ultimately show ?thesis using assms(1) unfolding history_ok_def by fastforce
qed

text \<open>A shard in a migrating state, in terms of the history of the configurations.\<close>

lemma migrating:
  assumes "store_ok cfgs g st" and "fmlookup (sk_shards st) s = Some sh" and "sh_State sh = Pulling \<or> sh_State sh = GCing"
  shows "s \<in> shardIds" and "0 < epoch st" and "own cfgs (epoch st) s = g" and "own cfgs (epoch st - 1) s \<noteq> g"
    and "own cfgs (epoch st - 1) s \<noteq> 0" and "owner (sk_prevConfig st) s = own cfgs (epoch st - 1) s"
proof -
  show s: "s \<in> shardIds" using assms(1,2) unfolding store_ok_def by force
  then have "shard_ok cfgs g (epoch st) s (Some sh)" using assms(1,2) unfolding store_ok_def by metis
  then show "0 < epoch st" "own cfgs (epoch st) s = g" "own cfgs (epoch st - 1) s \<noteq> g" "own cfgs (epoch st - 1) s \<noteq> 0"
    using assms(3) by (auto simp: shard_ok_def)
  then show "owner (sk_prevConfig st) s = own cfgs (epoch st - 1) s" using assms(1) by (simp add: store_ok_def own_def)
qed

lemma got_gcing:
  assumes "inv cfgs W" and "g \<noteq> 0" and "p \<in> set (past W g)" and "gcTasks ks p = Some tasks" and "tasks g' = Some args"
    and "s \<in> set (ds_Shards args)"
  shows "got cfgs W s (epoch p)"
proof -
  obtain m shards where m: "groupShards GCing p ks Map.empty = Some m" "m g' = Some shards" "s \<in> set shards"
    using assms(4-6) by (auto simp: gcTasks_def)
  from grouped [OF this] obtain sh where sh: "fmlookup (sk_shards p) s = Some sh" "sh_State sh = GCing" by metis
  have "own cfgs (epoch p) s = g" using migrating(3) [OF past_ok(1) [OF assms(1-3)] sh(1)] sh(2) by simp
  moreover have "holds p s" using sh by (simp add: holds_def)
  ultimately show ?thesis using assms(2,3) by (auto simp: got_def)
qed

lemma gc_num:
  assumes "history_ok cfgs grp" and "inv cfgs W" and "g \<noteq> 0" and "p \<in> set (past W g)" and "gcTasks ks p = Some tasks" and "tasks g' = Some args"
  shows "ds_ConfigNum args = int (epoch p)"
  using assms(5,6) store_num [OF assms(1) past_ok(1) [OF assms(2-4)]] by (auto simp: gcTasks_def)

lemma PullShard_OK:
  assumes "psr_Err (PullShard l args q) = OK"
  shows "ps_ConfigNum args \<le> cfg_Num (sk_config q)" and "psr_Dedup (PullShard l args q) = sk_dedup q"
    and "s \<in> set (ps_Shards args) \<Longrightarrow> psr_Data (PullShard l args q) s =
      Some (case fmlookup (sk_shards q) s of Some sh \<Rightarrow> sh_Data sh | None \<Rightarrow> Map.empty)"
proof -
  let ?d = "\<lambda>s. case fmlookup (sk_shards q) s of Some sh \<Rightarrow> copyData sh | None \<Rightarrow> Map.empty"
  have l: "l" and n: "\<not> ps_ConfigNum args > cfg_Num (sk_config q)"
    using assms by (auto simp: PullShard_def Let_def err_defs split: if_splits)
  then show "ps_ConfigNum args \<le> cfg_Num (sk_config q)" and "psr_Dedup (PullShard l args q) = sk_dedup q"
    by (auto simp: PullShard_def Let_def)
  have "fold (\<lambda>shard dat. dat(shard \<mapsto> ?d shard)) ss m s = (if s \<in> set ss then Some (?d s) else m s)" for ss m s
    by (induction ss arbitrary: m) auto
  then show "s \<in> set (ps_Shards args) \<Longrightarrow> psr_Data (PullShard l args q) s =
      Some (case fmlookup (sk_shards q) s of Some sh \<Rightarrow> sh_Data sh | None \<Rightarrow> Map.empty)"
    using l n by (simp add: PullShard_def Let_def copyData_def cong: option.case_cong)
qed

lemma pooled_pull:
  assumes hist: "history_ok cfgs grp" and inv: "inv cfgs W" and g: "g \<noteq> 0" and p: "p \<in> set (past W g)"
    and run: "shardPuller True ks call p = Some ops" "ops g' = Some op"
    and call: "\<And>name args r. call name args = Some r \<Longrightarrow> \<exists>l. \<exists>q \<in> set (past W (grp name)). r = PullShard l args q"
  shows "pooled_ok cfgs W g op"
proof -
  have ok: "store_ok cfgs g p" by (rule past_ok(1) [OF inv g p])
  obtain m shards reply where m: "groupShards Pulling p ks Map.empty = Some m" "m g' = Some shards"
    and reply: "firstOK (\<lambda>name. call name \<lparr>ps_ConfigNum = cfg_Num (sk_config p), ps_Shards = shards\<rparr>)
      (\<lambda>reply. psr_Err reply = OK) (prevServers g' p) = Some reply"
    and op: "op = emptyOp\<lparr>so_Type := ''InstallShard'', so_ConfigNum := cfg_Num (sk_config p), so_Shards := shards,
                  so_ShardData := psr_Data reply, so_Dedup := psr_Dedup reply\<rparr>"
    using run by (auto simp: shardPuller_def pullTasks_def split: Option.bind_splits)
  obtain name where name: "name \<in> set (prevServers g' p)"
      "call name \<lparr>ps_ConfigNum = cfg_Num (sk_config p), ps_Shards = shards\<rparr> = Some reply" "psr_Err reply = OK"
    using firstOK_Some [OF reply] by metis
  obtain l q where q: "q \<in> set (past W (grp name))" "reply = PullShard l \<lparr>ps_ConfigNum = cfg_Num (sk_config p), ps_Shards = shards\<rparr> q"
    using call [OF name(2)] by blast
  have num: "cfg_Num (sk_config p) = int (epoch p)" by (rule store_num [OF hist ok])
  note r = PullShard_OK [OF name(3) [unfolded q(2)], folded q(2)]
  have "int (epoch p) \<le> cfg_Num (sk_config q)" using r(1) num by simp
  then have le: "epoch p \<le> epoch q" unfolding epoch_def [of q] by simp
  have pulled: "psr_Data reply s = Some (case fmlookup (sk_shards q) s of Some sh \<Rightarrow> sh_Data sh | None \<Rightarrow> Map.empty)"
    if "s \<in> set shards" for s
    using r(3) that by simp
  have "install_ok cfgs W g op (epoch p) s" if s: "s \<in> set shards" for s
  proof -
    from grouped [OF m s] obtain sh where sh: "fmlookup (sk_shards p) s = Some sh" "sh_State sh = Pulling"
      "owner (sk_prevConfig p) s = g'" by metis
    note mg = migrating [OF ok sh(1)]
    have src: "own cfgs (epoch p - 1) s = g'" "g' \<noteq> 0" "g' \<noteq> g" using mg sh(2,3) by auto
    have grp: "grp name = g'" using prevServers_group [OF hist ok _ name(1)] mg(2) sh(2) by simp
    note q' = q(1) [unfolded grp]
    have "epoch p \<le> epoch (cur W g')" using le past_ok(2) [OF inv src(2) q'] by simp
    moreover have "psr_Data reply s = Some (content (writes W s)) \<and> covers (psr_Dedup reply) (writes W s)"
      if "\<not> got cfgs W s (epoch p)"
      using frozen(3) [OF inv _ _ src(1,2) q' le _ that] mg(1-3) sh(2) src(3) pulled [OF s] r(2)
      by (auto simp: good_def)
    ultimately show ?thesis using mg(1-3) sh(2) src op by (simp add: install_ok_def)
  qed
  then show ?thesis using op num by (auto simp: pooled_ok_def)
qed

lemma started_pooled:
  assumes "started cfgs grp W g op" and "history_ok cfgs grp" and "inv cfgs W" and "g \<noteq> 0"
  shows "pooled_ok cfgs W g op"
  using assms(1)
proof cases
  case client
  then show ?thesis by (auto simp: pooled_ok_def clientType_def)
next
  case (poll p query)
  then show ?thesis by (auto simp: configPoller_def Let_def pooled_ok_def emptyOp_def split: if_splits)
next
  case (pull p ks call ops g')
  then show ?thesis using pooled_pull [OF assms(2-4)] by blast
next
  case (gc p ks call ops g')
  then obtain tasks args where t: "gcTasks ks p = Some tasks" "tasks g' = Some args"
    "op = emptyOp\<lparr>so_Type := ''DeleteShard'', so_ConfigNum := ds_ConfigNum args, so_Shards := ds_Shards args\<rparr>"
    by (auto simp: shardGC_def split: Option.bind_splits)
  with got_gcing [OF assms(3,4) gc(1) t(1,2)] gc_num [OF assms(2-4) gc(1) t(1,2)] show ?thesis by (auto simp: pooled_ok_def)
next
  case (delete p h ks tasks g' args name q k)
  then have "op = emptyOp\<lparr>so_Type := ''DeleteShard'', so_ConfigNum := ds_ConfigNum args, so_Shards := ds_Shards args\<rparr>"
    by (auto simp: DeleteShard_def split: if_splits)
  with got_gcing [OF assms(3) delete(2,1,3,4)] gc_num [OF assms(2,3) delete(2,1,3,4)] show ?thesis by (auto simp: pooled_ok_def)
next
  case (empty b)
  then show ?thesis by (auto simp: emptyLogChecker_def pooled_ok_def split: if_splits)
qed

lemma inv_start_op:
  assumes "inv cfgs W" and "pooled_ok cfgs W g op"
  shows "inv cfgs (start g op W)"
proof -
  have [simp]: "past (start g op W) = past W" "writes (start g op W) = writes W" by (simp_all add: start_def)
  have [simp]: "cur (start g op W) = cur W" by (simp add: cur_def fun_eq_iff)
  have [simp]: "got cfgs (start g op W) = got cfgs W" by (simp add: got_def fun_eq_iff)
  have [simp]: "pooled_ok cfgs (start g op W) = pooled_ok cfgs W" by (simp add: pooled_ok_def install_ok_def fun_eq_iff)
  have "inv_pool cfgs (start g op W)"
    using assms by (auto simp: inv_def inv_pool_def) (auto simp: start_def split: if_splits)
  with assms(1) show ?thesis
    by (simp add: inv_def inv_past_def inv_custody_def inv_good_def inv_frozen_def inv_writes_def)
qed

lemma inv_wstep:
  assumes "wstep cfgs grp W W'" and "history_ok cfgs grp" and "inv cfgs W"
  shows "inv cfgs W'"
  using assms
proof cases
  case (start g op)
  with assms show ?thesis using inv_start_op started_pooled by blast
next
  case (applied op g)
  with assms show ?thesis using inv_applyAt by blast
qed

lemma inv_wreach: "wreach cfgs grp W \<Longrightarrow> history_ok cfgs grp \<Longrightarrow> inv cfgs W"
  by (induction rule: reaches_invariant) (auto simp: inv_start intro: inv_wstep)

end
