(* ===== verification/MigrationProps.thy ===== *)
theory MigrationProps
  imports MigrationSteps CtrlerProps
begin

section \<open>What the migration promises\<close>

text \<open>
  The two properties of the groups together, and a run of two groups in which a shard is
  written to, moves and is written to again.
\<close>

subsection \<open>A run\<close>

text \<open>An operation that is started and applied at once.\<close>

definition carryOut :: "int \<Rightarrow> Op option \<Rightarrow> world \<Rightarrow> world" where
  "carryOut g x W = applyAt g (the x) (start g (the x) W)"

definition twoServers :: "string \<Rightarrow> int" where
  "twoServers name = (if name = ''a'' then 1 else 2)"

definition demoConfigs :: "Config list" where
  "demoConfigs = [noConfig,
     \<lparr>cfg_Num = 1, cfg_Shards = replicate NShards 1, cfg_Groups = [(1, [''a''])]\<rparr>,
     \<lparr>cfg_Num = 2, cfg_Shards = [1, 1, 1, 1, 1, 2, 2, 2, 2, 2], cfg_Groups = [(1, [''a'']), (2, [''b''])]\<rparr>]"

definition demoQuery :: "int \<Rightarrow> Config" where
  "demoQuery n = (if 0 \<le> n \<and> n < 3 then demoConfigs ! nat n else demoConfigs ! 2)"

definition demoPut :: "int \<Rightarrow> string \<Rightarrow> string \<Rightarrow> Op" where
  "demoPut q k v = emptyOp\<lparr>so_Type := ''Append'', so_Key := k, so_Value := v, so_ClientId := 7, so_Seq := q\<rparr>"

definition pollAt :: "int \<Rightarrow> world \<Rightarrow> Op option" where
  "pollAt g W = configPoller True demoQuery (cur W g)"

definition pullAt :: "int \<Rightarrow> int \<Rightarrow> int list \<Rightarrow> world \<Rightarrow> Op option" where
  "pullAt g h ks W = Option.bind (shardPuller True ks (\<lambda>name args. Some (PullShard True args (cur W (twoServers name)))) (cur W g)) (\<lambda>ops. ops h)"

definition gcAt :: "int \<Rightarrow> int \<Rightarrow> int list \<Rightarrow> world \<Rightarrow> Op option" where
  "gcAt g h ks W = Option.bind (shardGC True ks (\<lambda>name args. Some \<lparr>dsr_Err = OK\<rparr>) (cur W g)) (\<lambda>ops. ops h)"

definition w1 :: world where "w1 = carryOut 1 (pollAt 1 startWorld) startWorld"
definition w2 :: world where "w2 = carryOut 2 (pollAt 2 w1) w1"
definition w3 :: world where "w3 = carryOut 1 (Some (demoPut 1 ''i'' ''x'')) w2"
definition w4 :: world where "w4 = carryOut 1 (pollAt 1 w3) w3"
definition w5 :: world where "w5 = carryOut 2 (pollAt 2 w4) w4"
definition w6 :: world where "w6 = carryOut 2 (pullAt 2 1 [5, 6, 7, 8, 9] w5) w5"
definition w7 :: world where "w7 = carryOut 2 (gcAt 2 1 [5, 6, 7, 8, 9] w6) w6"
definition w8 :: world where "w8 = carryOut 2 (Some (demoPut 1 ''i'' ''x'')) w7"
definition w9 :: world where "w9 = carryOut 2 (Some (demoPut 2 ''i'' ''y'')) w8"

abbreviation demoReach :: "world \<Rightarrow> bool" where
  "demoReach \<equiv> wreach demoConfigs twoServers"

lemma demo_history: "history_ok demoConfigs twoServers"
proof -
  have len: "length demoConfigs = 3" by (simp add: demoConfigs_def)
  have k: "k = 0 \<or> k = 1 \<or> k = 2" if "k < 3" for k :: nat using that by linarith
  have "own demoConfigs 2 s \<noteq> 0" if "s \<in> shardIds" for s
  proof -
    have "nat s < length (cfg_Shards (demoConfigs ! 2))" using that by (auto simp: demoConfigs_def shardIds_def NShards_def)
    from nth_mem [OF this] show ?thesis by (auto simp: own_def owner_def demoConfigs_def)
  qed
  moreover have "own demoConfigs 0 s = 0" if "s \<in> shardIds" for s
    using that by (simp add: own_def owner_def demoConfigs_def noConfig_def shardIds_def nat_less_iff)
  ultimately have "own demoConfigs (Suc k) s \<noteq> 0" if "Suc k < 3" "s \<in> shardIds" "own demoConfigs k s \<noteq> 0" for k s
    using that k [of "Suc k"] by (auto simp: numeral_2_eq_2)
  moreover have "cfg_Num (demoConfigs ! k) = int k \<and> length (cfg_Shards (demoConfigs ! k)) = NShards" if "k < 3" for k
    using k [OF that] by (auto simp: demoConfigs_def noConfig_def NShards_def)
  moreover have "\<forall>c \<in> set demoConfigs. \<forall>(gid, servers) \<in> set (cfg_Groups c). \<forall>name \<in> set servers. twoServers name = gid"
    by (simp add: demoConfigs_def noConfig_def twoServers_def)
  ultimately show ?thesis
    unfolding history_ok_def len by (simp add: demoConfigs_def)
qed

lemma carryOut_reach:
  assumes "demoReach W" and "started demoConfigs twoServers W g op" and "g \<noteq> 0" and "x = Some op"
  shows "demoReach (carryOut g x W)"
proof -
  have reach: "demoReach (start g op W)" by (rule reaches_step [OF assms(1) wstep.start [OF assms(2,3)]])
  have "op \<in> set (pool (start g op W) g)" by (simp add: start_def)
  then have "wstep demoConfigs twoServers (start g op W) (applyAt g op (start g op W))" by (rule wstep.applied [OF _ assms(3)])
  with reach show ?thesis unfolding carryOut_def assms(4) option.sel by (rule reaches_step)
qed

lemma demo_cur: "demoReach W \<Longrightarrow> cur W g \<in> set (past W g)"
  using cur_past inv_wreach demo_history by blast

lemma demo_poll:
  assumes "demoReach W" and "\<not> Option.is_none (pollAt g W)" and "g \<noteq> 0"
  shows "demoReach (carryOut g (pollAt g W) W)"
proof -
  obtain op where op: "pollAt g W = Some op" using assms(2) by (auto simp: Option.is_none_def)
  have "demoQuery n \<in> set demoConfigs" for n
  proof -
    have "length demoConfigs = 3" by (simp add: demoConfigs_def)
    with nth_mem [of "nat n" demoConfigs] nth_mem [of 2 demoConfigs] show ?thesis by (auto simp: demoQuery_def)
  qed
  then have "range demoQuery \<subseteq> set demoConfigs" by auto
  from started.poll [OF demo_cur [OF assms(1)] op [unfolded pollAt_def] this] show ?thesis
    by (rule carryOut_reach [OF assms(1) _ assms(3) op])
qed

lemma demo_pull:
  assumes "demoReach W" and "\<not> Option.is_none (pullAt g h ks W)" and "g \<noteq> 0"
  shows "demoReach (carryOut g (pullAt g h ks W) W)"
proof -
  let ?call = "\<lambda>name args. Some (PullShard True args (cur W (twoServers name)))"
  obtain op ops where op: "pullAt g h ks W = Some op" "shardPuller True ks ?call (cur W g) = Some ops" "ops h = Some op"
    using assms(2) by (auto simp: Option.is_none_def pullAt_def split: Option.bind_splits)
  have "started demoConfigs twoServers W g op"
    by (rule started.pull [OF demo_cur [OF assms(1)] op(2,3)]) (use demo_cur [OF assms(1)] in auto)
  then show ?thesis by (rule carryOut_reach [OF assms(1) _ assms(3) op(1)])
qed

lemma demo_gc:
  assumes "demoReach W" and "\<not> Option.is_none (gcAt g h ks W)" and "g \<noteq> 0"
  shows "demoReach (carryOut g (gcAt g h ks W) W)"
proof -
  obtain op ops where op: "gcAt g h ks W = Some op" "shardGC True ks (\<lambda>name args. Some \<lparr>dsr_Err = OK\<rparr>) (cur W g) = Some ops" "ops h = Some op"
    using assms(2) by (auto simp: Option.is_none_def gcAt_def split: Option.bind_splits)
  from started.gc [OF demo_cur [OF assms(1)] op(2,3)] show ?thesis
    by (rule carryOut_reach [OF assms(1) _ assms(3) op(1)])
qed

lemma demo_client:
  assumes "demoReach W" and "g \<noteq> 0"
  shows "demoReach (carryOut g (Some (demoPut q k v)) W)"
  by (rule carryOut_reach [OF assms(1) started.client assms(2)]) (simp_all add: demoPut_def clientType_def)

lemma w9_reach: "demoReach w9"
proof -
  have "\<not> Option.is_none (pollAt 1 startWorld)" "\<not> Option.is_none (pollAt 2 w1)" "\<not> Option.is_none (pollAt 1 w3)"
    "\<not> Option.is_none (pollAt 2 w4)" "\<not> Option.is_none (pullAt 2 1 [5, 6, 7, 8, 9] w5)" "\<not> Option.is_none (gcAt 2 1 [5, 6, 7, 8, 9] w6)"
    by code_simp+
  note runs = this
  have "demoReach w1" unfolding w1_def by (rule demo_poll [OF _ runs(1)]) (auto intro: reaches_init)
  then have "demoReach w2" unfolding w2_def by (rule demo_poll [OF _ runs(2)]) simp
  then have "demoReach w3" unfolding w3_def by (rule demo_client) simp
  then have "demoReach w4" unfolding w4_def by (rule demo_poll [OF _ runs(3)]) simp
  then have "demoReach w5" unfolding w5_def by (rule demo_poll [OF _ runs(4)]) simp
  then have "demoReach w6" unfolding w6_def by (rule demo_pull [OF _ runs(5)]) simp
  then have "demoReach w7" unfolding w7_def by (rule demo_gc [OF _ runs(6)]) simp
  then have "demoReach w8" unfolding w8_def by (rule demo_client) simp
  then show ?thesis unfolding w9_def by (rule demo_client) simp
qed

lemma w9_serves: "canServe 2 5 (cur w9 2)"
  by code_simp

lemma canServe_holds: "canServe g s st \<Longrightarrow> holds st s"
  by (auto simp: canServe_def holds_def split: if_splits option.splits)

text \<open>
  A shard is served by one group at a time. However the groups' logs, the controller's
  configurations, the pulls, the deletions and the requests of servers that lag behind
  interleave, no two groups serve the same shard in their latest states.
\<close>

lemma one_server:
  assumes "inv cfgs W" and "g \<noteq> 0" and "h \<noteq> 0" and "canServe g s (cur W g)" and "canServe h s (cur W h)"
  shows "g = h"
  using holder_unique [OF assms(1-3)] assms(4,5) canServe_holds by blast

subsection \<open>Properties\<close>

text \<open>
  (C25) No write is lost, repeated or reordered by a migration. The group that serves a shard
  holds exactly the result of the writes to it that took effect, at whichever groups they
  did, in their order; and the sequence numbers of a client in them rise, so that none of its
  writes took effect twice.
\<close>

theorem shard_writes_once:
  assumes "history_ok cfgs grp" and "wreach cfgs grp W" and "g \<noteq> 0" and "canServe g s (cur W g)"
  shows "\<exists>sh. fmlookup (sk_shards (cur W g)) s = Some sh \<and> sh_Data sh = fold writeEffect (writes W s) Map.empty \<and>
    sorted_wrt (\<lambda>x y. so_ClientId x = so_ClientId y \<longrightarrow> so_Seq x < so_Seq y) (writes W s)"
proof -
  have inv: "inv cfgs W" by (rule inv_wreach [OF assms(2,1)])
  then have "good (writes W) (cur W g) s" "rising (writes W s)"
    using assms(3) canServe_holds [OF assms(4)] by (simp_all add: inv_def inv_good_def inv_writes_def)
  then show ?thesis by (auto simp: good_def content_def rising_def)
qed

theorem shard_writes_once_witness:
  "\<exists>sh. fmlookup (sk_shards (cur w9 2)) 5 = Some sh \<and> sh_Data sh = fold writeEffect (writes w9 5) Map.empty \<and>
    length (writes w9 5) = 2"
proof -
  have "length (writes w9 5) = 2" by code_simp
  then show ?thesis using shard_writes_once [OF demo_history w9_reach _ w9_serves] by auto
qed

end
