(* ===== verification/ShardSystem.thy ===== *)
theory ShardSystem
  imports CtrlerProps MigrationProps
begin

section \<open>The controller and the groups together\<close>

text \<open>
  The migration of shards relies on what the controller promises (\<open>history_ok\<close>). Here the
  configurations are those that the shard controller makes of a log of its operations, and the
  promise follows from conditions on the requests of the administrator: groups have numbers other
  than 0, a server belongs to one group, shards are moved to a group, and after the first join the
  service is never left without groups. A group asks the controller by the \<^verbatim>\<open>Query\<close> of its clerk.
\<close>

definition named :: "(string \<Rightarrow> int) \<Rightarrow> groups \<Rightarrow> bool" where
  "named grp g \<longleftrightarrow> (\<forall>(gid, servers) \<in> set g. gid \<noteq> 0 \<and> (\<forall>name \<in> set servers. grp name = gid))"

definition adminOp :: "(string \<Rightarrow> int) \<Rightarrow> ShardCtrler.Op \<Rightarrow> bool" where
  "adminOp grp op \<longleftrightarrow>
     legalOp op \<and> (op_Type op = ''Join'' \<longrightarrow> named grp (op_Servers op)) \<and> (op_Type op = ''Move'' \<longrightarrow> op_GID op \<noteq> 0)"

definition grouped :: "Config list \<Rightarrow> bool" where
  "grouped cs \<longleftrightarrow> (\<forall>k. 0 < k \<and> k < length cs \<longrightarrow> cfg_Groups (cs ! k) \<noteq> [])"

lemma named_Cons: "named grp (s # ss) \<longleftrightarrow> named grp [s] \<and> named grp ss"
  by (simp add: named_def)

lemma named_update: "named grp g \<Longrightarrow> named grp [(gid, servers)] \<Longrightarrow> named grp (AList.update gid servers g)"
  by (induction g) (auto simp: named_def)

lemma named_join: "named grp servers \<Longrightarrow> named grp g \<Longrightarrow> named grp (joinGroups servers g)"
proof (induction servers arbitrary: g)
  case (Cons s ss)
  have s: "named grp [(fst s, snd s)]" "named grp ss" using Cons.prems(1) named_Cons [of grp s ss] by simp_all
  show ?case unfolding joinGroups_Cons by (rule Cons.IH [OF s(2) named_update [OF Cons.prems(2) s(1)]])
qed (simp add: joinGroups_def)

lemma named_delete: "named grp g \<Longrightarrow> named grp (AList.delete gid g)"
  by (auto simp: named_def AList.delete_eq)

lemma named_leave: "named grp g \<Longrightarrow> named grp (leaveGroups gids g)"
  unfolding leaveGroups_def by (induction gids arbitrary: g) (simp_all add: named_delete)

lemma named_next: "named grp g \<Longrightarrow> adminOp grp op \<Longrightarrow> named grp (nextGroups op g)"
  by (auto simp: nextGroups_def adminOp_def named_join named_leave)

text \<open>A mutation other than a join or a leave changes the owner of one shard at most.\<close>

lemma applyMutation_shards:
  assumes "configs_ok cs" and "applyMutation op cs = Some (cs @ [c])" and "op_Type op \<noteq> ''Join''" and "op_Type op \<noteq> ''Leave''"
    and "i < NShards"
  shows "cfg_Shards c ! i = cfg_Shards (last cs) ! i \<or> (op_Type op = ''Move'' \<and> cfg_Shards c ! i = op_GID op)"
  using assms configs_ok_last [OF assms(1)]
  by (auto simp: applyMutation_def Let_def bind_eq_Some_conv slice_set_eq_Some nth_list_update config_ok_def split: if_splits)

definition admin_ok :: "(string \<Rightarrow> int) \<Rightarrow> Config list \<Rightarrow> bool" where
  "admin_ok grp cs \<longleftrightarrow>
     configs_ok cs \<and> cs ! 0 = noConfig \<and> (\<forall>c \<in> set cs. named grp (cfg_Groups c)) \<and>
     (grouped cs \<longrightarrow> (\<forall>k s. Suc k < length cs \<longrightarrow> s \<in> shardIds \<longrightarrow> own cs k s \<noteq> 0 \<longrightarrow> own cs (Suc k) s \<noteq> 0))"

lemma own_snoc: "k < length cs \<Longrightarrow> own (cs @ [c]) k s = own cs k s" "own (cs @ [c]) (length cs) s = owner c s"
  by (simp_all add: own_def nth_append)

lemma admin_snoc:
  assumes ok: "admin_ok grp cs" and op: "adminOp grp op"
  obtains c where "applyMutation op cs = Some (cs @ [c])" and "admin_ok grp (cs @ [c])"
proof -
  have cs: "configs_ok cs" "cs ! 0 = noConfig" and nm: "\<forall>c \<in> set cs. named grp (cfg_Groups c)"
    using ok by (simp_all add: admin_ok_def)
  obtain c where c: "applyMutation op cs = Some (cs @ [c])" "configs_ok (cs @ [c])"
      "cfg_Groups c = nextGroups op (cfg_Groups (last cs))" "op_Type op = ''Join'' \<or> op_Type op = ''Leave'' \<Longrightarrow> spread c"
    using applyMutation_ok [OF cs(1)] op unfolding adminOp_def by metis
  have ne: "cs \<noteq> []" using cs(1) by (simp add: configs_ok_def)
  have named: "named grp (cfg_Groups c)" using c(3) named_next [OF _ op] nm ne by simp
  have "own (cs @ [c]) (Suc k) s \<noteq> 0"
    if g: "grouped (cs @ [c])" and k: "Suc k < length (cs @ [c])" and s: "s \<in> shardIds" and o: "own (cs @ [c]) k s \<noteq> 0" for k s
  proof -
    have gr: "cfg_Groups ((cs @ [c]) ! j) \<noteq> []" if "0 < j" "j < Suc (length cs)" for j
      using g that by (simp add: grouped_def)
    show ?thesis
  proof (cases "Suc k < length cs")
    case True
    have "grouped cs" using gr unfolding grouped_def by (metis less_SucI nth_append)
    then show ?thesis using ok True s o by (simp add: admin_ok_def own_snoc)
  next
    case False
    then have k: "Suc k = length cs" using k by simp
    have i: "nat s < NShards" using s by (simp add: shardIds_def nat_less_iff)
    have last: "cs ! k = last cs" using ne k by (metis diff_Suc_1 last_conv_nth)
    show ?thesis
    proof (cases "op_Type op = ''Join'' \<or> op_Type op = ''Leave''")
      case True
      have "cfg_Groups c \<noteq> []" using gr [of "length cs"] ne by simp
      then have "balancedOver (map fst (cfg_Groups c)) (cfg_Shards c)" using c(4) [OF True] by (simp add: spread_def)
      then have "cfg_Shards c ! nat s \<in> fst ` set (cfg_Groups c)" using i by (auto simp: balancedOver_def subset_iff)
      then show ?thesis using named k by (auto simp: named_def own_snoc(2) owner_def)
    next
      case False
      then have "cfg_Shards c ! nat s = cfg_Shards (last cs) ! nat s \<or> (op_Type op = ''Move'' \<and> cfg_Shards c ! nat s = op_GID op)"
        using applyMutation_shards [OF cs(1) c(1) _ _ i] by blast
      then show ?thesis using o op k last by (auto simp: own_snoc own_def owner_def nth_append adminOp_def split: if_splits)
    qed
  qed
  qed
  then have "admin_ok grp (cs @ [c])" using c(2) cs ne nm named by (auto simp: admin_ok_def nth_append)
  with c(1) that show thesis by blast
qed

lemma admin_consume:
  "admin_ok grp (fst st) \<Longrightarrow> list_all (adminOp grp) ops \<Longrightarrow>
   \<exists>st'. consume ShardCtrler.applyOp ops st = Some st' \<and> admin_ok grp (fst st')"
proof (induction ops arbitrary: st)
  case (Cons op ops)
  obtain c where "applyMutation op (fst st) = Some (fst st @ [c])" "admin_ok grp (fst st @ [c])"
    using admin_snoc [OF Cons.prems(1)] Cons.prems(2) by auto
  then have "ShardCtrler.applyOp op st = Some (ctlStep op st)" "admin_ok grp (fst (ctlStep op st))"
    using Cons.prems(1) by (auto simp: ShardCtrler.applyOp_def ctlStep_def)
  with Cons show ?case by auto
qed simp

lemma admin_start: "admin_ok grp [noConfig]"
proof -
  have "named grp (cfg_Groups noConfig)" by (simp add: named_def noConfig_def)
  then show ?thesis by (simp add: admin_ok_def configs_ok_start)
qed

lemma admin_history:
  assumes "list_all (adminOp grp) ops" and "consume ShardCtrler.applyOp ops ([noConfig], Map.empty) = Some (cfgs, dd)" and "grouped cfgs"
  shows "history_ok cfgs grp"
proof -
  have "admin_ok grp cfgs" using admin_consume [of grp "([noConfig], Map.empty)" ops] admin_start assms(1,2) by auto
  with assms(3) show ?thesis
    unfolding history_ok_def admin_ok_def configs_ok_def config_ok_def named_def by force
qed

subsection \<open>Properties\<close>

text \<open>
  (C24) The sharded service under its controller. Take the configurations that the shard controller makes of
  any log of joins, leaves, moves and queries, with repetitions, in which groups have numbers other than
  0, server names belong to one group, and the service is not left without groups. Then, however the groups
  learn of the configurations and move shards, at most one group serves a shard, and it holds the result
  of exactly the writes that took effect on the shard.
\<close>

theorem sharded_service_safe:
  assumes "list_all (adminOp grp) ops" and "consume ShardCtrler.applyOp ops ([noConfig], Map.empty) = Some (cfgs, dd)"
    and "grouped cfgs" and "wreach cfgs grp W" and "g \<noteq> 0" and "h \<noteq> 0"
    and "canServe g s (cur W g)" and "canServe h s (cur W h)"
  shows "g = h \<and> (\<exists>sh. fmlookup (sk_shards (cur W g)) s = Some sh \<and> sh_Data sh = fold writeEffect (writes W s) Map.empty)"
proof -
  have i: "inv cfgs W" by (rule inv_wreach [OF assms(4) admin_history [OF assms(1-3)]])
  have "g = h" by (rule one_server [OF i assms(5-8)])
  moreover have "good (writes W) (cur W g) s"
    using i assms(5) canServe_holds [OF assms(7)] by (simp add: inv_def inv_good_def)
  ultimately show ?thesis by (auto simp: good_def content_def)
qed

definition joinOp :: "int \<Rightarrow> string \<Rightarrow> int \<Rightarrow> ShardCtrler.Op" where
  "joinOp gid name q = opOfJoin \<lparr>ja_Servers = [(gid, [name])], ja_ClientId = 1, ja_Seq = q\<rparr>"

theorem sharded_service_safe_witness: "{g. g \<noteq> 0 \<and> canServe g 5 (cur w9 g)} = {2}"
proof -
  have run: "map_option fst (consume ShardCtrler.applyOp [joinOp 1 ''a'' 1, joinOp 2 ''b'' 2, joinOp 2 ''b'' 2] ([noConfig], Map.empty)) =
      Some demoConfigs" by code_simp
  have ops: "list_all (adminOp twoServers) [joinOp 1 ''a'' 1, joinOp 2 ''b'' 2, joinOp 2 ''b'' 2]"
    by (simp add: adminOp_def legalOp_def named_def joinOp_def opOfJoin_def noOp_def twoServers_def)
  obtain dd where dd: "consume ShardCtrler.applyOp [joinOp 1 ''a'' 1, joinOp 2 ''b'' 2, joinOp 2 ''b'' 2] ([noConfig], Map.empty) =
      Some (demoConfigs, dd)" using run by (auto simp del: consume.simps)
  have "grouped demoConfigs"
    by (auto simp: grouped_def demoConfigs_def less_Suc_eq numeral_3_eq_3 nth_Cons split: nat.splits)
  from sharded_service_safe [OF ops dd this w9_reach _ _ _ w9_serves]
  have "g = 2" if "g \<noteq> 0" "canServe g 5 (cur w9 g)" for g using that by simp
  with w9_serves show ?thesis by auto
qed

end
