(* ===== verification/ShardKvProps.thy ===== *)
theory ShardKvProps
  imports MigrationSteps
begin

section \<open>One server of the sharded service\<close>

text \<open>
  A server meets the contract of the replicated log (\<open>log_machine\<close>), so its shards are those
  of its group's log; refuses what it does not serve; completes a hand-over in three
  operations; and two ways in which a group can be left waiting for ever.
\<close>

subsection \<open>The contract of the replicated log\<close>

definition skvHandle :: "int \<Rightarrow> (Op, skgob) ApplyMsg \<Rightarrow> ShardKV \<Rightarrow> ShardKV option" where
  "skvHandle rsize msg kv = map_option fst (applyMsg rsize msg kv)"

definition skv_ok :: "int \<Rightarrow> ShardKV \<Rightarrow> bool" where
  "skv_ok gid kv \<longleftrightarrow> kv_gid kv = gid \<and> waiters_ok (kv_lastApplied kv) (kv_waiters kv)"

lemma skvCommand_new:
  assumes "skv_ok gid kv" and "kv_lastApplied kv < CommandIndex msg" and "Command msg = Some op"
  obtains kv' snap where "applyCommand rsize msg kv = Some (kv', snap)" and "skv_ok gid kv'"
    and "kv_lastApplied kv' = CommandIndex msg" and "kv_store kv' = applyStore gid op (kv_store kv)"
    and "wake (CommandIndex msg) (snd (applyOp gid op (kv_store kv))) (kv_waiters kv) = Some (kv_waiters kv')"
proof -
  let ?r = "applyOp gid op (kv_store kv)"
  have gid: "kv_gid kv = gid" using assms(1) by (simp add: skv_ok_def)
  obtain w where w: "wake (CommandIndex msg) (snd ?r) (kv_waiters kv) = Some w" "waiters_ok (CommandIndex msg) w"
    using waiters_ok_wake assms(1,2) unfolding skv_ok_def by metis
  let ?kv = "kv\<lparr>kv_lastApplied := CommandIndex msg, kv_store := fst ?r, kv_waiters := w\<rparr>"
  have "applyCommand rsize msg kv = Some (?kv, maybeSnapshot rsize (CommandIndex msg) ?kv)"
    using assms(2,3) w(1) gid by (cases ?r) (auto simp: applyCommand_def Let_def)
  with w gid show thesis by (intro that [of ?kv]) (simp_all add: skv_ok_def)
qed

lemma skvSnapshot_new:
  assumes "skv_ok gid kv" and "kv_lastApplied kv < SnapshotIndex msg" and "Snapshot_data msg = encodeSnapshot st"
  shows "skv_ok gid (applySnapshot msg kv)" and "kv_lastApplied (applySnapshot msg kv) = SnapshotIndex msg"
    and "kv_store (applySnapshot msg kv) = st"
  using assms waiters_ok_later [of "kv_lastApplied kv" "kv_waiters kv" "SnapshotIndex msg"]
  by (auto simp: applySnapshot_def readSnapshot_def encodeSnapshot_def skv_ok_def)

interpretation skvLog: log_machine "skvHandle rsize" "skv_ok gid" kv_lastApplied kv_store "applyStore gid" "\<lambda>_. True" encodeSnapshot
  for rsize gid
proof unfold_locales
  fix kv :: ShardKV and m :: "(Op, skgob) ApplyMsg" and op st
  assume ok: "skv_ok gid kv"
  show "\<exists>kv'. skvHandle rsize m kv = Some kv' \<and> skv_ok gid kv' \<and> kv_lastApplied kv' = CommandIndex m \<and>
      kv_store kv' = applyStore gid op (kv_store kv)"
    if "CommandValid m" "kv_lastApplied kv < CommandIndex m" "Command m = Some op"
    using skvCommand_new [OF ok that(2,3), of rsize] that(1) by (metis applyMsg_def fst_conv skvHandle_def option.simps(9))
  show "skvHandle rsize m kv = Some kv" if "CommandValid m" "CommandIndex m \<le> kv_lastApplied kv"
    using that by (simp add: skvHandle_def applyMsg_def applyCommand_def)
  show "\<exists>kv'. skvHandle rsize m kv = Some kv' \<and> skv_ok gid kv' \<and> kv_lastApplied kv' = SnapshotIndex m \<and> kv_store kv' = st"
    if "\<not> CommandValid m" "SnapshotValid m" "kv_lastApplied kv < SnapshotIndex m" "Snapshot_data m = encodeSnapshot st"
    using skvSnapshot_new [OF ok that(3,4)] that(1,2) by (simp add: skvHandle_def applyMsg_def)
  show "skvHandle rsize m kv = Some kv"
    if "\<not> CommandValid m" "SnapshotValid m" "SnapshotIndex m \<le> kv_lastApplied kv"
    using that by (simp add: skvHandle_def applyMsg_def applySnapshot_def)
  show "skvHandle rsize m kv = Some kv" if "\<not> CommandValid m" "\<not> SnapshotValid m"
    using that by (simp add: skvHandle_def applyMsg_def)
qed

lemma skv_start:
  "skv_ok gid (StartServer i (MakePersister :: (int, skgob) Persister) mr gid)"
  "kv_lastApplied (StartServer i (MakePersister :: (int, skgob) Persister) mr gid) = 0"
  "kv_store (StartServer i (MakePersister :: (int, skgob) Persister) mr gid) = emptyStore"
  by (simp_all add: StartServer_def readSnapshot_def ReadSnapshot_def MakePersister_def skv_ok_def waiters_ok_init)

subsection \<open>Properties\<close>

text \<open>
  (C26) A server's shards are those of its group's log. Fed in sequence by the commands of the
  log or by snapshots of its states, the server never panics and never blocks, and holds what
  applying the first \<open>lastApplied\<close> commands to the empty store gives.
\<close>

theorem skv_follows_log:
  assumes "in_sequence (applyStore gid) emptyStore encodeSnapshot ops 0 ms"
  shows "\<exists>kv. consume (skvHandle rsize) ms (StartServer i (MakePersister :: (int, skgob) Persister) mr gid) = Some kv \<and>
    kv_store kv = stateAt (applyStore gid) emptyStore ops (kv_lastApplied kv)"
proof -
  let ?s = "StartServer i (MakePersister :: (int, skgob) Persister) mr gid"
  have q: "in_sequence (applyStore gid) emptyStore encodeSnapshot ops (kv_lastApplied ?s) ms" using assms by (simp add: skv_start)
  obtain kv where "consume (skvHandle rsize) ms ?s = Some kv"
    "kv_store kv = stateAt (applyStore gid) emptyStore ops (kv_lastApplied kv)"
    by (rule skvLog.core_follows_log [OF q _ skv_start(1)]) (simp_all add: skv_start list_all_iff stateAt_def)
  then show ?thesis by blast
qed

definition demoConfig :: Config where
  "demoConfig = \<lparr>cfg_Num = 1, cfg_Shards = replicate NShards 1, cfg_Groups = [(1, [''a''])]\<rparr>"

definition demoOps :: "Op list" where
  "demoOps = [emptyOp\<lparr>so_Type := ''Config'', so_Config := demoConfig\<rparr>,
     emptyOp\<lparr>so_Type := ''Put'', so_Key := ''k'', so_Value := ''v'', so_ClientId := 3, so_Seq := 1\<rparr>]"

definition demoMsgs :: "(Op, skgob) ApplyMsg list" where
  "demoMsgs = [snapshotMsg \<lparr>is_Term = 1, is_LeaderId = 0, is_LastIncludedIndex = 1, is_LastIncludedTerm = 1,
       is_Data = encodeSnapshot (stateAt (applyStore 1) emptyStore demoOps 1)\<rparr>,
     commandMsg (Some (demoOps ! 0)) 1, commandMsg (Some (demoOps ! 1)) 2]"

theorem skv_follows_log_witness:
  "\<exists>kv. consume (skvHandle 0) demoMsgs (StartServer 0 (MakePersister :: (int, skgob) Persister) (-1) 1) = Some kv \<and>
    kv_store kv = stateAt (applyStore 1) emptyStore demoOps (kv_lastApplied kv)"
  by (rule skv_follows_log) (simp add: demoMsgs_def fits_def commandMsg_def snapshotMsg_def demoOps_def)

text \<open>
  A group serves its shards only. An operation on a key whose shard the group does not own
  or does not have ready is answered \<^verbatim>\<open>ErrWrongGroup\<close>, by the handler before it starts anything
  and by the apply loop, and changes nothing.
\<close>

lemma skv_refuses:
  assumes "\<not> canServe (kv_gid kv) (key2shard (so_Key op)) (kv_store kv)" and "clientType (so_Type op)"
  shows "fst (applyOp (kv_gid kv) op (kv_store kv)) = kv_store kv \<and>
    res_err (snd (applyOp (kv_gid kv) op (kv_store kv))) = ErrWrongGroup \<and>
    Get \<lparr>ga_Key = so_Key op, ga_ClientId = so_ClientId op, ga_Seq = so_Seq op\<rparr> kv = Inl \<lparr>gr_Err = ErrWrongGroup, gr_Value = ''''\<rparr>"
  using assms
  by (auto simp: canServe_def applyOp_def applyClientOp_def clientType_def Get_def noResult_def Let_def
      split: option.splits if_splits)

text \<open>
  (C27) A hand-over completes. When the old owner has a shard waiting and the new owner, in the
  same configuration, is pulling it, then installing the old owner's answer makes the new owner
  hold the same data, with a table of clients that has all of both, and the deletion that
  follows removes the shard on the one side and starts serving it on the other.
\<close>

theorem skv_handover:
  assumes "fmlookup (sk_shards src) s = Some \<lparr>sh_Data = d, sh_State = BePulling\<rparr>"
    and "fmlookup (sk_shards dst) s = Some \<lparr>sh_Data = e, sh_State = Pulling\<rparr>"
    and "cfg_Num (sk_config src) = n" and "cfg_Num (sk_config dst) = n"
    and "reply = PullShard True \<lparr>ps_ConfigNum = n, ps_Shards = [s]\<rparr> src"
    and "ins = emptyOp\<lparr>so_Type := ''InstallShard'', so_ConfigNum := n, so_Shards := [s],
           so_ShardData := psr_Data reply, so_Dedup := psr_Dedup reply\<rparr>"
    and "DeleteShard True \<lparr>ds_ConfigNum = n, ds_Shards = [s]\<rparr> src = Inr (del, k)"
    and "owner (sk_config dst) s = g"
  shows "psr_Err reply = OK \<and>
    fmlookup (sk_shards (applyStore h del src)) s = None \<and>
    fmlookup (sk_shards (applyStore g del (applyStore g ins dst))) s = Some \<lparr>sh_Data = d, sh_State = Serving\<rparr> \<and>
    canServe g s (applyStore g del (applyStore g ins dst)) \<and>
    (\<forall>c q. duplicate (sk_dedup src) c q \<or> duplicate (sk_dedup dst) c q \<longrightarrow>
       duplicate (sk_dedup (applyStore g del (applyStore g ins dst))) c q)"
proof -
  have del: "del = emptyOp\<lparr>so_Type := ''DeleteShard'', so_ConfigNum := n, so_Shards := [s]\<rparr>"
    using assms(3,7) by (simp add: DeleteShard_def)
  have reply: "reply = \<lparr>psr_Err = OK, psr_ConfigNum = n, psr_Data = [s \<mapsto> d], psr_Dedup = sk_dedup src\<rparr>"
    using assms(1,3,5) by (simp add: PullShard_def Let_def copyData_def)
  have ins: "applyStore g ins dst = dst\<lparr>sk_shards := installOne [s \<mapsto> d] s (sk_shards dst),
      sk_dedup := mergeDedup (sk_dedup src) (sk_dedup dst)\<rparr>"
    using assms(4,6) reply by (simp add: applyOp_def applyInstallShard_def Let_def)
  have "applyStore g del (applyStore g ins dst) = dst\<lparr>sk_shards := deleteOne s (installOne [s \<mapsto> d] s (sk_shards dst)),
      sk_dedup := mergeDedup (sk_dedup src) (sk_dedup dst)\<rparr>"
    unfolding ins using assms(4) del by (simp add: applyOp_def applyDeleteShard_def Let_def)
  moreover have "applyStore h del src = src\<lparr>sk_shards := deleteOne s (sk_shards src)\<rparr>"
    using assms(3) del by (simp add: applyOp_def applyDeleteShard_def Let_def)
  ultimately show ?thesis
    using assms(1,2,8) reply
    by (auto simp: deleteOne_lookup installOne_lookup deleted_def installed_def canServe_def mergeDedup_left mergeDedup_right)
qed

definition demoSrc :: shardstore where
  "demoSrc = emptyStore\<lparr>sk_shards := fmupd 7 \<lparr>sh_Data = [''k'' \<mapsto> ''v''], sh_State = BePulling\<rparr> fmempty\<rparr>"

definition demoDst :: shardstore where
  "demoDst = emptyStore\<lparr>sk_shards := fmupd 7 \<lparr>sh_Data = Map.empty, sh_State = Pulling\<rparr> fmempty\<rparr>"

theorem skv_handover_witness:
  "\<exists>ins del. fmlookup (sk_shards (applyStore 1 del demoSrc)) 7 = None \<and>
     fmlookup (sk_shards (applyStore 0 del (applyStore 0 ins demoDst))) 7 = Some \<lparr>sh_Data = [''k'' \<mapsto> ''v''], sh_State = Serving\<rparr>"
proof -
  obtain del k where d: "DeleteShard True \<lparr>ds_ConfigNum = 0, ds_Shards = [7]\<rparr> demoSrc = Inr (del, k)"
    by (auto simp: DeleteShard_def demoSrc_def emptyStore_def noConfig_def)
  have "owner (sk_config demoDst) 7 = 0" by (simp add: owner_def demoDst_def emptyStore_def noConfig_def NShards_def)
  from skv_handover [OF _ _ _ _ refl refl d this, of "[''k'' \<mapsto> ''v'']" Map.empty] show ?thesis
    by (auto simp: demoSrc_def demoDst_def emptyStore_def noConfig_def)
qed

text \<open>Only the deletion of a waiting shard ends the wait, and no configuration is adopted before.\<close>

lemma waiting_step:
  assumes "waiting st s" and "\<not> (so_Type op = ''DeleteShard'' \<and> so_ConfigNum op = cfg_Num (sk_config st) \<and> s \<in> set (so_Shards op))"
  shows "waiting (applyStore gid op st) s" and "sk_config (applyStore gid op st) = sk_config st"
proof -
  have "waiting (applyStore gid op st) s \<and> sk_config (applyStore gid op st) = sk_config st"
  proof (cases rule: applyStore_cases [of op gid st])
    case client
    show ?thesis
    proof (cases "effective gid op st")
      case True
      then obtain sh where "fmlookup (sk_shards st) (key2shard (so_Key op)) = Some sh" "sh_State sh = Serving"
        "fst (applyClientOp gid op st) =
          st\<lparr>sk_shards := fmupd (key2shard (so_Key op)) (sh\<lparr>sh_Data := writeEffect op (sh_Data sh)\<rparr>) (sk_shards st),
             sk_dedup := (sk_dedup st)(so_ClientId op \<mapsto> so_Seq op)\<rparr>"
        using applyClientOp_effective by metis
      with client(2) assms(1) show ?thesis by (auto simp: waiting_def)
    qed (use client(2) assms(1) in \<open>simp add: applyClientOp_ineffective\<close>)
  next
    case config
    with waiting_not_settled [OF assms(1)] assms(1) show ?thesis by (simp add: applyConfig_def)
  next
    case install
    with assms(1) install_same [of op st s] show ?thesis by (auto simp: waiting_def applyInstallShard_def)
  next
    case delete
    with assms show ?thesis by (auto simp: waiting_def applyDeleteShard_def delete_all)
  next
    case other
    with assms(1) show ?thesis by simp
  qed
  then show "waiting (applyStore gid op st) s" and "sk_config (applyStore gid op st) = sk_config st" by blast+
qed

lemma waiting_steps:
  assumes "waiting st s" and "list_all (\<lambda>op. \<not> (so_Type op = ''DeleteShard'' \<and> so_ConfigNum op = cfg_Num (sk_config st) \<and> s \<in> set (so_Shards op))) ops"
  shows "waiting (fold (applyStore gid) ops st) s \<and> sk_config (fold (applyStore gid) ops st) = sk_config st"
  using assms
proof (induction ops arbitrary: st)
  case (Cons op ops)
  have "waiting (applyStore gid op st) s" "sk_config (applyStore gid op st) = sk_config st"
    using waiting_step [OF Cons.prems(1), of op gid] Cons.prems(2) by auto
  with Cons show ?case by simp
qed simp



text \<open>
  (C29) A deletion can be reported done that was not. \<^verbatim>\<open>submit\<close> does not compare the identity of
  the entry it waited for unless it is a client's; if another operation, of a client, is
  committed at the index of a \<^verbatim>\<open>DeleteShard\<close>, the handler still answers \<^verbatim>\<open>OK\<close>, and the shard
  goes on waiting.
\<close>

theorem skv_delete_misreported:
  assumes "skv_ok gid kv" and "kv_lastApplied kv < index" and "waiting (kv_store kv) s"
    and "DeleteShard True args (kv_store kv) = Inr (op, reply)"
    and "submitBegin index True kv = Inr (kv1, ch)"
    and "clientType (so_Type other)"
    and "applyCommand rsize (commandMsg (Some other) index) kv1 = Some (kv2, snap)"
  shows "\<exists>kv3 res. submitResult op index ch kv2 = Some (kv3, res) \<and> dsr_Err (reply res) = OK \<and> waiting (kv_store kv3) s"
proof -
  let ?r = "applyOp gid other (kv_store kv)"
  have kv1: "kv1 = kv\<lparr>kv_waiters := fst (register index (kv_waiters kv))\<rparr>" "ch = fresh_ch (kv_waiters kv)"
    using assms(5) by (auto simp: submitBegin_def register_def Let_def)
  have ok1: "skv_ok gid kv1" using assms(1) kv1 by (simp add: skv_ok_def waiters_ok_register)
  let ?m = "commandMsg (Some other) index :: (Op, skgob) ApplyMsg"
  have m: "kv_lastApplied kv1 < CommandIndex ?m" "Command ?m = Some other" "CommandIndex ?m = index" "kv_store kv1 = kv_store kv"
    using assms(2) kv1(1) by (simp_all add: commandMsg_def)
  obtain kv' snap' where kv': "applyCommand rsize (commandMsg (Some other) index) kv1 = Some (kv', snap')"
    "kv_store kv' = applyStore gid other (kv_store kv)" "wake index (snd ?r) (kv_waiters kv1) = Some (kv_waiters kv')"
    using skvCommand_new [OF ok1 m(1,2), of rsize, unfolded m(3,4)] by metis
  have eq: "kv' = kv2" using kv'(1) assms(7) by simp
  have buf: "bufs (kv_waiters kv2) ch = [snd ?r]"
    using arg_cong [OF kv'(3), of "\<lambda>w. bufs (the w) ch"] unfolding eq by (simp add: kv1 register_def wake_def)
  have type: "op = emptyOp\<lparr>so_Type := ''DeleteShard'', so_ConfigNum := ds_ConfigNum args, so_Shards := ds_Shards args\<rparr>"
    and reply: "reply = (\<lambda>res. if res_err res = ErrWrongLeader \<or> res_err res = ErrTimeout
                      then \<lparr>dsr_Err = res_err res\<rparr> else \<lparr>dsr_Err = OK\<rparr>)"
    using assms(4) by (auto simp: DeleteShard_def split: if_splits)
  have "res_err (snd ?r) = OK \<or> res_err (snd ?r) = ErrNoKey \<or> res_err (snd ?r) = ErrWrongGroup"
    using assms(6) by (auto simp: applyOp_def applyClientOp_def clientType_def noResult_def Let_def split: option.splits)
  then have "dsr_Err (reply (snd ?r)) = OK" by (auto simp: reply err_defs)
  moreover have "waiting (kv_store kv2) s"
    using waiting_step(1) [OF assms(3), of other gid] assms(6) kv'(2) eq kv1(1) by (auto simp: clientType_def)
  ultimately show ?thesis using buf by (simp add: submitResult_def receive_def type)
qed

definition demoServer :: ShardKV where
  "demoServer = (StartServer 0 (MakePersister :: (int, skgob) Persister) (-1) 1)\<lparr>kv_store := demoSrc\<rparr>"

theorem skv_delete_misreported_witness:
  "\<exists>op reply kv1 ch kv2 snap kv3 res.
     DeleteShard True \<lparr>ds_ConfigNum = 0, ds_Shards = [7]\<rparr> demoSrc = Inr (op, reply) \<and>
     submitBegin 1 True demoServer = Inr (kv1, ch) \<and>
     applyCommand 0 (commandMsg (Some (demoOps ! 1)) 1) kv1 = Some (kv2, snap) \<and>
     submitResult op 1 ch kv2 = Some (kv3, res) \<and> dsr_Err (reply res) = OK \<and> waiting (kv_store kv3) 7"
proof -
  have ok: "skv_ok 1 demoServer" "kv_lastApplied demoServer < 1" and st: "kv_store demoServer = demoSrc"
    using skv_start(1) [of 1 0 "-1"] by (simp_all add: demoServer_def skv_ok_def skv_start(2))
  have w: "waiting demoSrc 7" by (simp add: waiting_def demoSrc_def)
  obtain op reply where d: "DeleteShard True \<lparr>ds_ConfigNum = 0, ds_Shards = [7]\<rparr> demoSrc = Inr (op, reply)"
    by (auto simp: DeleteShard_def demoSrc_def emptyStore_def noConfig_def)
  obtain kv1 ch where b: "submitBegin 1 True demoServer = Inr (kv1, ch)"
    by (auto simp: submitBegin_def register_def Let_def)
  then have kv1: "kv1 = demoServer\<lparr>kv_waiters := fst (register 1 (kv_waiters demoServer))\<rparr>"
    by (auto simp: submitBegin_def register_def Let_def)
  have "skv_ok 1 kv1" "kv_lastApplied kv1 < CommandIndex (commandMsg (Some (demoOps ! 1)) 1 :: (Op, skgob) ApplyMsg)"
    "Command (commandMsg (Some (demoOps ! 1)) 1 :: (Op, skgob) ApplyMsg) = Some (demoOps ! 1)"
    using ok kv1 by (simp_all add: skv_ok_def waiters_ok_register commandMsg_def)
  from skvCommand_new [OF this, of 0]
  obtain kv2 snap where a: "applyCommand 0 (commandMsg (Some (demoOps ! 1)) 1) kv1 = Some (kv2, snap)" by metis
  have c: "clientType (so_Type (demoOps ! 1))" by (simp add: demoOps_def clientType_def)
  from skv_delete_misreported [OF ok w [folded st] d [folded st] b c a] d b a show ?thesis by blast
qed

end
