(* ===== verification/MapReduce.thy ===== *)
theory MapReduce
  imports Prelude "HOL-Library.Word" "HOL-Library.Multiset" "HOL-Library.List_Lexorder" "HOL-Library.Char_ord"
begin

section \<open>MapReduce\<close>

text \<open>
  \<^verbatim>\<open>mr/coordinator.go\<close>, \<^verbatim>\<open>mr/worker.go\<close>, \<^verbatim>\<open>mr/rpc.go\<close> and the reference \<^verbatim>\<open>main/mrsequential.go\<close>.
  The handlers of the coordinator are functions on its state; the time is an argument. What
  a worker does to the file system is a list of operations (create, append, rename), so that it
  can stop anywhere in it. A file is text or the stream of pairs that the JSON encoder wrote.
  The map and reduce functions of the application are arguments, and so is the sorting, of
  which Go promises an ordered permutation and no more. Task numbers and counts are natural
  numbers. A result \<open>None\<close> is a panic or a \<^verbatim>\<open>log.Fatalf\<close>.
\<close>

unbundle bit_operations_syntax

subsection \<open>RPC\<close>

datatype TaskType = TaskNone | TaskMap | TaskReduce | TaskExit

record RequestTaskReply =
  rt_Type :: TaskType
  rt_TaskID :: nat
  rt_File :: string
  rt_NMap :: nat
  rt_NReduce :: nat

record ReportTaskArgs =
  ra_Type :: TaskType
  ra_TaskID :: nat

subsection \<open>The coordinator\<close>

datatype taskState = stateIdle | stateInProgress | stateDone

record taskInfo =
  ti_state :: taskState
  ti_startTime :: int

record Coordinator =
  c_files :: "string list"
  c_nMap :: nat
  c_nReduce :: nat
  c_mapTasks :: "taskInfo list"
  c_reduceTasks :: "taskInfo list"
  c_mapDone :: nat
  c_reduceDone :: nat

text \<open>Ten seconds, in nanoseconds.\<close>

definition taskTimeout :: int where
  "taskTimeout = 10000000000"

definition available :: "int \<Rightarrow> taskInfo \<Rightarrow> bool" where
  "available now t \<longleftrightarrow> ti_state t = stateIdle \<or> ti_state t = stateInProgress \<and> now - ti_startTime t > taskTimeout"

definition firstAvailable :: "int \<Rightarrow> taskInfo list \<Rightarrow> nat option" where
  "firstAvailable now tasks = List.find (\<lambda>i. available now (tasks ! i)) [0..<length tasks]"

definition noTask :: RequestTaskReply where
  "noTask = \<lparr>rt_Type = TaskNone, rt_TaskID = 0, rt_File = '''', rt_NMap = 0, rt_NReduce = 0\<rparr>"

definition RequestTask :: "int \<Rightarrow> Coordinator \<Rightarrow> (Coordinator \<times> RequestTaskReply) option" where
  "RequestTask now c =
     (if c_mapDone c < c_nMap c
      then (case firstAvailable now (c_mapTasks c) of
              Some i \<Rightarrow>
                if i < length (c_files c)
                then Some (c\<lparr>c_mapTasks := (c_mapTasks c)[i := \<lparr>ti_state = stateInProgress, ti_startTime = now\<rparr>]\<rparr>,
                           \<lparr>rt_Type = TaskMap, rt_TaskID = i, rt_File = c_files c ! i, rt_NMap = c_nMap c, rt_NReduce = c_nReduce c\<rparr>)
                else None
            | None \<Rightarrow> Some (c, noTask))
      else if c_reduceDone c < c_nReduce c
      then (case firstAvailable now (c_reduceTasks c) of
              Some i \<Rightarrow>
                Some (c\<lparr>c_reduceTasks := (c_reduceTasks c)[i := \<lparr>ti_state = stateInProgress, ti_startTime = now\<rparr>]\<rparr>,
                      \<lparr>rt_Type = TaskReduce, rt_TaskID = i, rt_File = '''', rt_NMap = c_nMap c, rt_NReduce = c_nReduce c\<rparr>)
            | None \<Rightarrow> Some (c, noTask))
      else Some (c, noTask\<lparr>rt_Type := TaskExit\<rparr>))"

definition ReportTask :: "ReportTaskArgs \<Rightarrow> Coordinator \<Rightarrow> Coordinator option" where
  "ReportTask args c =
     (case ra_Type args of
        TaskMap \<Rightarrow>
          if ra_TaskID args \<ge> length (c_mapTasks c) then None
          else let t = c_mapTasks c ! ra_TaskID args
               in if ti_state t \<noteq> stateDone
                  then Some (c\<lparr>c_mapTasks := (c_mapTasks c)[ra_TaskID args := t\<lparr>ti_state := stateDone\<rparr>],
                               c_mapDone := c_mapDone c + 1\<rparr>)
                  else Some c
      | TaskReduce \<Rightarrow>
          if ra_TaskID args \<ge> length (c_reduceTasks c) then None
          else let t = c_reduceTasks c ! ra_TaskID args
               in if ti_state t \<noteq> stateDone
                  then Some (c\<lparr>c_reduceTasks := (c_reduceTasks c)[ra_TaskID args := t\<lparr>ti_state := stateDone\<rparr>],
                               c_reduceDone := c_reduceDone c + 1\<rparr>)
                  else Some c
      | _ \<Rightarrow> Some c)"

definition Done :: "Coordinator \<Rightarrow> bool" where
  "Done c \<longleftrightarrow> c_reduceDone c = c_nReduce c"

definition MakeCoordinator :: "string list \<Rightarrow> nat \<Rightarrow> Coordinator" where
  "MakeCoordinator files nReduce =
     \<lparr>c_files = files, c_nMap = length files, c_nReduce = nReduce,
      c_mapTasks = replicate (length files) \<lparr>ti_state = stateIdle, ti_startTime = 0\<rparr>,
      c_reduceTasks = replicate nReduce \<lparr>ti_state = stateIdle, ti_startTime = 0\<rparr>, c_mapDone = 0, c_reduceDone = 0\<rparr>"

subsection \<open>Files\<close>

record KeyValue =
  kv_Key :: string
  kv_Value :: string

datatype filedata = Text string | Json "KeyValue list"

type_synonym fs = "string \<rightharpoonup> filedata"

datatype fsop = Create string | AppendPair string KeyValue | AppendText string string | Rename string string

fun execOp :: "fsop \<Rightarrow> fs \<Rightarrow> fs option" where
  "execOp (Create n) fs = Some (fs(n \<mapsto> Text ''''))"
| "execOp (AppendPair n kv) fs =
     (case fs n of
        None \<Rightarrow> None
      | Some (Json kvs) \<Rightarrow> Some (fs(n \<mapsto> Json (kvs @ [kv])))
      | Some (Text t) \<Rightarrow> if t = '''' then Some (fs(n \<mapsto> Json [kv])) else None)"
| "execOp (AppendText n s) fs =
     (case fs n of
        Some (Text t) \<Rightarrow> Some (fs(n \<mapsto> Text (t @ s)))
      | _ \<Rightarrow> None)"
| "execOp (Rename a b) fs = (case fs a of None \<Rightarrow> None | Some f \<Rightarrow> Some ((fs(a := None))(b \<mapsto> f)))"

fun runOps :: "fsop list \<Rightarrow> fs \<Rightarrow> fs option" where
  "runOps [] fs = Some fs"
| "runOps (x # xs) fs = Option.bind (execOp x fs) (runOps xs)"

fun readPairs :: "filedata \<Rightarrow> KeyValue list" where
  "readPairs (Json kvs) = kvs"
| "readPairs (Text t) = []"

fun itoa :: "nat \<Rightarrow> string" where
  "itoa n = (if n < 10 then [char_of (48 + n)] else itoa (n div 10) @ [char_of (48 + n mod 10)])"

declare itoa.simps [simp del]

definition interName :: "nat \<Rightarrow> nat \<Rightarrow> string" where
  "interName m r = ''mr-'' @ itoa m @ ''-'' @ itoa r"

definition outName :: "nat \<Rightarrow> string" where
  "outName r = ''mr-out-'' @ itoa r"

definition mapTmp :: "nat \<Rightarrow> nat \<Rightarrow> nat \<Rightarrow> string" where
  "mapTmp pid m r = ''.mr-map-tmp-'' @ itoa pid @ ''-'' @ itoa m @ ''-'' @ itoa r"

definition outTmp :: "nat \<Rightarrow> nat \<Rightarrow> string" where
  "outTmp pid r = ''.mr-out-tmp-'' @ itoa pid @ ''-'' @ itoa r"

subsection \<open>The worker\<close>

text \<open>FNV-1a on 32 bits, and the hash of a key.\<close>

definition fnv32a :: "string \<Rightarrow> 32 word" where
  "fnv32a key = fold (\<lambda>c h. (h XOR of_nat (of_char c)) * 16777619) key 2166136261"

definition ihash :: "string \<Rightarrow> nat" where
  "ihash key = unat (fnv32a key AND 0x7fffffff)"

definition bucketStep :: "nat \<Rightarrow> KeyValue \<Rightarrow> KeyValue list list \<Rightarrow> KeyValue list list" where
  "bucketStep nReduce kv bs =
     (let r = ihash (kv_Key kv) mod nReduce in bs[r := bs ! r @ [kv]])"

definition buckets :: "nat \<Rightarrow> KeyValue list \<Rightarrow> KeyValue list list" where
  "buckets nReduce kva = fold (bucketStep nReduce) kva (replicate nReduce [])"

definition mapOps :: "nat \<Rightarrow> nat \<Rightarrow> nat \<Rightarrow> KeyValue list \<Rightarrow> fsop list" where
  "mapOps pid m nReduce kva =
     concat (map (\<lambda>r. Create (mapTmp pid m r) # map (AppendPair (mapTmp pid m r)) (buckets nReduce kva ! r) @
                      [Rename (mapTmp pid m r) (interName m r)]) [0..<nReduce])"

definition readText :: "string \<Rightarrow> fs \<Rightarrow> string option" where
  "readText name fs = (case fs name of Some (Text t) \<Rightarrow> Some t | _ \<Rightarrow> None)"

text \<open>With no reduce tasks and a pair to place, the remainder by zero panics.\<close>

definition doMap :: "(string \<Rightarrow> string \<Rightarrow> KeyValue list) \<Rightarrow> nat \<Rightarrow> RequestTaskReply \<Rightarrow> fs \<Rightarrow> fs option" where
  "doMap mapf pid reply fs = do {
     content \<leftarrow> readText (rt_File reply) fs;
     let kva = mapf (rt_File reply) content;
     if rt_NReduce reply = 0 \<and> kva \<noteq> [] then None
     else runOps (mapOps pid (rt_TaskID reply) (rt_NReduce reply) kva) fs
   }"

text \<open>The loop over the sorted pairs: one line for each run of equal keys.\<close>

definition reduceLine :: "(string \<Rightarrow> string list \<Rightarrow> string) \<Rightarrow> string \<Rightarrow> string list \<Rightarrow> string" where
  "reduceLine reducef key values = key @ '' '' @ reducef key values @ [CHR 0x0A]"

fun reduceLines :: "(string \<Rightarrow> string list \<Rightarrow> string) \<Rightarrow> KeyValue list \<Rightarrow> string list" where
  "reduceLines reducef [] = []"
| "reduceLines reducef (kv # kvs) =
     (let same = takeWhile (\<lambda>x. kv_Key x = kv_Key kv) kvs
      in reduceLine reducef (kv_Key kv) (map kv_Value (kv # same)) # reduceLines reducef (drop (length same) kvs))"

definition gather :: "nat \<Rightarrow> nat \<Rightarrow> fs \<Rightarrow> KeyValue list" where
  "gather nMap r fs =
     concat (map (\<lambda>m. case fs (interName m r) of None \<Rightarrow> [] | Some f \<Rightarrow> readPairs f) [0..<nMap])"

definition reduceOps ::
  "(KeyValue list \<Rightarrow> KeyValue list) \<Rightarrow> (string \<Rightarrow> string list \<Rightarrow> string) \<Rightarrow> nat \<Rightarrow> nat \<Rightarrow> KeyValue list \<Rightarrow> fsop list" where
  "reduceOps srt reducef pid r intermediate =
     Create (outTmp pid r) # map (AppendText (outTmp pid r)) (reduceLines reducef (srt intermediate)) @
     [Rename (outTmp pid r) (outName r)]"

definition doReduce ::
  "(KeyValue list \<Rightarrow> KeyValue list) \<Rightarrow> (string \<Rightarrow> string list \<Rightarrow> string) \<Rightarrow> nat \<Rightarrow> RequestTaskReply \<Rightarrow> fs \<Rightarrow> fs option" where
  "doReduce srt reducef pid reply fs =
     runOps (reduceOps srt reducef pid (rt_TaskID reply) (gather (rt_NMap reply) (rt_TaskID reply) fs)) fs"

text \<open>
  One turn of the loop of \<^verbatim>\<open>Worker\<close>, run without interruption: the request, the task, the report.
  The flag says whether the loop goes on.
\<close>

definition Worker ::
  "(KeyValue list \<Rightarrow> KeyValue list) \<Rightarrow> (string \<Rightarrow> string \<Rightarrow> KeyValue list) \<Rightarrow> (string \<Rightarrow> string list \<Rightarrow> string) \<Rightarrow>
   nat \<Rightarrow> int \<Rightarrow> Coordinator \<times> fs \<Rightarrow> ((Coordinator \<times> fs) \<times> bool) option" where
  "Worker srt mapf reducef pid now s = do {
     (c, reply) \<leftarrow> RequestTask now (fst s);
     case rt_Type reply of
       TaskMap \<Rightarrow> do {
         fs \<leftarrow> doMap mapf pid reply (snd s);
         c' \<leftarrow> ReportTask \<lparr>ra_Type = TaskMap, ra_TaskID = rt_TaskID reply\<rparr> c;
         Some ((c', fs), True)
       }
     | TaskReduce \<Rightarrow> do {
         fs \<leftarrow> doReduce srt reducef pid reply (snd s);
         c' \<leftarrow> ReportTask \<lparr>ra_Type = TaskReduce, ra_TaskID = rt_TaskID reply\<rparr> c;
         Some ((c', fs), True)
       }
     | TaskNone \<Rightarrow> Some ((c, snd s), True)
     | TaskExit \<Rightarrow> Some ((c, snd s), False)
   }"

subsection \<open>The sequential program\<close>

fun mapAll :: "(string \<Rightarrow> string \<Rightarrow> KeyValue list) \<Rightarrow> string list \<Rightarrow> fs \<Rightarrow> KeyValue list option" where
  "mapAll mapf [] fs = Some []"
| "mapAll mapf (f # files) fs = do {
     content \<leftarrow> readText f fs;
     rest \<leftarrow> mapAll mapf files fs;
     Some (mapf f content @ rest)
   }"

definition mrsequential ::
  "(KeyValue list \<Rightarrow> KeyValue list) \<Rightarrow> (string \<Rightarrow> string \<Rightarrow> KeyValue list) \<Rightarrow> (string \<Rightarrow> string list \<Rightarrow> string) \<Rightarrow>
   string list \<Rightarrow> fs \<Rightarrow> fs option" where
  "mrsequential srt mapf reducef files fs = do {
     intermediate \<leftarrow> mapAll mapf files fs;
     runOps (Create (outName 0) # map (AppendText (outName 0)) (reduceLines reducef (srt intermediate))) fs
   }"

end
