(* ===== verification/MrLemmas.thy ===== *)
theory MrLemmas
  imports MapReduce
begin

section \<open>File names, buckets and lines\<close>

text \<open>
  The names that \<^verbatim>\<open>Sprintf\<close> makes are different for different numbers; the buckets of a map task
  are the pairs with the same hash; and what the reduce loop prints depends, for a reduce
  function that does not look at the order of the values, on the pairs only and not on how they
  were sorted.
\<close>

subsection \<open>Names\<close>

definition number :: "string \<Rightarrow> nat" where
  "number s = fold (\<lambda>c a. 10 * a + (of_char c - 48)) s 0"

lemma number_itoa [simp]: "number (itoa n) = n"
proof (induction n rule: itoa.induct)
  case (1 n)
  have d: "of_char (char_of (48 + k) :: char) = 48 + k" if "k < 10" for k :: nat using that by (simp add: of_char_of)
  show ?case
  proof (cases "n < 10")
    case True
    then show ?thesis using d [of n] by (subst itoa.simps) (simp add: number_def)
  next
    case False
    have "n mod 10 < 10" by simp
    from d [OF this] 1 [OF False] False show ?thesis by (subst itoa.simps) (simp add: number_def)
  qed
qed

lemma itoa_inj: "itoa m = itoa n \<longleftrightarrow> m = n"
  by (metis number_itoa)

lemma itoa_digits:
  assumes "c \<in> set (itoa n)"
  shows "48 \<le> (of_char c :: nat)" and "(of_char c :: nat) < 58"
proof -
  have d: "48 \<le> (of_char (char_of (48 + k) :: char) :: nat) \<and> of_char (char_of (48 + k) :: char) < (58 :: nat)" if "k < 10" for k :: nat
    using that by (simp add: of_char_of)
  have "48 \<le> (of_char c :: nat) \<and> (of_char c :: nat) < 58"
    using assms
  proof (induction n rule: itoa.induct)
    case (1 n)
    from 1(2) have "c = char_of (48 + n mod 10) \<or> \<not> n < 10 \<and> c \<in> set (itoa (n div 10))"
      by (subst (asm) itoa.simps) (auto split: if_splits)
    then show ?case using 1(1) d [of "n mod 10"] by auto
  qed
  then show "48 \<le> (of_char c :: nat)" and "(of_char c :: nat) < 58" by blast+
qed

lemma itoa_no_dash: "CHR ''-'' \<notin> set (itoa n)"
  using itoa_digits(1) [of "CHR ''-''" n] by auto

lemma itoa_ne [simp]: "itoa n \<noteq> []"
  by (subst itoa.simps) simp

lemma dash_split:
  assumes "u @ CHR ''-'' # v = u' @ CHR ''-'' # v'" and "CHR ''-'' \<notin> set u" and "CHR ''-'' \<notin> set u'"
  shows "u = u'" and "v = v'"
proof -
  have t: "takeWhile (\<lambda>c. c \<noteq> CHR ''-'') (w @ CHR ''-'' # x) = w" if "CHR ''-'' \<notin> set w" for w x
    using that by (induction w) auto
  show "u = u'" using arg_cong [OF assms(1), of "takeWhile (\<lambda>c. c \<noteq> CHR ''-'')"] t assms(2,3) by simp
  with assms(1) show "v = v'" by simp
qed

lemma interName_inj: "interName m r = interName m' r' \<longleftrightarrow> m = m' \<and> r = r'"
proof
  assume "interName m r = interName m' r'"
  then have "itoa m @ CHR ''-'' # itoa r = itoa m' @ CHR ''-'' # itoa r'" by (simp add: interName_def)
  from dash_split [OF this itoa_no_dash itoa_no_dash] show "m = m' \<and> r = r'" by (simp add: itoa_inj)
qed simp

lemma outName_inj: "outName r = outName r' \<longleftrightarrow> r = r'"
  by (simp add: outName_def itoa_inj)

lemma tmp_pid:
  "mapTmp p m r = mapTmp p' m' r' \<Longrightarrow> p = p'" "outTmp p r = outTmp p' r' \<Longrightarrow> p = p'"
proof -
  assume "mapTmp p m r = mapTmp p' m' r'"
  then have "itoa p @ CHR ''-'' # (itoa m @ ''-'' @ itoa r) = itoa p' @ CHR ''-'' # (itoa m' @ ''-'' @ itoa r')"
    by (simp add: mapTmp_def)
  from dash_split [OF this itoa_no_dash itoa_no_dash] show "p = p'" by (simp add: itoa_inj)
next
  assume "outTmp p r = outTmp p' r'"
  then have "itoa p @ CHR ''-'' # itoa r = itoa p' @ CHR ''-'' # itoa r'" by (simp add: outTmp_def)
  from dash_split [OF this itoa_no_dash itoa_no_dash] show "p = p'" by (simp add: itoa_inj)
qed

lemma names_differ [simp]:
  "mapTmp p m r \<noteq> outTmp p' r'" "outTmp p' r' \<noteq> mapTmp p m r" "mapTmp p m r \<noteq> interName m' r''" "mapTmp p m r \<noteq> outName r''"
  "outTmp p r \<noteq> interName m' r''" "outTmp p r \<noteq> outName r''" "interName m' r'' \<noteq> mapTmp p m r" "outName r'' \<noteq> mapTmp p m r"
  "interName m' r'' \<noteq> outTmp p r" "outName r'' \<noteq> outTmp p r"
  by (simp_all add: mapTmp_def outTmp_def interName_def outName_def)

lemma inter_out [simp]: "interName m r \<noteq> outName r'" "outName r' \<noteq> interName m r"
proof -
  have "hd (itoa m) \<noteq> CHR ''o''"
    using itoa_digits(2) [OF hd_in_set [OF itoa_ne], of m] by auto
  then have "hd (itoa m @ ''-'' @ itoa r) \<noteq> CHR ''o''" by simp
  then have "itoa m @ ''-'' @ itoa r \<noteq> CHR ''o'' # x" for x by (metis list.sel(1))
  then show "interName m r \<noteq> outName r'" by (simp add: interName_def outName_def)
  then show "outName r' \<noteq> interName m r" by (rule not_sym)
qed

subsection \<open>Buckets\<close>

definition inBucket :: "nat \<Rightarrow> nat \<Rightarrow> KeyValue \<Rightarrow> bool" where
  "inBucket nReduce r kv \<longleftrightarrow> ihash (kv_Key kv) mod nReduce = r"

lemma buckets_fold:
  assumes "length bs = n"
  shows "length (fold (bucketStep n) kva bs) = n"
    and "r < n \<Longrightarrow> fold (bucketStep n) kva bs ! r = bs ! r @ filter (inBucket n r) kva"
proof -
  have "length (fold (bucketStep n) kva bs) = n \<and> (r < n \<longrightarrow> fold (bucketStep n) kva bs ! r = bs ! r @ filter (inBucket n r) kva)"
    using assms
  proof (induction kva arbitrary: bs)
    case (Cons kv kva)
    from Cons.IH [of "bucketStep n kv bs"] Cons.prems show ?case
      by (auto simp: bucketStep_def Let_def inBucket_def)
  qed simp
  then show "length (fold (bucketStep n) kva bs) = n"
    and "r < n \<Longrightarrow> fold (bucketStep n) kva bs ! r = bs ! r @ filter (inBucket n r) kva" by blast+
qed

lemma buckets_nth: "r < n \<Longrightarrow> buckets n kva ! r = filter (inBucket n r) kva"
  using buckets_fold(2) [of "replicate n []" n r kva] by (simp add: buckets_def)

subsection \<open>Lines\<close>

definition sort_ok :: "(KeyValue list \<Rightarrow> KeyValue list) \<Rightarrow> bool" where
  "sort_ok srt \<longleftrightarrow> (\<forall>xs. mset (srt xs) = mset xs \<and> sorted (map kv_Key (srt xs)))"

definition order_blind :: "(string \<Rightarrow> string list \<Rightarrow> string) \<Rightarrow> bool" where
  "order_blind reducef \<longleftrightarrow> (\<forall>k vs ws. mset vs = mset ws \<longrightarrow> reducef k vs = reducef k ws)"

definition valuesOf :: "string \<Rightarrow> KeyValue list \<Rightarrow> string list" where
  "valuesOf k xs = map kv_Value (filter (\<lambda>x. kv_Key x = k) xs)"

definition allLines :: "(string \<Rightarrow> string list \<Rightarrow> string) \<Rightarrow> KeyValue list \<Rightarrow> string list" where
  "allLines reducef xs =
     map (\<lambda>k. reduceLine reducef k (valuesOf k xs)) (sorted_list_of_set (kv_Key ` set xs))"

lemma sorted_head_run:
  assumes "sorted (map kv_Key (kv # kvs))"
  defines "same \<equiv> takeWhile (\<lambda>x. kv_Key x = kv_Key kv) kvs"
  shows "filter (\<lambda>x. kv_Key x = kv_Key kv) kvs = same" and "\<forall>x \<in> set (drop (length same) kvs). kv_Key kv < kv_Key x"
    and "kvs = same @ drop (length same) kvs"
proof -
  let ?P = "\<lambda>x. kv_Key x = kv_Key kv"
  have d: "drop (length same) kvs = dropWhile ?P kvs" unfolding same_def by (rule dropWhile_eq_drop [symmetric])
  show split: "kvs = same @ drop (length same) kvs" unfolding d by (simp add: same_def)
  have s: "sorted (map kv_Key kvs)" "\<forall>x \<in> set kvs. kv_Key kv \<le> kv_Key x" using assms(1) by auto
  show gt: "\<forall>x \<in> set (drop (length same) kvs). kv_Key kv < kv_Key x"
  proof (cases "dropWhile ?P kvs")
    case Nil
    show ?thesis unfolding d Nil by simp
  next
    case (Cons y ys)
    then have "kv_Key y \<noteq> kv_Key kv" using hd_dropWhile [of ?P kvs] by simp
    moreover have "y \<in> set kvs" using Cons by (metis list.set_intros(1) set_dropWhileD)
    ultimately have "kv_Key kv < kv_Key y" using s(2) by force
    moreover have "sorted (map kv_Key (y # ys))"
      using s(1) unfolding Cons [symmetric] by (metis dropWhile_map sorted_dropWhile dropWhile_eq_drop drop_map sorted_wrt_drop)
    ultimately show ?thesis unfolding d Cons by auto
  qed
  have "filter ?P same = same" unfolding same_def by (simp add: filter_id_conv) (auto dest: set_takeWhileD)
  moreover have "filter ?P (drop (length same) kvs) = []" using gt by (auto simp: filter_empty_conv)
  ultimately show "filter ?P kvs = same" using split by (metis append_Nil2 filter_append)
qed

lemma sorted_list_of_set_Cons:
  fixes k :: "'a :: linorder"
  assumes "finite A" and "\<forall>y \<in> A. k < y"
  shows "sorted_list_of_set (insert k A) = k # sorted_list_of_set A"
proof -
  have "A - {k} = A" using assms(2) by auto
  then have "sorted_list_of_set (insert k A) = insort k (sorted_list_of_set A)"
    using sorted_list_of_set_insert_remove [OF assms(1)] by simp
  also have "\<dots> = k # sorted_list_of_set A"
    by (rule insort_is_Cons) (use assms in \<open>auto intro: less_imp_le\<close>)
  finally show ?thesis .
qed

lemma reduceLines_sorted:
  assumes "sorted (map kv_Key xs)"
  shows "reduceLines reducef xs = allLines reducef xs"
  using assms
proof (induction reducef xs rule: reduceLines.induct)
  case (2 reducef kv kvs)
  let ?same = "takeWhile (\<lambda>x. kv_Key x = kv_Key kv) kvs" and ?k = "kv_Key kv"
  let ?rest = "drop (length ?same) kvs"
  note run = sorted_head_run [OF 2(2)]
  have "sorted (map kv_Key ?rest)" using 2(2) by (simp add: drop_map [symmetric] sorted_wrt_drop)
  with 2(1) have IH: "reduceLines reducef ?rest = allLines reducef ?rest" by (simp add: Let_def)
  have keys: "kv_Key ` set (kv # kvs) = insert ?k (kv_Key ` set ?rest)"
  proof -
    have "kv_Key ` set ?same \<subseteq> {?k}" by (auto dest: set_takeWhileD)
    moreover have "set kvs = set ?same \<union> set ?rest" using run(3) by (metis set_append)
    ultimately show ?thesis by auto
  qed
  have lt: "\<forall>y \<in> kv_Key ` set ?rest. ?k < y" using run(2) by auto
  then have sl: "sorted_list_of_set (kv_Key ` set (kv # kvs)) = ?k # sorted_list_of_set (kv_Key ` set ?rest)"
    unfolding keys by (intro sorted_list_of_set_Cons) simp_all
  have "valuesOf k (kv # kvs) = valuesOf k ?rest" if "k \<in> kv_Key ` set ?rest" for k
  proof -
    have "k \<noteq> ?k" using lt that by auto
    then have "filter (\<lambda>x. kv_Key x = k) ?same = []" by (auto simp: filter_empty_conv dest: set_takeWhileD)
    then have "filter (\<lambda>x. kv_Key x = k) kvs = filter (\<lambda>x. kv_Key x = k) ?rest"
      using run(3) by (metis append_Nil filter_append)
    with \<open>k \<noteq> ?k\<close> show ?thesis by (simp add: valuesOf_def)
  qed
  then have "allLines reducef (kv # kvs) = reduceLine reducef ?k (valuesOf ?k (kv # kvs)) # allLines reducef ?rest"
    unfolding allLines_def sl by simp
  moreover have "valuesOf ?k (kv # kvs) = map kv_Value (kv # ?same)" using run(1) by (simp add: valuesOf_def)
  ultimately show ?case using IH by (simp add: Let_def)
qed (simp add: allLines_def)

lemma allLines_perm:
  assumes "order_blind reducef" and "mset xs = mset ys"
  shows "allLines reducef xs = allLines reducef ys"
proof -
  have "set xs = set ys" by (rule mset_eq_setD [OF assms(2)])
  moreover have "mset (valuesOf k xs) = mset (valuesOf k ys)" for k
    using assms(2) by (simp add: valuesOf_def mset_filter)
  then have "reduceLine reducef k (valuesOf k xs) = reduceLine reducef k (valuesOf k ys)" for k
    using assms(1) unfolding order_blind_def reduceLine_def by metis
  ultimately show ?thesis by (simp add: allLines_def)
qed

lemma reduceLines_srt:
  assumes "sort_ok srt" and "order_blind reducef"
  shows "reduceLines reducef (srt xs) = allLines reducef xs"
proof -
  have "mset (srt xs) = mset xs" "sorted (map kv_Key (srt xs))" using assms(1) by (simp_all add: sort_ok_def)
  then show ?thesis using reduceLines_sorted allLines_perm [OF assms(2)] by metis
qed

text \<open>The lines of the buckets together are the lines of all pairs.\<close>

lemma mset_concat_upt: "mset (concat (map g [0..<n])) = (\<Sum>r<n. mset (g r))"
  by (induction n) (auto simp: add.commute)

lemma mset_set_partition:
  assumes "finite K" and "\<forall>k \<in> K. f k < (n :: nat)"
  shows "(\<Sum>r<n. mset_set {k \<in> K. f k = r}) = mset_set K"
proof -
  have "(\<Sum>r<m. mset_set {k \<in> K. f k = r}) = mset_set {k \<in> K. f k < m}" for m :: nat
  proof (induction m)
    case (Suc m)
    have "{k \<in> K. f k < Suc m} = {k \<in> K. f k < m} \<union> {k \<in> K. f k = m}" by auto
    then have "mset_set {k \<in> K. f k < Suc m} = mset_set {k \<in> K. f k < m} + mset_set {k \<in> K. f k = m}"
      using assms(1) by (simp add: mset_set_Union disjoint_iff)
    with Suc show ?case by simp
  qed simp
  moreover have "{k \<in> K. f k < n} = K" using assms(2) by auto
  ultimately show ?thesis by simp
qed

lemma mset_allLines:
  "mset (allLines reducef xs) = image_mset (\<lambda>k. reduceLine reducef k (valuesOf k xs)) (mset_set (kv_Key ` set xs))"
proof -
  have "mset (sorted_list_of_set (kv_Key ` set xs)) = mset_set (kv_Key ` set xs)"
    using mset_set_set [of "sorted_list_of_set (kv_Key ` set xs)"] by simp
  then show ?thesis by (simp add: allLines_def)
qed

lemma image_mset_sum: "image_mset h (\<Sum>r<(m :: nat). g r) = (\<Sum>r<m. image_mset h (g r))"
  by (induction m) auto

lemma allLines_buckets:
  assumes "0 < n"
  shows "mset (concat (map (\<lambda>r. allLines reducef (filter (inBucket n r) xs)) [0..<n])) = mset (allLines reducef xs)"
proof -
  let ?f = "\<lambda>k. ihash k mod n" and ?K = "kv_Key ` set xs" and ?line = "\<lambda>k. reduceLine reducef k (valuesOf k xs)"
  have "mset (allLines reducef (filter (inBucket n r) xs)) = image_mset ?line (mset_set {k \<in> ?K. ?f k = r})" for r
  proof -
    have "kv_Key ` set (filter (inBucket n r) xs) = {k \<in> ?K. ?f k = r}" by (auto simp: inBucket_def)
    moreover have "valuesOf k (filter (inBucket n r) xs) = valuesOf k xs" if "?f k = r" for k
      using that unfolding valuesOf_def inBucket_def by (simp add: filter_filter) (metis (mono_tags, lifting))
    ultimately show ?thesis unfolding mset_allLines by (auto intro!: image_mset_cong)
  qed
  then have "mset (concat (map (\<lambda>r. allLines reducef (filter (inBucket n r) xs)) [0..<n])) =
      (\<Sum>r<n. image_mset ?line (mset_set {k \<in> ?K. ?f k = r}))"
    by (simp only: mset_concat_upt)
  also have "\<dots> = image_mset ?line (\<Sum>r<n. mset_set {k \<in> ?K. ?f k = r})" by (rule image_mset_sum [symmetric])
  also have "(\<Sum>r<n. mset_set {k \<in> ?K. ?f k = r}) = mset_set ?K" using assms by (intro mset_set_partition) auto
  finally show ?thesis by (simp add: mset_allLines)
qed

end
