(* ===== verification/MrJob.thy ===== *)
theory MrJob
  imports MrLemmas
begin

section \<open>A MapReduce job\<close>

text \<open>
  The coordinator and any number of workers, each of which may stop at any point of what it
  does and never come back. A worker is a process number, the task it was given and the
  operations on the file system that it has still to carry out. A map function need not give
  its pairs in the same order each time it is called. The invariant: what is renamed to its
  final name is complete and right, and a task that is reported done has its files in place.
\<close>

record app =
  ap_map :: "string \<Rightarrow> string \<Rightarrow> KeyValue list"
  ap_reduce :: "string \<Rightarrow> string list \<Rightarrow> string"
  ap_sort :: "KeyValue list \<Rightarrow> KeyValue list"
  ap_files :: "string list"
  ap_nReduce :: nat
  ap_fs :: fs

record runner =
  rn_kind :: TaskType
  rn_id :: nat
  rn_todo :: "fsop list"

record job =
  jb_coord :: Coordinator
  jb_fs :: fs
  jb_running :: "nat \<rightharpoonup> runner"

definition startJob :: "app \<Rightarrow> job" where
  "startJob A = \<lparr>jb_coord = MakeCoordinator (ap_files A) (ap_nReduce A), jb_fs = ap_fs A, jb_running = Map.empty\<rparr>"

inductive jstep :: "app \<Rightarrow> job \<Rightarrow> job \<Rightarrow> bool" for A :: app where
  ask: "RequestTask now (jb_coord s) = Some (c, reply) \<Longrightarrow> jstep A s (s\<lparr>jb_coord := c\<rparr>)"
| ask_map: "RequestTask now (jb_coord s) = Some (c, reply) \<Longrightarrow> rt_Type reply = TaskMap \<Longrightarrow> jb_running s pid = None \<Longrightarrow>
    readText (rt_File reply) (jb_fs s) = Some content \<Longrightarrow> mset kva = mset (ap_map A (rt_File reply) content) \<Longrightarrow>
    rt_NReduce reply \<noteq> 0 \<or> kva = [] \<Longrightarrow>
    jstep A s (s\<lparr>jb_coord := c, jb_running := (jb_running s)(pid \<mapsto>
      \<lparr>rn_kind = TaskMap, rn_id = rt_TaskID reply, rn_todo = mapOps pid (rt_TaskID reply) (rt_NReduce reply) kva\<rparr>)\<rparr>)"
| ask_reduce: "RequestTask now (jb_coord s) = Some (c, reply) \<Longrightarrow> rt_Type reply = TaskReduce \<Longrightarrow> jb_running s pid = None \<Longrightarrow>
    jstep A s (s\<lparr>jb_coord := c, jb_running := (jb_running s)(pid \<mapsto>
      \<lparr>rn_kind = TaskReduce, rn_id = rt_TaskID reply,
       rn_todo = reduceOps (ap_sort A) (ap_reduce A) pid (rt_TaskID reply) (gather (rt_NMap reply) (rt_TaskID reply) (jb_fs s))\<rparr>)\<rparr>)"
| work: "jb_running s pid = Some x \<Longrightarrow> rn_todo x = op # ops \<Longrightarrow> execOp op (jb_fs s) = Some fs \<Longrightarrow>
    jstep A s (s\<lparr>jb_fs := fs, jb_running := (jb_running s)(pid \<mapsto> x\<lparr>rn_todo := ops\<rparr>)\<rparr>)"
| report: "jb_running s pid = Some x \<Longrightarrow> rn_todo x = [] \<Longrightarrow>
    ReportTask \<lparr>ra_Type = rn_kind x, ra_TaskID = rn_id x\<rparr> (jb_coord s) = Some c \<Longrightarrow>
    jstep A s (s\<lparr>jb_coord := c, jb_running := (jb_running s)(pid := None)\<rparr>)"
| crash: "jstep A s (s\<lparr>jb_running := (jb_running s)(pid := None)\<rparr>)"

abbreviation jreach :: "app \<Rightarrow> job \<Rightarrow> bool" where
  "jreach A \<equiv> reaches (\<lambda>s. s = startJob A) (jstep A)"

subsection \<open>What the files should be\<close>

definition input :: "app \<Rightarrow> nat \<Rightarrow> string" where
  "input A m = (case readText (ap_files A ! m) (ap_fs A) of Some t \<Rightarrow> t | None \<Rightarrow> '''')"

definition inter :: "app \<Rightarrow> nat \<Rightarrow> nat \<Rightarrow> KeyValue list" where
  "inter A m r = filter (inBucket (ap_nReduce A) r) (ap_map A (ap_files A ! m) (input A m))"

definition share :: "app \<Rightarrow> nat \<Rightarrow> KeyValue list" where
  "share A r = concat (map (\<lambda>m. inter A m r) [0..<length (ap_files A)])"

definition outLines :: "app \<Rightarrow> nat \<Rightarrow> string list" where
  "outLines A r = allLines (ap_reduce A) (share A r)"

definition goodFile :: "app \<Rightarrow> string \<Rightarrow> filedata \<Rightarrow> bool" where
  "goodFile A n f \<longleftrightarrow>
     (\<forall>m r. m < length (ap_files A) \<longrightarrow> r < ap_nReduce A \<longrightarrow> n = interName m r \<longrightarrow> mset (readPairs f) = mset (inter A m r)) \<and>
     (\<forall>r. r < ap_nReduce A \<longrightarrow> n = outName r \<longrightarrow> f = Text (concat (outLines A r)))"

definition inPlace :: "app \<Rightarrow> fs \<Rightarrow> string \<Rightarrow> bool" where
  "inPlace A fs n \<longleftrightarrow> (\<exists>f. fs n = Some f \<and> goodFile A n f)"

definition tmps :: "nat \<Rightarrow> string set" where
  "tmps pid = {n. (\<exists>m r. n = mapTmp pid m r) \<or> (\<exists>r. n = outTmp pid r)}"

definition finals :: "string set" where
  "finals = {n. (\<exists>m r. n = interName m r) \<or> (\<exists>r. n = outName r)}"

definition app_ok :: "app \<Rightarrow> bool" where
  "app_ok A \<longleftrightarrow> sort_ok (ap_sort A) \<and> order_blind (ap_reduce A) \<and>
     (\<forall>f \<in> set (ap_files A). (\<exists>t. ap_fs A f = Some (Text t)) \<and> f \<notin> finals \<and> (\<forall>pid. f \<notin> tmps pid))"

lemma tmps_disjoint: "n \<in> tmps p \<Longrightarrow> n \<in> tmps q \<Longrightarrow> p = q"
  by (auto simp: tmps_def dest: tmp_pid)

lemma tmps_finals: "n \<in> tmps p \<Longrightarrow> n \<notin> finals"
  by (auto simp: tmps_def finals_def)

subsection \<open>What a worker still does\<close>

fun ownOp :: "nat \<Rightarrow> fsop \<Rightarrow> bool" where
  "ownOp pid (Create n) = (n \<in> tmps pid)"
| "ownOp pid (AppendPair n kv) = (n \<in> tmps pid)"
| "ownOp pid (AppendText n s) = (n \<in> tmps pid)"
| "ownOp pid (Rename a b) = (a \<in> tmps pid \<and> b \<in> finals)"

fun safeOp :: "app \<Rightarrow> fs \<Rightarrow> fsop \<Rightarrow> bool" where
  "safeOp A fs (Rename a b) = (case fs a of Some f \<Rightarrow> goodFile A b f | None \<Rightarrow> False)"
| "safeOp A fs _ = True"

text \<open>Carried out alone, the operations succeed and rename only complete files.\<close>

fun safeRun :: "app \<Rightarrow> fs \<Rightarrow> fsop list \<Rightarrow> bool" where
  "safeRun A fs [] = True"
| "safeRun A fs (op # ops) = (safeOp A fs op \<and> (case execOp op fs of Some fs' \<Rightarrow> safeRun A fs' ops | None \<Rightarrow> False))"

definition promised :: "string \<Rightarrow> fsop list \<Rightarrow> bool" where
  "promised n ops \<longleftrightarrow> (\<exists>a. Rename a n \<in> set ops)"

lemma execOp_frame:
  assumes "execOp op fs = Some fs'" and "ownOp pid op" and "n \<notin> tmps pid"
  shows "fs' n = fs n \<or> (\<exists>a. op = Rename a n)"
  using assms by (cases op) (auto split: option.splits filedata.splits if_splits)

lemma execOp_agree:
  assumes "execOp op fs = Some fs'" and "ownOp pid op" and "\<forall>n \<in> tmps pid. gs n = fs n"
  obtains gs' where "execOp op gs = Some gs'" and "\<forall>n \<in> tmps pid. gs' n = fs' n"
  using assms by (cases op) (auto split: option.splits filedata.splits if_splits)

lemma safeRun_agree:
  assumes "safeRun A fs ops" and "list_all (ownOp pid) ops" and "\<forall>n \<in> tmps pid. gs n = fs n"
  shows "safeRun A gs ops"
  using assms
proof (induction ops arbitrary: fs gs)
  case (Cons op ops)
  obtain fs' where fs': "safeOp A fs op" "execOp op fs = Some fs'" "safeRun A fs' ops"
    using Cons.prems(1) by (auto split: option.splits)
  obtain gs' where gs': "execOp op gs = Some gs'" "\<forall>n \<in> tmps pid. gs' n = fs' n"
    using execOp_agree [OF fs'(2) _ Cons.prems(3)] Cons.prems(2) by auto
  have "safeOp A gs op" using fs'(1) Cons.prems(2,3) by (cases op) auto
  moreover have "safeRun A gs' ops" using Cons.IH [OF fs'(3) _ gs'(2)] Cons.prems(2) by simp
  ultimately show ?case using gs'(1) by simp
qed simp

lemma safeOp_inPlace:
  assumes "execOp op fs = Some fs'" and "ownOp pid op" and "safeOp A fs op" and "n \<in> finals"
    and "inPlace A fs n \<or> (\<exists>a. op = Rename a n)"
  shows "inPlace A fs' n"
proof (cases "\<exists>a. op = Rename a n")
  case True
  with assms(1,3) show ?thesis by (auto simp: inPlace_def split: option.splits)
next
  case False
  have "n \<notin> tmps pid" using assms(4) tmps_finals by blast
  from execOp_frame [OF assms(1,2) this] False assms(5) show ?thesis by (auto simp: inPlace_def)
qed

subsection \<open>The operations of a task\<close>

text \<open>The temporary file while pairs or lines are appended to it.\<close>

lemma safeRun_pairs:
  assumes "fs t = Some f" and "f = Text '''' \<or> (\<exists>l. f = Json l)" and "\<And>g. readPairs g = readPairs f @ kvs \<Longrightarrow> goodFile A n g"
    and "\<And>fs'. safeRun A fs' ops"
  shows "safeRun A fs (map (AppendPair t) kvs @ Rename t n # ops)"
  using assms(1-3)
proof (induction kvs arbitrary: fs f)
  case Nil
  then show ?case using assms(4) by simp
next
  case (Cons kv kvs)
  let ?f = "Json (readPairs f @ [kv])"
  have "execOp (AppendPair t kv) fs = Some (fs(t \<mapsto> ?f))" using Cons.prems(1,2) by auto
  moreover have "safeRun A (fs(t \<mapsto> ?f)) (map (AppendPair t) kvs @ Rename t n # ops)"
  proof (rule Cons.IH)
    show "(fs(t \<mapsto> ?f)) t = Some ?f" and "?f = Text '''' \<or> (\<exists>l. ?f = Json l)" by simp_all
    show "goodFile A n g" if "readPairs g = readPairs ?f @ kvs" for g using Cons.prems(3) that by simp
  qed
  ultimately show ?case by (simp del: execOp.simps)
qed

lemma safeRun_lines:
  assumes "fs t = Some (Text u)" and "goodFile A n (Text (u @ concat ls))" and "\<And>fs'. safeRun A fs' ops"
  shows "safeRun A fs (map (AppendText t) ls @ Rename t n # ops)"
  using assms(1,2)
proof (induction ls arbitrary: fs u)
  case Nil
  then show ?case using assms(3) by simp
next
  case (Cons l ls)
  have "safeRun A (fs(t \<mapsto> Text (u @ l))) (map (AppendText t) ls @ Rename t n # ops)"
    by (rule Cons.IH [of _ "u @ l"]) (use Cons.prems(2) in simp_all)
  then show ?case using Cons.prems(1) by simp
qed

lemma mapOps_safe:
  assumes "mset kva = mset (ap_map A (ap_files A ! m) (input A m))" and "m < length (ap_files A)"
  shows "safeRun A fs (mapOps pid m (ap_nReduce A) kva)"
proof -
  let ?n = "ap_nReduce A"
  let ?chunk = "\<lambda>r. Create (mapTmp pid m r) # map (AppendPair (mapTmp pid m r)) (buckets ?n kva ! r) @ [Rename (mapTmp pid m r) (interName m r)]"
  have "safeRun A fs (concat (map ?chunk rs))" if "set rs \<subseteq> {..<?n}" for rs fs
    using that
  proof (induction rs arbitrary: fs)
    case (Cons r rs)
    let ?t = "mapTmp pid m r"
    have good: "goodFile A (interName m r) g" if "readPairs g = buckets ?n kva ! r" for g
    proof -
      have "mset (readPairs g) = mset (inter A m r)"
        using that assms(1) Cons.prems by (simp add: buckets_nth inter_def mset_filter)
      then show ?thesis by (auto simp: goodFile_def interName_inj)
    qed
    have "safeRun A (fs(?t \<mapsto> Text '''')) (map (AppendPair ?t) (buckets ?n kva ! r) @ Rename ?t (interName m r) # concat (map ?chunk rs))"
      by (rule safeRun_pairs [of _ _ "Text ''''"]) (use Cons good in auto)
    then show ?case by simp
  qed simp
  from this [of "[0..<?n]"] show ?thesis by (auto simp: mapOps_def atLeast0LessThan)
qed

lemma mapOps_own: "list_all (ownOp pid) (mapOps pid m n kva)"
  by (auto simp: mapOps_def list_all_iff tmps_def finals_def)

lemma mapOps_promised: "r < n \<Longrightarrow> promised (interName m r) (mapOps pid m n kva)"
proof -
  assume "r < n"
  then have "Rename (mapTmp pid m r) (interName m r) \<in> set (mapOps pid m n kva)" by (auto simp: mapOps_def)
  then show ?thesis unfolding promised_def by blast
qed

lemma reduceOps_safe:
  assumes "app_ok A" and "mset kvs = mset (share A r)"
  shows "safeRun A fs (reduceOps (ap_sort A) (ap_reduce A) pid r kvs)"
proof -
  have "reduceLines (ap_reduce A) (ap_sort A kvs) = outLines A r"
    using reduceLines_srt [of "ap_sort A" "ap_reduce A" kvs] allLines_perm [of "ap_reduce A" kvs "share A r"] assms
    by (simp add: app_ok_def outLines_def)
  moreover have "goodFile A (outName r) (Text ('''' @ concat (outLines A r)))" by (auto simp: goodFile_def outName_inj)
  ultimately show ?thesis
    using safeRun_lines [of "fs(outTmp pid r \<mapsto> Text '''')" "outTmp pid r" "''''" A "outName r" "outLines A r" "[]"]
    by (simp add: reduceOps_def)
qed

lemma reduceOps_own: "list_all (ownOp pid) (reduceOps srt reducef pid r kvs)"
  by (auto simp: reduceOps_def list_all_iff tmps_def finals_def)

lemma reduceOps_promised: "promised (outName r) (reduceOps srt reducef pid r kvs)"
  by (auto simp: reduceOps_def promised_def)

subsection \<open>The invariant\<close>

definition coord_ok :: "app \<Rightarrow> Coordinator \<Rightarrow> bool" where
  "coord_ok A c \<longleftrightarrow> c_files c = ap_files A \<and> c_nMap c = length (ap_files A) \<and> c_nReduce c = ap_nReduce A \<and>
     length (c_mapTasks c) = c_nMap c \<and> length (c_reduceTasks c) = c_nReduce c \<and>
     c_mapDone c = length (filter (\<lambda>t. ti_state t = stateDone) (c_mapTasks c)) \<and>
     c_reduceDone c = length (filter (\<lambda>t. ti_state t = stateDone) (c_reduceTasks c))"

definition done_ok :: "app \<Rightarrow> Coordinator \<Rightarrow> fs \<Rightarrow> bool" where
  "done_ok A c fs \<longleftrightarrow>
     (\<forall>m r. m < length (c_mapTasks c) \<longrightarrow> ti_state (c_mapTasks c ! m) = stateDone \<longrightarrow> r < ap_nReduce A \<longrightarrow> inPlace A fs (interName m r)) \<and>
     (\<forall>r < length (c_reduceTasks c). ti_state (c_reduceTasks c ! r) = stateDone \<longrightarrow> inPlace A fs (outName r))"

definition results :: "app \<Rightarrow> runner \<Rightarrow> string set" where
  "results A x = (if rn_kind x = TaskMap then {interName (rn_id x) r | r. r < ap_nReduce A} else {outName (rn_id x)})"

definition runner_ok :: "app \<Rightarrow> fs \<Rightarrow> nat \<Rightarrow> runner \<Rightarrow> bool" where
  "runner_ok A fs pid x \<longleftrightarrow> safeRun A fs (rn_todo x) \<and> list_all (ownOp pid) (rn_todo x) \<and>
     (rn_kind x = TaskMap \<or> rn_kind x = TaskReduce) \<and>
     (\<forall>n \<in> results A x. inPlace A fs n \<or> promised n (rn_todo x))"

definition job_ok :: "app \<Rightarrow> job \<Rightarrow> bool" where
  "job_ok A s \<longleftrightarrow> coord_ok A (jb_coord s) \<and> done_ok A (jb_coord s) (jb_fs s) \<and>
     (\<forall>f \<in> set (ap_files A). jb_fs s f = ap_fs A f) \<and>
     (\<forall>pid x. jb_running s pid = Some x \<longrightarrow> runner_ok A (jb_fs s) pid x)"

lemma results_finals: "n \<in> results A x \<Longrightarrow> n \<in> finals"
  by (auto simp: results_def finals_def split: if_splits)

lemma filter_done_update:
  assumes "i < length ts"
  shows "length (filter P (ts[i := t])) + (if P (ts ! i) then 1 else 0) = length (filter P ts) + (if P t then 1 else 0)"
proof -
  obtain us x vs where "ts = us @ x # vs" "length us = i" using id_take_nth_drop [OF assms] assms by (metis length_take min_less_iff_conj less_imp_le min_absorb2)
  then show ?thesis by (auto simp: list_update_append)
qed

lemma firstAvailable_Some:
  assumes "firstAvailable now ts = Some i"
  shows "i < length ts" and "available now (ts ! i)" and "ti_state (ts ! i) \<noteq> stateDone"
  using assms by (auto simp: firstAvailable_def find_Some_iff available_def)

lemma all_done:
  assumes "length xs \<le> length (filter P xs)" and "i < length xs"
  shows "P (xs ! i)"
proof -
  have "length (filter P xs) = length xs" using assms(1) length_filter_le [of P xs] by simp
  then have "filter P xs = xs" by (metis filter_id_conv length_filter_less nat_neq_iff)
  then show ?thesis using assms(2) by (metis filter_id_conv nth_mem)
qed

lemma done_ok_start_task:
  assumes "done_ok A c fs" and "i < length (c_mapTasks c)" and "ti_state t \<noteq> stateDone"
  shows "done_ok A (c\<lparr>c_mapTasks := (c_mapTasks c)[i := t]\<rparr>) fs"
  using assms by (auto simp: done_ok_def nth_list_update)

lemma done_ok_start_reduce:
  assumes "done_ok A c fs" and "i < length (c_reduceTasks c)" and "ti_state t \<noteq> stateDone"
  shows "done_ok A (c\<lparr>c_reduceTasks := (c_reduceTasks c)[i := t]\<rparr>) fs"
  using assms by (auto simp: done_ok_def nth_list_update)

lemma request_ok:
  assumes "coord_ok A c" and "RequestTask now c = Some (c', reply)"
  shows "coord_ok A c'" and "done_ok A c fs \<Longrightarrow> done_ok A c' fs"
    and "rt_Type reply = TaskMap \<Longrightarrow> rt_TaskID reply < length (ap_files A) \<and> rt_File reply = ap_files A ! rt_TaskID reply \<and>
      rt_NReduce reply = ap_nReduce A"
    and "rt_Type reply = TaskReduce \<Longrightarrow> rt_TaskID reply < ap_nReduce A \<and> rt_NMap reply = length (ap_files A) \<and>
      (\<forall>m < length (ap_files A). ti_state (c_mapTasks c ! m) = stateDone)"
proof -
  have maps: "ti_state (c_mapTasks c ! m) = stateDone" if "\<not> c_mapDone c < c_nMap c" "m < length (ap_files A)" for m
    using all_done [of "c_mapTasks c" "\<lambda>t. ti_state t = stateDone" m] that assms(1) by (simp add: coord_ok_def)
  have "coord_ok A c' \<and> (done_ok A c fs \<longrightarrow> done_ok A c' fs) \<and>
    (rt_Type reply = TaskMap \<longrightarrow> rt_TaskID reply < length (ap_files A) \<and> rt_File reply = ap_files A ! rt_TaskID reply \<and>
      rt_NReduce reply = ap_nReduce A) \<and>
    (rt_Type reply = TaskReduce \<longrightarrow> rt_TaskID reply < ap_nReduce A \<and> rt_NMap reply = length (ap_files A) \<and>
      (\<forall>m < length (ap_files A). ti_state (c_mapTasks c ! m) = stateDone))"
  proof (cases "firstAvailable now (if c_mapDone c < c_nMap c then c_mapTasks c else c_reduceTasks c)")
    case None
    then show ?thesis using assms by (auto simp: RequestTask_def noTask_def split: if_splits)
  next
    case (Some i)
    note i = firstAvailable_Some [OF Some]
    let ?t = "\<lparr>ti_state = stateInProgress, ti_startTime = now\<rparr>"
    consider (m) "c_mapDone c < c_nMap c" | (r) "\<not> c_mapDone c < c_nMap c" "c_reduceDone c < c_nReduce c"
      | (x) "\<not> c_mapDone c < c_nMap c" "\<not> c_reduceDone c < c_nReduce c" by blast
    then show ?thesis
    proof cases
      case m
      with i Some assms filter_done_update [of i "c_mapTasks c" "\<lambda>t. ti_state t = stateDone" ?t] show ?thesis
        by (auto simp: RequestTask_def coord_ok_def done_ok_start_task)
    next
      case r
      with i Some assms maps filter_done_update [of i "c_reduceTasks c" "\<lambda>t. ti_state t = stateDone" ?t] show ?thesis
        by (auto simp: RequestTask_def coord_ok_def done_ok_start_reduce)
    next
      case x
      with assms show ?thesis by (auto simp: RequestTask_def noTask_def)
    qed
  qed
  then show "coord_ok A c'" and "done_ok A c fs \<Longrightarrow> done_ok A c' fs"
    and "rt_Type reply = TaskMap \<Longrightarrow> rt_TaskID reply < length (ap_files A) \<and> rt_File reply = ap_files A ! rt_TaskID reply \<and>
      rt_NReduce reply = ap_nReduce A"
    and "rt_Type reply = TaskReduce \<Longrightarrow> rt_TaskID reply < ap_nReduce A \<and> rt_NMap reply = length (ap_files A) \<and>
      (\<forall>m < length (ap_files A). ti_state (c_mapTasks c ! m) = stateDone)" by blast+
qed

lemma report_ok:
  assumes "coord_ok A c" and "ReportTask \<lparr>ra_Type = rn_kind x, ra_TaskID = rn_id x\<rparr> c = Some c'"
    and "rn_kind x = TaskMap \<or> rn_kind x = TaskReduce"
  shows "coord_ok A c'" and "done_ok A c fs \<Longrightarrow> \<forall>n \<in> results A x. inPlace A fs n \<Longrightarrow> done_ok A c' fs"
proof -
  have "coord_ok A c' \<and> (done_ok A c fs \<longrightarrow> (\<forall>n \<in> results A x. inPlace A fs n) \<longrightarrow> done_ok A c' fs)"
    using assms(3)
  proof
    assume k: "rn_kind x = TaskMap"
    let ?t = "c_mapTasks c ! rn_id x"
    have i: "rn_id x < length (c_mapTasks c)" using assms(2) k by (simp add: ReportTask_def split: if_splits)
    with assms(1,2) k filter_done_update [OF i, of "\<lambda>t. ti_state t = stateDone" "?t\<lparr>ti_state := stateDone\<rparr>"] show ?thesis
      by (auto simp: ReportTask_def Let_def coord_ok_def done_ok_def results_def nth_list_update split: if_splits)
  next
    assume k: "rn_kind x = TaskReduce"
    let ?t = "c_reduceTasks c ! rn_id x"
    have i: "rn_id x < length (c_reduceTasks c)" using assms(2) k by (simp add: ReportTask_def split: if_splits)
    with assms(1,2) k filter_done_update [OF i, of "\<lambda>t. ti_state t = stateDone" "?t\<lparr>ti_state := stateDone\<rparr>"] show ?thesis
      by (auto simp: ReportTask_def Let_def coord_ok_def done_ok_def results_def nth_list_update split: if_splits)
  qed
  then show "coord_ok A c'" and "done_ok A c fs \<Longrightarrow> \<forall>n \<in> results A x. inPlace A fs n \<Longrightarrow> done_ok A c' fs" by blast+
qed

subsection \<open>Every step keeps the invariant\<close>

lemma gather_share:
  assumes "\<forall>m < length (ap_files A). inPlace A fs (interName m r)" and "r < ap_nReduce A"
  shows "mset (gather (length (ap_files A)) r fs) = mset (share A r)"
proof -
  have "mset (case fs (interName m r) of None \<Rightarrow> [] | Some f \<Rightarrow> readPairs f) = mset (inter A m r)" if "m < length (ap_files A)" for m
    using assms that by (auto simp: inPlace_def goodFile_def)
  then show ?thesis by (simp add: gather_def share_def mset_concat_upt)
qed

lemma job_ok_start:
  assumes "app_ok A"
  shows "job_ok A (startJob A)"
  by (simp add: job_ok_def startJob_def MakeCoordinator_def coord_ok_def done_ok_def)

lemma runner_ok_new_map:
  assumes "app_ok A" and "job_ok A s" and "m < length (ap_files A)"
    and "readText (ap_files A ! m) (jb_fs s) = Some content" and "mset kva = mset (ap_map A (ap_files A ! m) content)"
  shows "runner_ok A (jb_fs s) pid \<lparr>rn_kind = TaskMap, rn_id = m, rn_todo = mapOps pid m (ap_nReduce A) kva\<rparr>"
proof -
  have "jb_fs s (ap_files A ! m) = ap_fs A (ap_files A ! m)" using assms(2,3) by (simp add: job_ok_def)
  then have "input A m = content" using assms(4) by (simp add: input_def readText_def)
  then show ?thesis
    using mapOps_safe [OF _ assms(3)] assms(5) mapOps_own mapOps_promised by (auto simp: runner_ok_def results_def)
qed

lemma runner_ok_new_reduce:
  assumes "app_ok A" and "job_ok A s" and "r < ap_nReduce A"
    and "\<forall>m < length (ap_files A). ti_state (c_mapTasks (jb_coord s) ! m) = stateDone"
  shows "runner_ok A (jb_fs s) pid \<lparr>rn_kind = TaskReduce, rn_id = r,
    rn_todo = reduceOps (ap_sort A) (ap_reduce A) pid r (gather (length (ap_files A)) r (jb_fs s))\<rparr>"
proof -
  have "\<forall>m < length (ap_files A). inPlace A (jb_fs s) (interName m r)"
    using assms(2-4) by (simp add: job_ok_def coord_ok_def done_ok_def)
  from reduceOps_safe [OF assms(1) gather_share [OF this assms(3)]] show ?thesis
    using reduceOps_own reduceOps_promised by (auto simp: runner_ok_def results_def)
qed

lemma job_ok_work:
  assumes "app_ok A" and ok: "job_ok A s" and x: "jb_running s pid = Some x" and todo: "rn_todo x = op # ops"
    and ex: "execOp op (jb_fs s) = Some fs"
  shows "job_ok A (s\<lparr>jb_fs := fs, jb_running := (jb_running s)(pid \<mapsto> x\<lparr>rn_todo := ops\<rparr>)\<rparr>)"
proof -
  have rx: "runner_ok A (jb_fs s) pid x" using ok x by (simp add: job_ok_def)
  then have own: "ownOp pid op" "list_all (ownOp pid) ops" and safe: "safeOp A (jb_fs s) op" "safeRun A fs ops"
    using todo ex by (auto simp: runner_ok_def)
  have keep: "inPlace A fs n" if "n \<in> finals" "inPlace A (jb_fs s) n \<or> (\<exists>a. op = Rename a n)" for n
    by (rule safeOp_inPlace [OF ex own(1) safe(1) that])
  have frame: "fs n = jb_fs s n" if "n \<notin> tmps pid" "n \<notin> finals" for n
    using execOp_frame [OF ex own(1) that(1)] own(1) that(2) by auto
  have "runner_ok A fs pid (x\<lparr>rn_todo := ops\<rparr>)"
    unfolding runner_ok_def
  proof (intro conjI ballI)
    fix n assume n: "n \<in> results A (x\<lparr>rn_todo := ops\<rparr>)"
    then have n': "n \<in> results A x" by (auto simp: results_def split: if_splits)
    then have "inPlace A (jb_fs s) n \<or> (\<exists>a. op = Rename a n) \<or> promised n ops"
      using rx todo by (auto simp: runner_ok_def promised_def)
    then show "inPlace A fs n \<or> promised n (rn_todo (x\<lparr>rn_todo := ops\<rparr>))" using keep results_finals [OF n'] by auto
  qed (use rx own safe in \<open>auto simp: runner_ok_def\<close>)
  moreover have "runner_ok A fs q y" if "jb_running s q = Some y" "q \<noteq> pid" for q y
  proof -
    have ry: "runner_ok A (jb_fs s) q y" using ok that(1) by (simp add: job_ok_def)
    have "\<forall>n \<in> tmps q. fs n = jb_fs s n" using frame tmps_disjoint tmps_finals that(2) by blast
    then have "safeRun A fs (rn_todo y)" using safeRun_agree ry unfolding runner_ok_def by blast
    with ry keep results_finals show ?thesis unfolding runner_ok_def by blast
  qed
  moreover have "done_ok A (jb_coord s) fs"
    using ok keep unfolding job_ok_def done_ok_def by (simp add: finals_def) blast
  moreover have "fs f = ap_fs A f" if "f \<in> set (ap_files A)" for f
    using frame [of f] that assms(1) ok by (simp add: app_ok_def job_ok_def)
  ultimately show ?thesis using ok by (auto simp: job_ok_def)
qed

lemma job_ok_step:
  assumes "jstep A s t" and "app_ok A" and "job_ok A s"
  shows "job_ok A t"
  using assms
proof (induction rule: jstep.induct)
  case (ask now s c reply)
  then show ?case using request_ok(1,2) [of A "jb_coord s" now c reply] by (simp add: job_ok_def)
next
  case (ask_map now s c reply pid content kva)
  have co: "coord_ok A (jb_coord s)" using ask_map.prems(2) by (simp add: job_ok_def)
  note r = request_ok [OF co ask_map.hyps(1)]
  have "runner_ok A (jb_fs s) pid
      \<lparr>rn_kind = TaskMap, rn_id = rt_TaskID reply, rn_todo = mapOps pid (rt_TaskID reply) (rt_NReduce reply) kva\<rparr>"
    using runner_ok_new_map [OF ask_map.prems, of "rt_TaskID reply" content kva pid] r(3) ask_map.hyps by simp
  then show ?case using r(1,2) ask_map.prems(2) by (auto simp: job_ok_def)
next
  case (ask_reduce now s c reply pid)
  have co: "coord_ok A (jb_coord s)" using ask_reduce.prems(2) by (simp add: job_ok_def)
  note r = request_ok [OF co ask_reduce.hyps(1)]
  have "runner_ok A (jb_fs s) pid \<lparr>rn_kind = TaskReduce, rn_id = rt_TaskID reply,
      rn_todo = reduceOps (ap_sort A) (ap_reduce A) pid (rt_TaskID reply) (gather (rt_NMap reply) (rt_TaskID reply) (jb_fs s))\<rparr>"
    using runner_ok_new_reduce [OF ask_reduce.prems, of "rt_TaskID reply" pid] r(4) ask_reduce.hyps by simp
  then show ?case using r(1,2) ask_reduce.prems(2) by (auto simp: job_ok_def)
next
  case (work s pid x op ops fs)
  then show ?case by (intro job_ok_work)
next
  case (report s pid x c)
  have rx: "runner_ok A (jb_fs s) pid x" and co: "coord_ok A (jb_coord s)" using report by (simp_all add: job_ok_def)
  have "\<forall>n \<in> results A x. inPlace A (jb_fs s) n" using rx report.hyps(2) by (simp add: runner_ok_def promised_def)
  with report_ok [OF co report.hyps(3)] rx report.prems(2) show ?case by (auto simp: job_ok_def runner_ok_def)
next
  case (crash s pid)
  then show ?case by (auto simp: job_ok_def)
qed

lemma job_ok_reach: "jreach A s \<Longrightarrow> app_ok A \<Longrightarrow> job_ok A s"
  by (induction rule: reaches_invariant) (auto simp: job_ok_start intro: job_ok_step)

end
