(* ===== verification/MrWorker.thy ===== *)
theory MrWorker
  imports MrJob
begin

section \<open>A worker on its own\<close>

text \<open>
  The loop of \<^verbatim>\<open>Worker\<close> without interruptions is one of the runs of a job, and completes the job in
  as many turns as there are tasks. The two applications of \<^verbatim>\<open>mrapps\<close> that compute something,
  word count and indexer: the splitting of a text into words, \<^verbatim>\<open>strings.FieldsFunc\<close> with
  \<^verbatim>\<open>unicode.IsLetter\<close>, is an argument.
\<close>

subsection \<open>The loop\<close>

fun workerLoop ::
  "(KeyValue list \<Rightarrow> KeyValue list) \<Rightarrow> (string \<Rightarrow> string \<Rightarrow> KeyValue list) \<Rightarrow> (string \<Rightarrow> string list \<Rightarrow> string) \<Rightarrow>
   nat \<Rightarrow> int list \<Rightarrow> Coordinator \<times> fs \<Rightarrow> (Coordinator \<times> fs) option" where
  "workerLoop srt mapf reducef pid [] s = Some s"
| "workerLoop srt mapf reducef pid (now # nows) s = do {
     (s', go) \<leftarrow> Worker srt mapf reducef pid now s;
     if go then workerLoop srt mapf reducef pid nows s' else Some s'
   }"

definition alone :: "Coordinator \<times> fs \<Rightarrow> job" where
  "alone s = \<lparr>jb_coord = fst s, jb_fs = snd s, jb_running = Map.empty\<rparr>"

lemma safeRun_runs:
  assumes "safeRun A fs ops"
  obtains fs' where "runOps ops fs = Some fs'"
  using assms by (induction ops arbitrary: fs thesis) (auto split: option.splits)

lemma work_all:
  assumes "jreach A s" and "jb_running s pid = Some x" and "runOps (rn_todo x) (jb_fs s) = Some fs"
  shows "jreach A (s\<lparr>jb_fs := fs, jb_running := (jb_running s)(pid \<mapsto> x\<lparr>rn_todo := []\<rparr>)\<rparr>)"
  using assms
proof (induction "rn_todo x" arbitrary: s x)
  case Nil
  then have "s\<lparr>jb_fs := fs, jb_running := (jb_running s)(pid \<mapsto> x\<lparr>rn_todo := []\<rparr>)\<rparr> = s"
    by (cases s; cases x) (auto simp: fun_upd_idem)
  with Nil(2) show ?case by (simp only:)
next
  case (Cons op ops)
  obtain fs1 where e: "execOp op (jb_fs s) = Some fs1" "runOps ops fs1 = Some fs"
    using Cons.hyps(2) [symmetric] Cons.prems(3) by (auto split: Option.bind_splits)
  let ?x = "x\<lparr>rn_todo := ops\<rparr>" and ?s = "s\<lparr>jb_fs := fs1, jb_running := (jb_running s)(pid \<mapsto> x\<lparr>rn_todo := ops\<rparr>)\<rparr>"
  have "jreach A ?s"
    by (rule reaches_step [OF Cons.prems(1)]) (rule jstep.work [OF Cons.prems(2) Cons.hyps(2) [symmetric] e(1)])
  from Cons.hyps(1) [of ?x ?s] this e(2) show ?case by simp
qed

text \<open>A task that is carried out and reported without interruption.\<close>

lemma task_all:
  assumes "jreach A (alone s)" and "jstep A (alone s) ((alone s)\<lparr>jb_coord := c, jb_running := [pid \<mapsto> x]\<rparr>)"
    and "runOps (rn_todo x) (snd s) = Some fs" and "ReportTask \<lparr>ra_Type = rn_kind x, ra_TaskID = rn_id x\<rparr> c = Some c'"
  shows "jreach A (alone (c', fs))"
proof -
  let ?s1 = "(alone s)\<lparr>jb_coord := c, jb_running := [pid \<mapsto> x]\<rparr>"
  let ?s2 = "\<lparr>jb_coord = c, jb_fs = fs, jb_running = [pid \<mapsto> x\<lparr>rn_todo := []\<rparr>]\<rparr>"
  have "jreach A ?s1" by (rule reaches_step [OF assms(1,2)])
  from work_all [OF this, of pid x fs] assms(3) have r2: "jreach A ?s2" by (simp add: alone_def)
  have "jstep A ?s2 (?s2\<lparr>jb_coord := c', jb_running := (jb_running ?s2)(pid := None)\<rparr>)"
    by (rule jstep.report [of _ _ "x\<lparr>rn_todo := []\<rparr>"]) (use assms(4) in simp_all)
  from reaches_step [OF r2 this] show ?thesis by (simp add: alone_def)
qed

definition unfinished :: "Coordinator \<Rightarrow> nat" where
  "unfinished c = (c_nMap c - c_mapDone c) + (c_nReduce c - c_reduceDone c)"

definition between :: "app \<Rightarrow> Coordinator \<times> fs \<Rightarrow> bool" where
  "between A s \<longleftrightarrow> jreach A (alone s) \<and> (\<forall>t \<in> set (c_mapTasks (fst s)) \<union> set (c_reduceTasks (fst s)). ti_state t \<noteq> stateInProgress)"

lemma find_undone:
  assumes "length (filter (\<lambda>t. ti_state t = stateDone) ts) < length ts" and "\<forall>t \<in> set ts. ti_state t \<noteq> stateInProgress"
  obtains i where "firstAvailable now ts = Some i"
proof -
  obtain i where "i < length ts" "ti_state (ts ! i) \<noteq> stateDone"
    using assms(1) by (metis (mono_tags, lifting) filter_True in_set_conv_nth less_irrefl)
  then have "available now (ts ! i)" using assms(2) by (cases "ti_state (ts ! i)") (auto simp: available_def)
  with \<open>i < length ts\<close> have "firstAvailable now ts \<noteq> None" by (auto simp: firstAvailable_def find_None_iff)
  with that show thesis by blast
qed

lemma set_update_two: "set (xs[i := y, i := z]) \<subseteq> insert z (set xs)"
  using set_update_subset_insert [of xs i z] by simp

lemma between_job: "between A s \<Longrightarrow> app_ok A \<Longrightarrow> job_ok A (alone s)"
  by (simp add: between_def job_ok_reach)

lemma worker_map_turn:
  assumes ok: "app_ok A" and nR: "0 < ap_nReduce A" and bt: "between A s" and m: "c_mapDone (fst s) < c_nMap (fst s)"
  obtains s' where "Worker (ap_sort A) (ap_map A) (ap_reduce A) pid now s = Some (s', True)" and "between A s'"
    and "unfinished (fst s') < unfinished (fst s)"
proof -
  obtain c fs where s: "s = (c, fs)" by fastforce
  have job: "job_ok A (alone s)" by (rule between_job [OF bt ok])
  then have co: "coord_ok A c" by (simp add: job_ok_def alone_def s)
  obtain i where i: "firstAvailable now (c_mapTasks c) = Some i"
    using find_undone [of "c_mapTasks c" now] m co bt by (auto simp: coord_ok_def between_def s)
  note il = firstAvailable_Some(1) [OF i]
  have if': "i < length (ap_files A)" "c_files c = ap_files A" "c_nReduce c = ap_nReduce A" using il co by (simp_all add: coord_ok_def)
  let ?t = "\<lparr>ti_state = stateInProgress, ti_startTime = now\<rparr>" and ?d = "\<lparr>ti_state = stateDone, ti_startTime = now\<rparr>"
  let ?c1 = "c\<lparr>c_mapTasks := (c_mapTasks c)[i := ?t]\<rparr>"
  let ?c2 = "c\<lparr>c_mapTasks := (c_mapTasks c)[i := ?d], c_mapDone := c_mapDone c + 1\<rparr>"
  let ?reply = "\<lparr>rt_Type = TaskMap, rt_TaskID = i, rt_File = ap_files A ! i, rt_NMap = c_nMap c, rt_NReduce = ap_nReduce A\<rparr>"
  have req: "RequestTask now c = Some (?c1, ?reply)" using m i if' by (simp add: RequestTask_def s)
  have rep: "ReportTask \<lparr>ra_Type = TaskMap, ra_TaskID = i\<rparr> ?c1 = Some ?c2" using il by (simp add: ReportTask_def Let_def)
  obtain cont where cont: "readText (ap_files A ! i) fs = Some cont"
  proof -
    have mem: "ap_files A ! i \<in> set (ap_files A)" using if'(1) by simp
    then obtain t where "ap_fs A (ap_files A ! i) = Some (Text t)" using ok by (auto simp: app_ok_def)
    moreover have "fs (ap_files A ! i) = ap_fs A (ap_files A ! i)" using job mem by (simp add: job_ok_def alone_def s)
    ultimately show thesis using that by (simp add: readText_def)
  qed
  let ?x = "\<lparr>rn_kind = TaskMap, rn_id = i, rn_todo = mapOps pid i (ap_nReduce A) (ap_map A (ap_files A ! i) cont)\<rparr>"
  have "runner_ok A (jb_fs (alone s)) pid ?x"
    by (rule runner_ok_new_map [OF ok job if'(1)]) (use cont in \<open>simp_all add: alone_def s\<close>)
  then have "safeRun A fs (rn_todo ?x)" by (simp add: runner_ok_def alone_def s)
  then obtain fs' where fs': "runOps (rn_todo ?x) fs = Some fs'" by (rule safeRun_runs)
  have "jstep A (alone s) ((alone s)\<lparr>jb_coord := ?c1, jb_running := [pid \<mapsto> ?x]\<rparr>)"
    using jstep.ask_map [of now "alone s" ?c1 ?reply pid cont "ap_map A (ap_files A ! i) cont" A] req cont nR
    by (simp add: alone_def s)
  then have "jreach A (alone (?c2, fs'))"
    using task_all [of A s pid ?x ?c1 fs' ?c2] bt fs' rep by (simp add: between_def s)
  moreover have "\<forall>t \<in> set ((c_mapTasks c)[i := ?d]). ti_state t \<noteq> stateInProgress"
    using bt set_update_subset_insert [of "c_mapTasks c" i ?d] by (auto simp: between_def s)
  ultimately have "between A (?c2, fs')" using bt by (auto simp: between_def s)
  moreover have "Worker (ap_sort A) (ap_map A) (ap_reduce A) pid now s = Some ((?c2, fs'), True)"
    using req cont fs' rep nR by (simp add: Worker_def doMap_def s)
  moreover have "unfinished ?c2 < unfinished c" using m by (simp add: unfinished_def s)
  ultimately show thesis using that [of "(?c2, fs')"] by (simp add: s)
qed

lemma worker_reduce_turn:
  assumes ok: "app_ok A" and bt: "between A s" and m: "\<not> c_mapDone (fst s) < c_nMap (fst s)" and r: "c_reduceDone (fst s) < c_nReduce (fst s)"
  obtains s' where "Worker (ap_sort A) (ap_map A) (ap_reduce A) pid now s = Some (s', True)" and "between A s'"
    and "unfinished (fst s') < unfinished (fst s)"
proof -
  obtain c fs where s: "s = (c, fs)" by fastforce
  have job: "job_ok A (alone s)" by (rule between_job [OF bt ok])
  then have co: "coord_ok A c" by (simp add: job_ok_def alone_def s)
  obtain i where i: "firstAvailable now (c_reduceTasks c) = Some i"
    using find_undone [of "c_reduceTasks c" now] r co bt by (auto simp: coord_ok_def between_def s)
  note il = firstAvailable_Some(1) [OF i]
  let ?t = "\<lparr>ti_state = stateInProgress, ti_startTime = now\<rparr>" and ?d = "\<lparr>ti_state = stateDone, ti_startTime = now\<rparr>"
  let ?c1 = "c\<lparr>c_reduceTasks := (c_reduceTasks c)[i := ?t]\<rparr>"
  let ?c2 = "c\<lparr>c_reduceTasks := (c_reduceTasks c)[i := ?d], c_reduceDone := c_reduceDone c + 1\<rparr>"
  let ?reply = "\<lparr>rt_Type = TaskReduce, rt_TaskID = i, rt_File = '''', rt_NMap = c_nMap c, rt_NReduce = c_nReduce c\<rparr>"
  have req: "RequestTask now c = Some (?c1, ?reply)" using m r i by (simp add: RequestTask_def s)
  have rep: "ReportTask \<lparr>ra_Type = TaskReduce, ra_TaskID = i\<rparr> ?c1 = Some ?c2" using il by (simp add: ReportTask_def Let_def)
  have rq: "i < ap_nReduce A" "c_nMap c = length (ap_files A)" "\<forall>m < length (ap_files A). ti_state (c_mapTasks c ! m) = stateDone"
    using request_ok(4) [OF co req] by simp_all
  let ?x = "\<lparr>rn_kind = TaskReduce, rn_id = i, rn_todo = reduceOps (ap_sort A) (ap_reduce A) pid i (gather (c_nMap c) i fs)\<rparr>"
  have "runner_ok A fs pid ?x"
    using runner_ok_new_reduce [OF ok job rq(1), of pid] rq(2,3) by (simp add: alone_def s)
  then have "safeRun A fs (rn_todo ?x)" by (simp add: runner_ok_def)
  then obtain fs' where fs': "runOps (rn_todo ?x) fs = Some fs'" by (rule safeRun_runs)
  have "jstep A (alone s) ((alone s)\<lparr>jb_coord := ?c1, jb_running := [pid \<mapsto> ?x]\<rparr>)"
    using jstep.ask_reduce [of now "alone s" ?c1 ?reply pid A] req by (simp add: alone_def s)
  then have "jreach A (alone (?c2, fs'))"
    using task_all [of A s pid ?x ?c1 fs' ?c2] bt fs' rep by (simp add: between_def s)
  moreover have "\<forall>t \<in> set ((c_reduceTasks c)[i := ?d]). ti_state t \<noteq> stateInProgress"
    using bt set_update_subset_insert [of "c_reduceTasks c" i ?d] by (auto simp: between_def s)
  ultimately have "between A (?c2, fs')" using bt by (auto simp: between_def s)
  moreover have "Worker (ap_sort A) (ap_map A) (ap_reduce A) pid now s = Some ((?c2, fs'), True)"
    using req fs' rep by (simp add: Worker_def doReduce_def s)
  moreover have "unfinished ?c2 < unfinished c" using r by (simp add: unfinished_def s)
  ultimately show thesis using that [of "(?c2, fs')"] by (simp add: s)
qed

lemma between_start: "between A (MakeCoordinator (ap_files A) (ap_nReduce A), ap_fs A)"
proof -
  have "alone (MakeCoordinator (ap_files A) (ap_nReduce A), ap_fs A) = startJob A" by (simp add: alone_def startJob_def)
  then show ?thesis by (auto simp: between_def MakeCoordinator_def intro: reaches_init)
qed

lemma between_done:
  assumes "app_ok A" and "between A s" and "\<not> c_reduceDone (fst s) < c_nReduce (fst s)"
  shows "Done (fst s)"
proof -
  have "coord_ok A (fst s)" using between_job [OF assms(2,1)] by (simp add: job_ok_def alone_def)
  then have "c_reduceDone (fst s) \<le> c_nReduce (fst s)"
    using length_filter_le [of "\<lambda>t. ti_state t = stateDone" "c_reduceTasks (fst s)"] by (simp add: coord_ok_def)
  with assms(3) show ?thesis by (simp add: Done_def)
qed

lemma workerLoop_finishes:
  assumes "app_ok A" and "0 < ap_nReduce A" and "between A s" and "unfinished (fst s) \<le> length nows"
  shows "\<exists>s'. workerLoop (ap_sort A) (ap_map A) (ap_reduce A) pid nows s = Some s' \<and> Done (fst s') \<and> jreach A (alone s')"
  using assms(3,4)
proof (induction nows arbitrary: s)
  case Nil
  then show ?case using between_done [OF assms(1)] by (auto simp: unfinished_def between_def)
next
  case (Cons now nows)
  consider (m) "c_mapDone (fst s) < c_nMap (fst s)"
    | (r) "\<not> c_mapDone (fst s) < c_nMap (fst s)" "c_reduceDone (fst s) < c_nReduce (fst s)"
    | (x) "\<not> c_mapDone (fst s) < c_nMap (fst s)" "\<not> c_reduceDone (fst s) < c_nReduce (fst s)" by blast
  then show ?case
  proof cases
    case m
    obtain s' where "Worker (ap_sort A) (ap_map A) (ap_reduce A) pid now s = Some (s', True)" "between A s'"
      "unfinished (fst s') < unfinished (fst s)" by (rule worker_map_turn [OF assms(1,2) Cons.prems(1) m])
    with Cons show ?thesis by simp
  next
    case r
    obtain s' where "Worker (ap_sort A) (ap_map A) (ap_reduce A) pid now s = Some (s', True)" "between A s'"
      "unfinished (fst s') < unfinished (fst s)" by (rule worker_reduce_turn [OF assms(1) Cons.prems(1) r])
    with Cons show ?thesis by simp
  next
    case x
    then have "Worker (ap_sort A) (ap_map A) (ap_reduce A) pid now s = Some (s, False)"
      by (simp add: Worker_def RequestTask_def noTask_def)
    then show ?thesis using between_done [OF assms(1) Cons.prems(1) x(2)] Cons.prems(1) by (simp add: between_def)
  qed
qed

end
