(* ===== verification/MrProps.thy ===== *)
theory MrProps
  imports MrWorker
begin

section \<open>What MapReduce promises\<close>

subsection \<open>Applications\<close>

text \<open>
  \<^verbatim>\<open>mrapps/wc.go\<close> and \<^verbatim>\<open>mrapps/indexer.go\<close>; \<open>splitWords\<close> splits a text into its words. The order in which
  the indexer's map iterates over the words of a document is left open by Go; the first
  occurrences stand for it.
\<close>

definition wcMap :: "(string \<Rightarrow> string list) \<Rightarrow> string \<Rightarrow> string \<Rightarrow> KeyValue list" where
  "wcMap splitWords filename contents = map (\<lambda>w. \<lparr>kv_Key = w, kv_Value = ''1''\<rparr>) (splitWords contents)"

definition wcReduce :: "string \<Rightarrow> string list \<Rightarrow> string" where
  "wcReduce key values = itoa (length values)"

definition indexMap :: "(string \<Rightarrow> string list) \<Rightarrow> string \<Rightarrow> string \<Rightarrow> KeyValue list" where
  "indexMap splitWords document value = map (\<lambda>w. \<lparr>kv_Key = w, kv_Value = document\<rparr>) (remdups (splitWords value))"

fun join :: "string \<Rightarrow> string list \<Rightarrow> string" where
  "join sep [] = ''''"
| "join sep [s] = s"
| "join sep (s # t # ss) = s @ sep @ join sep (t # ss)"

definition indexReduce :: "string \<Rightarrow> string list \<Rightarrow> string" where
  "indexReduce key values = itoa (length values) @ '' '' @ join '','' (sort values)"

lemma wc_blind: "order_blind wcReduce"
  by (auto simp: order_blind_def wcReduce_def dest: mset_eq_length)

lemma index_blind: "order_blind indexReduce"
  unfolding order_blind_def indexReduce_def
proof (intro allI impI)
  fix vs ws :: "string list" assume m: "mset vs = mset ws"
  then have "sort vs = sort ws" by (metis sorted_list_of_multiset_mset)
  then show "itoa (length vs) @ '' '' @ join '','' (sort vs) = itoa (length ws) @ '' '' @ join '','' (sort ws)"
    using mset_eq_length [OF m] by simp
qed

lemma sort_key_ok: "sort_ok (sort_key kv_Key)"
  by (simp add: sort_ok_def)

subsection \<open>Distributed and sequential runs agree\<close>

lemma mapAll_input:
  assumes "app_ok A" and "set files \<subseteq> set (ap_files A)"
  shows "mapAll (ap_map A) files (ap_fs A) =
    Some (concat (map (\<lambda>f. ap_map A f (case readText f (ap_fs A) of Some t \<Rightarrow> t | None \<Rightarrow> '''')) files))"
  using assms(2)
proof (induction files)
  case (Cons f files)
  then obtain t where "ap_fs A f = Some (Text t)" using assms(1) by (auto simp: app_ok_def)
  with Cons show ?case by (simp add: readText_def)
qed simp

definition allPairs :: "app \<Rightarrow> KeyValue list" where
  "allPairs A = concat (map (\<lambda>m. ap_map A (ap_files A ! m) (input A m)) [0..<length (ap_files A)])"

lemma mapAll_pairs: "app_ok A \<Longrightarrow> mapAll (ap_map A) (ap_files A) (ap_fs A) = Some (allPairs A)"
proof -
  have "map (\<lambda>f. ap_map A f (case readText f (ap_fs A) of Some t \<Rightarrow> t | None \<Rightarrow> '''')) (ap_files A) =
      map (\<lambda>m. ap_map A (ap_files A ! m) (input A m)) [0..<length (ap_files A)]"
    by (rule nth_equalityI) (simp_all add: input_def)
  then show "app_ok A \<Longrightarrow> ?thesis" by (simp add: mapAll_input allPairs_def)
qed

lemma share_pairs: "share A r = filter (inBucket (ap_nReduce A) r) (allPairs A)"
  by (simp add: share_def allPairs_def inter_def filter_concat comp_def)

lemma runOps_text:
  "fs n = Some (Text u) \<Longrightarrow> runOps (map (AppendText n) ls) fs = Some (fs(n \<mapsto> Text (u @ concat ls)))"
  by (induction ls arbitrary: fs u) (auto simp: fun_upd_idem)

lemma mrsequential_out:
  assumes "app_ok A"
  shows "mrsequential (ap_sort A) (ap_map A) (ap_reduce A) (ap_files A) (ap_fs A) =
    Some ((ap_fs A)(outName 0 \<mapsto> Text (concat (allLines (ap_reduce A) (allPairs A)))))"
proof -
  have "reduceLines (ap_reduce A) (ap_sort A (allPairs A)) = allLines (ap_reduce A) (allPairs A)"
    using reduceLines_srt assms by (simp add: app_ok_def)
  then show ?thesis
    using runOps_text [of "(ap_fs A)(outName 0 \<mapsto> Text '''')" "outName 0" "''''"]
    by (simp add: mrsequential_def mapAll_pairs [OF assms])
qed

lemma done_files:
  assumes "app_ok A" and "jreach A s" and "Done (jb_coord s)" and "r < ap_nReduce A"
  shows "jb_fs s (outName r) = Some (Text (concat (outLines A r)))"
proof -
  have ok: "job_ok A s" by (rule job_ok_reach [OF assms(2,1)])
  have "ti_state (c_reduceTasks (jb_coord s) ! r) = stateDone"
    using all_done [of "c_reduceTasks (jb_coord s)" "\<lambda>t. ti_state t = stateDone" r] ok assms(3,4)
    by (simp add: job_ok_def coord_ok_def Done_def)
  then have "inPlace A (jb_fs s) (outName r)" using ok assms(4) by (simp add: job_ok_def done_ok_def coord_ok_def)
  then show ?thesis using assms(4) by (auto simp: inPlace_def goodFile_def)
qed


text \<open>Splitting at blanks, for the example.\<close>

fun blanks :: "string \<Rightarrow> string list" where
  "blanks [] = []"
| "blanks (c # cs) =
     (if c = CHR '' '' then blanks cs
      else case blanks cs of
             [] \<Rightarrow> [[c]]
           | w # ws \<Rightarrow> if cs \<noteq> [] \<and> hd cs \<noteq> CHR '' '' then (c # w) # ws else [c] # w # ws)"

definition demoApp :: app where
  "demoApp = \<lparr>ap_map = wcMap blanks, ap_reduce = wcReduce, ap_sort = sort_key kv_Key, ap_files = [''f'', ''g''], ap_nReduce = 2,
     ap_fs = [''f'' \<mapsto> Text ''a b a'', ''g'' \<mapsto> Text ''b c'']\<rparr>"

lemma demoApp_ok: "app_ok demoApp"
  by (auto simp: app_ok_def demoApp_def wc_blind sort_key_ok finals_def tmps_def interName_def outName_def mapTmp_def outTmp_def)

definition demoEnd :: "Coordinator \<times> fs" where
  "demoEnd = the (workerLoop (ap_sort demoApp) (ap_map demoApp) (ap_reduce demoApp) 4 [1, 2, 3, 4]
     (MakeCoordinator (ap_files demoApp) (ap_nReduce demoApp), ap_fs demoApp))"

lemma demoEnd_reach: "jreach demoApp (alone demoEnd)" and demoEnd_done: "Done (fst demoEnd)"
proof -
  let ?s = "(MakeCoordinator (ap_files demoApp) (ap_nReduce demoApp), ap_fs demoApp)"
  have "unfinished (fst ?s) \<le> length [1, 2, 3, 4 :: int]" "0 < ap_nReduce demoApp"
    by (simp_all add: unfinished_def MakeCoordinator_def demoApp_def)
  from workerLoop_finishes [OF demoApp_ok this(2) between_start this(1), of 4]
  show "jreach demoApp (alone demoEnd)" and "Done (fst demoEnd)" by (auto simp: demoEnd_def)
qed


text \<open>
  (C31) A worker that is left alone finishes the job: it needs as many turns of its loop as there
  are map and reduce tasks, never fails on a file of its own, and the job is done.
\<close>

theorem mr_worker_finishes:
  assumes "app_ok A" and "0 < ap_nReduce A" and "length (ap_files A) + ap_nReduce A \<le> length nows"
  shows "\<exists>c fs. workerLoop (ap_sort A) (ap_map A) (ap_reduce A) pid nows
      (MakeCoordinator (ap_files A) (ap_nReduce A), ap_fs A) = Some (c, fs) \<and> Done c"
proof -
  have "unfinished (fst (MakeCoordinator (ap_files A) (ap_nReduce A), ap_fs A)) \<le> length nows"
    using assms(3) by (simp add: unfinished_def MakeCoordinator_def)
  from workerLoop_finishes [OF assms(1,2) between_start this, of pid] show ?thesis by (metis prod.collapse)
qed

theorem mr_worker_finishes_witness:
  "\<exists>c fs. workerLoop (sort_key kv_Key) (wcMap blanks) wcReduce 4 [1, 2, 3, 4]
      (MakeCoordinator [''f'', ''g''] 2, [''f'' \<mapsto> Text ''a b a'', ''g'' \<mapsto> Text ''b c'']) = Some (c, fs) \<and> Done c"
  using mr_worker_finishes [OF demoApp_ok, of "[1, 2, 3, 4]" 4] by (simp add: demoApp_def)

text \<open>
  (C32) Word count counts words. When the job is done, the output files together have one line
  for each word that occurs in the input files, with the number of its occurrences.
\<close>

theorem wc_counts:
  assumes "app_ok A" and "0 < ap_nReduce A" and "jreach A s" and "Done (jb_coord s)"
    and "ap_map A = wcMap splitWords" and "ap_reduce A = wcReduce"
    and "words = concat (map (\<lambda>m. splitWords (input A m)) [0..<length (ap_files A)])"
  shows "\<exists>out. (\<forall>r < ap_nReduce A. jb_fs s (outName r) = Some (Text (concat (out r)))) \<and>
    mset (concat (map out [0..<ap_nReduce A])) =
      image_mset (\<lambda>w. w @ '' '' @ itoa (count_list words w) @ [CHR 0x0A]) (mset_set (set words))"
proof (intro exI conjI allI impI)
  show "r < ap_nReduce A \<Longrightarrow> jb_fs s (outName r) = Some (Text (concat (outLines A r)))" for r
    by (rule done_files [OF assms(1,3,4)])
  have pairs: "allPairs A = map (\<lambda>w. \<lparr>kv_Key = w, kv_Value = ''1''\<rparr>) words"
    by (simp add: allPairs_def assms(5,7) wcMap_def map_concat comp_def)
  have count: "length (valuesOf w (allPairs A)) = count_list words w" for w
    unfolding pairs valuesOf_def by (simp add: filter_map comp_def count_list_eq_length_filter) (metis (mono_tags, lifting))
  have "mset (concat (map (outLines A) [0..<ap_nReduce A])) = mset (allLines (ap_reduce A) (allPairs A))"
    using allLines_buckets [OF assms(2)] by (simp add: outLines_def [abs_def] share_pairs)
  also have "\<dots> = image_mset (\<lambda>w. w @ '' '' @ itoa (count_list words w) @ [CHR 0x0A]) (mset_set (set words))"
    unfolding mset_allLines by (simp add: reduceLine_def assms(6) wcReduce_def count) (simp add: pairs image_image)
  finally show "mset (concat (map (outLines A) [0..<ap_nReduce A])) =
      image_mset (\<lambda>w. w @ '' '' @ itoa (count_list words w) @ [CHR 0x0A]) (mset_set (set words))" .
qed

theorem wc_counts_witness:
  "\<exists>out :: nat \<Rightarrow> string list. snd demoEnd (outName 0) = Some (Text (concat (out 0))) \<and> snd demoEnd (outName 1) = Some (Text (concat (out 1))) \<and>
    mset (out 0 @ out 1) = {# ''a 2'' @ [CHR 0x0A], ''b 2'' @ [CHR 0x0A], ''c 1'' @ [CHR 0x0A] #}"
proof -
  let ?words = "[''a'', ''b'', ''a'', ''b'', ''c'']"
  have d: "Done (jb_coord (alone demoEnd))" "0 < ap_nReduce demoApp" using demoEnd_done by (simp_all add: alone_def demoApp_def)
  have w: "?words = concat (map (\<lambda>m. blanks (input demoApp m)) [0..<length (ap_files demoApp)])" by code_simp
  have n: "ap_nReduce demoApp = Suc (Suc 0)" by (simp add: demoApp_def)
  obtain out where o: "\<forall>r < ap_nReduce demoApp. jb_fs (alone demoEnd) (outName r) = Some (Text (concat (out r)))"
    "mset (concat (map out [0..<ap_nReduce demoApp])) =
      image_mset (\<lambda>w. w @ '' '' @ itoa (count_list ?words w) @ [CHR 0x0A]) (mset_set (set ?words))"
    using wc_counts [OF demoApp_ok d(2) demoEnd_reach d(1) _ _ w] by (auto simp: demoApp_def)
  have i: "itoa 2 = ''2''" "itoa 1 = ''1''" by code_simp+
  have "set ?words = set [''a'', ''b'', ''c'']" by auto
  then have "mset_set (set ?words) = mset [''a'', ''b'', ''c'']" using mset_set_set [of "[''a'', ''b'', ''c'']"] by simp
  moreover have "count_list ?words ''a'' = 2" "count_list ?words ''b'' = 2" "count_list ?words ''c'' = 1" by simp_all
  ultimately have r: "image_mset (\<lambda>w. w @ '' '' @ itoa (count_list ?words w) @ [CHR 0x0A]) (mset_set (set ?words)) =
      {# ''a 2'' @ [CHR 0x0A], ''b 2'' @ [CHR 0x0A], ''c 1'' @ [CHR 0x0A] #}" by (simp only: mset.simps image_mset_add_mset image_mset_empty i) simp
  have "mset (out 0 @ out 1) = {# ''a 2'' @ [CHR 0x0A], ''b 2'' @ [CHR 0x0A], ''c 1'' @ [CHR 0x0A] #}"
    using o(2) unfolding r n by (simp add: upt_rec)
  then show ?thesis using o(1) unfolding n by (intro exI [of _ out]) (simp_all add: alone_def)
qed

end
