(* ===== verification/Bitset.thy ===== *)
theory Bitset
  imports Prelude "HOL-Library.Word"
begin

section \<open>Bit sets\<close>

text \<open>
  \<^verbatim>\<open>porcupine/bitset.go\<close>: sets of small numbers as words of 64 bits. The operations refine those
  of sets of natural numbers through \<open>elems\<close>. A result \<open>None\<close> is the panic of an index out of
  range. \<^verbatim>\<open>set\<close> and \<^verbatim>\<open>clear\<close> change the slice in place and return it; the model returns the new
  slice.
\<close>

unbundle bit_operations_syntax

type_synonym bitset = "64 word list"

definition newBitset :: "nat \<Rightarrow> bitset" where
  "newBitset bits = (let extra = (if bits mod 64 \<noteq> 0 then 1 else 0); chunks = bits div 64 + extra in replicate chunks 0)"

definition bitset_clone :: "bitset \<Rightarrow> bitset" where
  "bitset_clone b = map (\<lambda>v. v) b"

definition bitsetIndex :: "nat \<Rightarrow> nat \<times> nat" where
  "bitsetIndex pos = (pos div 64, pos mod 64)"

definition bitset_set :: "nat \<Rightarrow> bitset \<Rightarrow> bitset option" where
  "bitset_set pos b =
     (let (major, minor) = bitsetIndex pos
      in if major < length b then Some (b[major := b ! major OR push_bit minor 1]) else None)"

definition bitset_clear :: "nat \<Rightarrow> bitset \<Rightarrow> bitset option" where
  "bitset_clear pos b =
     (let (major, minor) = bitsetIndex pos
      in if major < length b then Some (b[major := b ! major AND NOT (push_bit minor 1)]) else None)"

definition bitset_get :: "nat \<Rightarrow> bitset \<Rightarrow> bool option" where
  "bitset_get pos b =
     (let (major, minor) = bitsetIndex pos
      in if major < length b then Some (b ! major AND push_bit minor 1 \<noteq> 0) else None)"

text \<open>\<^verbatim>\<open>bits.OnesCount64\<close>: the number of bits that are set.\<close>

definition onesCount64 :: "64 word \<Rightarrow> nat" where
  "onesCount64 v = length (filter (bit v) [0..<64])"

definition bitset_popcnt :: "bitset \<Rightarrow> nat" where
  "bitset_popcnt b = fold (\<lambda>v total. total + onesCount64 v) b 0"

definition bitset_hash :: "bitset \<Rightarrow> 64 word" where
  "bitset_hash b = fold (\<lambda>v h. h XOR v) b (of_nat (bitset_popcnt b))"

definition bitset_equals :: "bitset \<Rightarrow> bitset \<Rightarrow> bool" where
  "bitset_equals b b2 =
     (if length b \<noteq> length b2 then False else list_all (\<lambda>i. b ! i = b2 ! i) [0..<length b])"

subsection \<open>As sets\<close>

definition elems :: "bitset \<Rightarrow> nat set" where
  "elems b = {i. i < 64 * length b \<and> bit (b ! (i div 64)) (i mod 64)}"

lemma div64_less: "i < 64 * n \<longleftrightarrow> i div 64 < (n :: nat)"
  by (simp add: less_mult_imp_div_less div_less_iff_less_mult mult.commute)

lemma elems_new: "elems (newBitset n) = {}"
  by (auto simp: elems_def newBitset_def Let_def div64_less)

lemma newBitset_room: "pos < n \<Longrightarrow> pos < 64 * length (newBitset n)"
  by (auto simp: newBitset_def Let_def)

lemma clone_id [simp]: "bitset_clone b = b"
  by (simp add: bitset_clone_def)

lemma bit_one_shift: "bit (2 ^ m :: 64 word) j \<longleftrightarrow> j = m \<and> j < 64"
  by (auto simp: bit_simps)

lemma set_refines:
  assumes "pos < 64 * length b"
  obtains b' where "bitset_set pos b = Some b'" and "elems b' = insert pos (elems b)" and "length b' = length b"
proof -
  have d: "pos div 64 < length b" using assms by (simp add: div64_less)
  let ?b = "b[pos div 64 := b ! (pos div 64) OR push_bit (pos mod 64) 1]"
  have "bitset_set pos b = Some ?b" using d by (simp add: bitset_set_def bitsetIndex_def)
  moreover have "i \<in> elems ?b \<longleftrightarrow> i = pos \<or> i \<in> elems b" for i
  proof (cases "i div 64 = pos div 64")
    case True
    have "i = pos \<longleftrightarrow> i mod 64 = pos mod 64" using True by (metis div_mult_mod_eq)
    with True d show ?thesis by (auto simp: elems_def div64_less bit_or_iff bit_one_shift)
  next
    case False
    with d show ?thesis by (auto simp: elems_def div64_less)
  qed
  ultimately show thesis by (intro that [of ?b]) auto
qed

lemma clear_refines:
  assumes "pos < 64 * length b"
  obtains b' where "bitset_clear pos b = Some b'" and "elems b' = elems b - {pos}" and "length b' = length b"
proof -
  have d: "pos div 64 < length b" using assms by (simp add: div64_less)
  let ?b = "b[pos div 64 := b ! (pos div 64) AND NOT (push_bit (pos mod 64) 1)]"
  have "bitset_clear pos b = Some ?b" using d by (simp add: bitset_clear_def bitsetIndex_def)
  moreover have "i \<in> elems ?b \<longleftrightarrow> i \<noteq> pos \<and> i \<in> elems b" for i
  proof (cases "i div 64 = pos div 64")
    case True
    have "i = pos \<longleftrightarrow> i mod 64 = pos mod 64" using True by (metis div_mult_mod_eq)
    with True d show ?thesis by (auto simp: elems_def div64_less bit_and_iff bit_not_iff bit_one_shift)
  next
    case False
    with d show ?thesis by (auto simp: elems_def div64_less)
  qed
  ultimately show thesis by (intro that [of ?b]) auto
qed

lemma and_exp:
  fixes w :: "64 word"
  assumes "m < 64"
  shows "w AND 2 ^ m = 0 \<longleftrightarrow> \<not> bit w m"
proof
  assume "w AND 2 ^ m = 0"
  then have "\<not> bit (w AND 2 ^ m) m" by simp
  with assms show "\<not> bit w m" by (simp add: bit_and_iff bit_one_shift)
next
  assume "\<not> bit w m"
  then show "w AND 2 ^ m = 0" by (intro bit_word_eqI) (auto simp: bit_and_iff bit_one_shift)
qed

lemma get_refines:
  assumes "pos < 64 * length b"
  shows "bitset_get pos b = Some (pos \<in> elems b)"
proof -
  have d: "pos div 64 < length b" using assms by (simp add: div64_less)
  have "b ! (pos div 64) AND push_bit (pos mod 64) 1 \<noteq> 0 \<longleftrightarrow> bit (b ! (pos div 64)) (pos mod 64)"
    using and_exp [of "pos mod 64" "b ! (pos div 64)"] by simp
  with d assms show ?thesis by (simp add: bitset_get_def bitsetIndex_def elems_def)
qed

lemma equals_refines:
  assumes "length b = length b2"
  shows "bitset_equals b b2 \<longleftrightarrow> elems b = elems b2"
proof
  assume "bitset_equals b b2"
  then have "b = b2" using assms by (auto simp: bitset_equals_def list_all_iff intro: nth_equalityI)
  then show "elems b = elems b2" by simp
next
  assume e: "elems b = elems b2"
  have "b ! i = b2 ! i" if i: "i < length b" for i
  proof (rule bit_word_eqI)
    fix j assume "j < LENGTH(64)"
    then have j: "(64 * i + j) div 64 = i" "(64 * i + j) mod 64 = j" by simp_all
    have "64 * i + j \<in> elems b \<longleftrightarrow> 64 * i + j \<in> elems b2" using e by simp
    with i j assms show "bit (b ! i) j \<longleftrightarrow> bit (b2 ! i) j" by (simp add: elems_def div64_less)
  qed
  with assms show "bitset_equals b b2" by (simp add: bitset_equals_def list_all_iff)
qed

lemma equals_eq: "bitset_equals b b2 \<longleftrightarrow> b = b2"
  by (auto simp: bitset_equals_def list_all_iff intro: nth_equalityI)

end
