(* ===== verification/Porcupine.thy ===== *)
theory Porcupine
  imports Bitset
begin

section \<open>The linearizability checker\<close>

text \<open>
  \<^verbatim>\<open>porcupine/model.go\<close>, \<^verbatim>\<open>porcupine/checker.go\<close> and \<^verbatim>\<open>porcupine/porcupine.go\<close>: the checker
  that the tests run on the histories of the services.

  A value of type \<^verbatim>\<open>interface{}\<close> is a value of a type variable: \<open>'v\<close> for inputs and outputs,
  \<open>'s\<close> for states. The nodes of the doubly linked list live in an explicit store, because the
  search removes them from the list and puts them back in place: a pointer is an index into the
  store, \<^verbatim>\<open>nil\<close> is \<open>None\<close>, and following \<^verbatim>\<open>nil\<close> is a panic. The slices of \<^verbatim>\<open>longest\<close> are shared by
  pointer too and have a store of their own. \<open>None\<close> as a result is a panic, or a loop that does not
  end; \<open>searchLoop\<close> is the loop of \<^verbatim>\<open>checkSingle\<close> as a least fixed point, so that termination is a
  theorem and not a matter of fuel.
\<close>

subsection \<open>Histories and models (model.go)\<close>

record 'v Operation =
  po_ClientId :: int
  po_Input :: 'v
  po_Call :: int
  po_Output :: 'v
  po_Return :: int

datatype EventKind = CallEvent | ReturnEvent

record 'v Event =
  ev_ClientId :: int
  ev_Kind :: EventKind
  ev_Value :: 'v
  ev_Id :: int

text \<open>
  A model of a sequential system. A function field that the caller leaves \<^verbatim>\<open>nil\<close> is \<open>None\<close>. \<open>Step\<close>,
  the partition functions and the description of operations may panic on a value of the wrong dynamic type. The last two fields
  are not fields of the Go struct: they are what the verb \<^verbatim>\<open>%v\<close> of \<^verbatim>\<open>fmt\<close> prints for the dynamic types
  of values and states.
\<close>

record ('v, 's) Model =
  md_Partition :: "('v Operation list \<Rightarrow> 'v Operation list list option) option"
  md_PartitionEvent :: "('v Event list \<Rightarrow> 'v Event list list option) option"
  md_Init :: 's
  md_Step :: "'s \<Rightarrow> 'v \<Rightarrow> 'v \<Rightarrow> (bool \<times> 's) option"
  md_Equal :: "('s \<Rightarrow> 's \<Rightarrow> bool) option"
  md_DescribeOperation :: "('v \<Rightarrow> 'v \<Rightarrow> string option) option"
  md_DescribeState :: "('s \<Rightarrow> string) option"
  md_fmtValue :: "'v \<Rightarrow> string"
  md_fmtState :: "'s \<Rightarrow> string"

definition NoPartition :: "'v Operation list \<Rightarrow> 'v Operation list list option" where
  "NoPartition history = Some [history]"

definition NoPartitionEvent :: "'v Event list \<Rightarrow> 'v Event list list option" where
  "NoPartitionEvent history = Some [history]"

definition ShallowEqual :: "'s \<Rightarrow> 's \<Rightarrow> bool" where
  "ShallowEqual state1 state2 = (state1 = state2)"

definition DefaultDescribeOperation :: "('v, 's) Model \<Rightarrow> 'v \<Rightarrow> 'v \<Rightarrow> string option" where
  "DefaultDescribeOperation m input output = Some (md_fmtValue m input @ '' -> '' @ md_fmtValue m output)"

definition DefaultDescribeState :: "('v, 's) Model \<Rightarrow> 's \<Rightarrow> string" where
  "DefaultDescribeState m st = md_fmtState m st"

datatype CheckResult = Unknown | Ok | Illegal

subsection \<open>Entries (checker.go)\<close>

datatype entryKind = callEntry | returnEntry

record 'v entry =
  pe_kind :: entryKind
  pe_value :: 'v
  pe_id :: int
  pe_time :: int
  pe_clientId :: int

record 'v linearizationInfo =
  li_history :: "'v entry list list"
  li_partialLinearizations :: "int list list list"

definition byTimeLess :: "'v entry \<Rightarrow> 'v entry \<Rightarrow> bool" where
  "byTimeLess a b =
     (if pe_time a \<noteq> pe_time b then pe_time a < pe_time b
      else pe_kind a = callEntry \<and> pe_kind b = returnEntry)"

text \<open>\<^verbatim>\<open>sort.Sort\<close>, as an insertion sort by the given order.\<close>

fun insertSorted :: "('a \<Rightarrow> 'a \<Rightarrow> bool) \<Rightarrow> 'a \<Rightarrow> 'a list \<Rightarrow> 'a list" where
  "insertSorted lt x [] = [x]"
| "insertSorted lt x (y # ys) = (if lt y x then y # insertSorted lt x ys else x # y # ys)"

definition sortBy :: "('a \<Rightarrow> 'a \<Rightarrow> bool) \<Rightarrow> 'a list \<Rightarrow> 'a list" where
  "sortBy lt xs = foldr (insertSorted lt) xs []"

fun operationEntries :: "int \<Rightarrow> 'v Operation list \<Rightarrow> 'v entry list" where
  "operationEntries n [] = []"
| "operationEntries n (elem # history) =
     \<lparr>pe_kind = callEntry, pe_value = po_Input elem, pe_id = n, pe_time = po_Call elem,
      pe_clientId = po_ClientId elem\<rparr> #
     \<lparr>pe_kind = returnEntry, pe_value = po_Output elem, pe_id = n, pe_time = po_Return elem,
      pe_clientId = po_ClientId elem\<rparr> #
     operationEntries (n + 1) history"

definition makeEntries :: "'v Operation list \<Rightarrow> 'v entry list" where
  "makeEntries history = sortBy byTimeLess (operationEntries 0 history)"

fun renumberFrom :: "(int \<rightharpoonup> int) \<Rightarrow> int \<Rightarrow> 'v Event list \<Rightarrow> 'v Event list" where
  "renumberFrom m n [] = []"
| "renumberFrom m n (v # events) =
     (case m (ev_Id v) of
        Some r \<Rightarrow> v\<lparr>ev_Id := r\<rparr> # renumberFrom m n events
      | None \<Rightarrow> v\<lparr>ev_Id := n\<rparr> # renumberFrom (m(ev_Id v \<mapsto> n)) (n + 1) events)"

definition renumber :: "'v Event list \<Rightarrow> 'v Event list" where
  "renumber events = renumberFrom Map.empty 0 events"

definition convertEntries :: "'v Event list \<Rightarrow> 'v entry list" where
  "convertEntries events =
     map (\<lambda>(i, elem).
       \<lparr>pe_kind = (if ev_Kind elem = ReturnEvent then returnEntry else callEntry),
        pe_value = ev_Value elem, pe_id = ev_Id elem, pe_time = int i,
        pe_clientId = ev_ClientId elem\<rparr>) (enumerate 0 events)"

subsection \<open>The linked list of entries\<close>

record 'v node =
  n_value :: "'v option"
  n_match :: "nat option"
  n_id :: int
  n_next :: "nat option"
  n_prev :: "nat option"

type_synonym 'v store = "'v node list"

definition deref :: "'v store \<Rightarrow> nat option \<Rightarrow> 'v node option" where
  "deref h p = (case p of None \<Rightarrow> None | Some a \<Rightarrow> if a < length h then Some (h ! a) else None)"

definition setNext :: "'v store \<Rightarrow> nat option \<Rightarrow> nat option \<Rightarrow> 'v store option" where
  "setNext h p q =
     (case p of None \<Rightarrow> None
      | Some a \<Rightarrow> if a < length h then Some (h[a := (h ! a)\<lparr>n_next := q\<rparr>]) else None)"

definition setPrev :: "'v store \<Rightarrow> nat option \<Rightarrow> nat option \<Rightarrow> 'v store option" where
  "setPrev h p q =
     (case p of None \<Rightarrow> None
      | Some a \<Rightarrow> if a < length h then Some (h[a := (h ! a)\<lparr>n_prev := q\<rparr>]) else None)"

definition insertBefore :: "'v store \<Rightarrow> nat \<Rightarrow> nat option \<Rightarrow> 'v store option" where
  "insertBefore h n mark =
     (if mark = None then Some h
      else do {
        mk \<leftarrow> deref h mark;
        let beforeMark = n_prev mk;
        h \<leftarrow> setPrev h mark (Some n);
        h \<leftarrow> setNext h (Some n) mark;
        if beforeMark = None then Some h
        else do {
          h \<leftarrow> setPrev h (Some n) beforeMark;
          setNext h beforeMark (Some n)
        }
      })"

text \<open>The loop of \<^verbatim>\<open>length\<close>, from the node \<open>n\<close> with the count \<open>l\<close>.\<close>

partial_function (option) lengthLoop :: "'v store \<Rightarrow> nat option \<Rightarrow> nat \<Rightarrow> nat option" where
  "lengthLoop h n l =
     (if n = None then Some l
      else do {
        nd \<leftarrow> deref h n;
        lengthLoop h (n_next nd) (l + 1)
      })"

declare lengthLoop.simps [code]

text \<open>A new node is put at the end of the store; its address is the length the store had.\<close>

definition linkEntry ::
  "'v entry \<Rightarrow> 'v store \<times> nat option \<times> (int \<rightharpoonup> nat) \<Rightarrow> ('v store \<times> nat option \<times> (int \<rightharpoonup> nat)) option" where
  "linkEntry elem = (\<lambda>(h, root, mtch).
     let n = length h in
     if pe_kind elem = returnEntry
     then do {
       let nd = \<lparr>n_value = Some (pe_value elem), n_match = None, n_id = pe_id elem, n_next = None, n_prev = None\<rparr>;
       h \<leftarrow> insertBefore (h @ [nd]) n root;
       Some (h, Some n, mtch(pe_id elem \<mapsto> n))
     }
     else do {
       let nd = \<lparr>n_value = Some (pe_value elem), n_match = mtch (pe_id elem), n_id = pe_id elem, n_next = None, n_prev = None\<rparr>;
       h \<leftarrow> insertBefore (h @ [nd]) n root;
       Some (h, Some n, mtch)
     })"

text \<open>The loop of \<^verbatim>\<open>makeLinkedEntries\<close> goes from the last entry to the first.\<close>

fun linkEntries ::
  "'v entry list \<Rightarrow> ('v store \<times> nat option \<times> (int \<rightharpoonup> nat)) option" where
  "linkEntries [] = Some ([], None, Map.empty)"
| "linkEntries (elem # entries) = do { st \<leftarrow> linkEntries entries; linkEntry elem st }"

definition makeLinkedEntries :: "'v entry list \<Rightarrow> ('v store \<times> nat option) option" where
  "makeLinkedEntries entries = do { (h, root, mtch) \<leftarrow> linkEntries entries; Some (h, root) }"

definition lift :: "'v store \<Rightarrow> nat option \<Rightarrow> 'v store option" where
  "lift h entry = do {
     e \<leftarrow> deref h entry;
     h \<leftarrow> setNext h (n_prev e) (n_next e);
     e \<leftarrow> deref h entry;
     h \<leftarrow> setPrev h (n_next e) (n_prev e);
     e \<leftarrow> deref h entry;
     mt \<leftarrow> deref h (n_match e);
     h \<leftarrow> setNext h (n_prev mt) (n_next mt);
     mt \<leftarrow> deref h (n_match e);
     if n_next mt \<noteq> None then setPrev h (n_next mt) (n_prev mt) else Some h
   }"

definition unlift :: "'v store \<Rightarrow> nat option \<Rightarrow> 'v store option" where
  "unlift h entry = do {
     e \<leftarrow> deref h entry;
     mt \<leftarrow> deref h (n_match e);
     h \<leftarrow> setNext h (n_prev mt) (n_match e);
     mt \<leftarrow> deref h (n_match e);
     h \<leftarrow> (if n_next mt \<noteq> None then setPrev h (n_next mt) (n_match e) else Some h);
     e \<leftarrow> deref h entry;
     h \<leftarrow> setNext h (n_prev e) entry;
     e \<leftarrow> deref h entry;
     setPrev h (n_next e) entry
   }"

subsection \<open>The search (checkSingle)\<close>

record 's cacheEntry =
  ce_linearized :: bitset
  ce_state :: 's

definition callEqual :: "('v, 's) Model \<Rightarrow> 's \<Rightarrow> 's \<Rightarrow> bool option" where
  "callEqual m state1 state2 = (case md_Equal m of None \<Rightarrow> None | Some eq \<Rightarrow> Some (eq state1 state2))"

fun cacheSearch :: "('v, 's) Model \<Rightarrow> 's cacheEntry list \<Rightarrow> 's cacheEntry \<Rightarrow> bool option" where
  "cacheSearch m [] entry = Some False"
| "cacheSearch m (elem # rest) entry =
     (if bitset_equals (ce_linearized entry) (ce_linearized elem)
      then do {
        same \<leftarrow> callEqual m (ce_state entry) (ce_state elem);
        if same then Some True else cacheSearch m rest entry
      }
      else cacheSearch m rest entry)"

type_synonym 's cache = "64 word \<rightharpoonup> 's cacheEntry list"

definition bucket :: "'s cache \<Rightarrow> 64 word \<Rightarrow> 's cacheEntry list" where
  "bucket cache hash = (case cache hash of None \<Rightarrow> [] | Some es \<Rightarrow> es)"

definition cacheContains :: "('v, 's) Model \<Rightarrow> 's cache \<Rightarrow> 's cacheEntry \<Rightarrow> bool option" where
  "cacheContains m cache entry = cacheSearch m (bucket cache (bitset_hash (ce_linearized entry))) entry"

text \<open>
  The variables of the loop. \<open>f_calls\<close> is the stack of the calls that are linearized, each with the
  state before it; \<open>f_longest\<close> holds pointers into \<open>f_seqs\<close>.
\<close>

record ('v, 's) search =
  f_store :: "'v store"
  f_entry :: "nat option"
  f_linearized :: bitset
  f_cache :: "'s cache"
  f_calls :: "(nat \<times> 's) list"
  f_longest :: "nat option list"
  f_seqs :: "int list list"
  f_state :: 's

text \<open>
  \<^verbatim>\<open>uint(id)\<close>: a negative number becomes one beyond every slice, so that the bit set operation that
  gets it panics.
\<close>

definition asUint :: "int \<Rightarrow> nat option" where
  "asUint i = (if 0 \<le> i then Some (nat i) else None)"

definition callIds :: "'v store \<Rightarrow> (nat \<times> 's) list \<Rightarrow> int list option" where
  "callIds h calls = those (map (\<lambda>(a, s). map_option n_id (deref h (Some a))) calls)"

text \<open>
  The loop that records the longest linearizable prefix for each call of the stack; \<open>all\<close> are the
  identifiers of the whole stack, of which one copy is made for all the pointers set in this round.
\<close>

fun recordLongest ::
  "int list \<Rightarrow> int list \<Rightarrow> nat option \<Rightarrow> int list list \<Rightarrow> nat option list \<Rightarrow> (int list list \<times> nat option list) option" where
  "recordLongest all [] sq seqs longest = Some (seqs, longest)"
| "recordLongest all (i # is) sq seqs longest = do {
     cur \<leftarrow> slice_get longest i;
     if (case cur of None \<Rightarrow> True | Some p \<Rightarrow> length all > length (seqs ! p))
     then (case sq of
             None \<Rightarrow> do {
               longest \<leftarrow> slice_set longest i (Some (length seqs));
               recordLongest all is (Some (length seqs)) (seqs @ [all]) longest
             }
           | Some p \<Rightarrow> do {
               longest \<leftarrow> slice_set longest i (Some p);
               recordLongest all is (Some p) seqs longest
             })
     else recordLongest all is sq seqs longest
   }"

text \<open>
  The branch of the loop for a call entry: the step is tried, and if the model allows it and the
  configuration is new, the call and its return leave the list.
\<close>

definition tryCall ::
  "('v, 's) Model \<Rightarrow> nat \<Rightarrow> 'v node \<Rightarrow> ('v, 's) search \<Rightarrow> ('v, 's) search option" where
  "tryCall m headEntry e st = do {
     matching \<leftarrow> deref (f_store st) (n_match e);
     input \<leftarrow> n_value e;
     output \<leftarrow> n_value matching;
     (ok, newState) \<leftarrow> md_Step m (f_state st) input output;
     if ok
     then do {
       pos \<leftarrow> asUint (n_id e);
       newLinearized \<leftarrow> bitset_set pos (bitset_clone (f_linearized st));
       let newCacheEntry = \<lparr>ce_linearized = newLinearized, ce_state = newState\<rparr>;
       found \<leftarrow> cacheContains m (f_cache st) newCacheEntry;
       if \<not> found
       then do {
         let hash = bitset_hash newLinearized;
         let cache = (f_cache st)(hash \<mapsto> bucket (f_cache st) hash @ [newCacheEntry]);
         entry \<leftarrow> f_entry st;
         let calls = f_calls st @ [(entry, f_state st)];
         linearized \<leftarrow> bitset_set pos (f_linearized st);
         h \<leftarrow> lift (f_store st) (f_entry st);
         hdn \<leftarrow> deref h (Some headEntry);
         Some (st\<lparr>f_store := h, f_entry := n_next hdn, f_linearized := linearized, f_cache := cache,
                 f_calls := calls, f_state := newState\<rparr>)
       }
       else Some (st\<lparr>f_entry := n_next e\<rparr>)
     }
     else Some (st\<lparr>f_entry := n_next e\<rparr>)
   }"

text \<open>The branch for a return entry, when there is a call to take back.\<close>

definition takeBack :: "bool \<Rightarrow> ('v, 's) search \<Rightarrow> ('v, 's) search option" where
  "takeBack computePartial st = do {
     (seqs, longest) \<leftarrow>
       (if computePartial
        then do {
          all \<leftarrow> callIds (f_store st) (f_calls st);
          recordLongest all all None (f_seqs st) (f_longest st)
        }
        else Some (f_seqs st, f_longest st));
     let (entry, state) = last (f_calls st);
     e \<leftarrow> deref (f_store st) (Some entry);
     pos \<leftarrow> asUint (n_id e);
     linearized \<leftarrow> bitset_clear pos (f_linearized st);
     h \<leftarrow> unlift (f_store st) (Some entry);
     e \<leftarrow> deref h (Some entry);
     Some (st\<lparr>f_store := h, f_entry := n_next e, f_linearized := linearized,
             f_calls := butlast (f_calls st), f_longest := longest, f_seqs := seqs, f_state := state\<rparr>)
   }"

text \<open>One iteration after the test of \<^verbatim>\<open>kill\<close>; the inner \<open>None\<close> is the return with \<^verbatim>\<open>false\<close>.\<close>

definition searchStep ::
  "('v, 's) Model \<Rightarrow> bool \<Rightarrow> nat \<Rightarrow> ('v, 's) search \<Rightarrow> ('v, 's) search option option" where
  "searchStep m computePartial headEntry st = do {
     e \<leftarrow> deref (f_store st) (f_entry st);
     if n_match e \<noteq> None then map_option Some (tryCall m headEntry e st)
     else if f_calls st = [] then Some None
     else map_option Some (takeBack computePartial st)
   }"

text \<open>\<open>kill k\<close> is what the atomic load sees in iteration \<open>k\<close>.\<close>

partial_function (option) searchLoop ::
  "('v, 's) Model \<Rightarrow> bool \<Rightarrow> (nat \<Rightarrow> bool) \<Rightarrow> nat \<Rightarrow> nat \<Rightarrow> ('v, 's) search \<Rightarrow> (bool \<times> ('v, 's) search) option" where
  "searchLoop m computePartial kill headEntry k st = do {
     hdn \<leftarrow> deref (f_store st) (Some headEntry);
     if n_next hdn = None then Some (True, st)
     else if kill k then Some (False, st)
     else do {
       r \<leftarrow> searchStep m computePartial headEntry st;
       case r of
         None \<Rightarrow> Some (False, st)
       | Some st \<Rightarrow> searchLoop m computePartial kill headEntry (k + 1) st
     }
   }"

declare searchLoop.simps [code]

text \<open>The state in which the loop begins, and the address of \<^verbatim>\<open>headEntry\<close>.\<close>

definition searchInit :: "('v, 's) Model \<Rightarrow> 'v entry list \<Rightarrow> (nat \<times> ('v, 's) search) option" where
  "searchInit m history = do {
     (h, entry) \<leftarrow> makeLinkedEntries history;
     l \<leftarrow> lengthLoop h entry 0;
     let n = l div 2;
     let headEntry = length h;
     h \<leftarrow> insertBefore (h @ [\<lparr>n_value = None, n_match = None, n_id = -1, n_next = None, n_prev = None\<rparr>])
            headEntry entry;
     Some (headEntry,
       \<lparr>f_store = h, f_entry = entry, f_linearized = newBitset n, f_cache = Map.empty, f_calls = [],
        f_longest = replicate n None, f_seqs = [], f_state = md_Init m\<rparr>)
   }"

text \<open>The result is the verdict with \<^verbatim>\<open>longest\<close>: the pointers and the slices they point to.\<close>

definition checkSingle ::
  "('v, 's) Model \<Rightarrow> 'v entry list \<Rightarrow> bool \<Rightarrow> (nat \<Rightarrow> bool) \<Rightarrow> (bool \<times> nat option list \<times> int list list) option" where
  "checkSingle m history computePartial kill = do {
     (headEntry, st) \<leftarrow> searchInit m history;
     (ok, st) \<leftarrow> searchLoop m computePartial kill headEntry 0 st;
     if \<not> ok then Some (False, f_longest st, f_seqs st)
     else do {
       sq \<leftarrow> callIds (f_store st) (f_calls st);
       Some (True, map (\<lambda>_. Some (length (f_seqs st))) (f_longest st), f_seqs st @ [sq])
     }
   }"

subsection \<open>Partitions in parallel\<close>

definition fillDefault :: "('v, 's) Model \<Rightarrow> ('v, 's) Model" where
  "fillDefault m =
     (let m = (if md_Partition m = None then m\<lparr>md_Partition := Some NoPartition\<rparr> else m);
          m = (if md_PartitionEvent m = None then m\<lparr>md_PartitionEvent := Some NoPartitionEvent\<rparr> else m);
          m = (if md_Equal m = None then m\<lparr>md_Equal := Some ShallowEqual\<rparr> else m);
          m = (if md_DescribeOperation m = None then m\<lparr>md_DescribeOperation := Some (DefaultDescribeOperation m)\<rparr> else m)
      in if md_DescribeState m = None then m\<lparr>md_DescribeState := Some (DefaultDescribeState m)\<rparr> else m)"

text \<open>
  What the \<^verbatim>\<open>select\<close> of the loop may receive: the verdict of the goroutine of a partition, or the
  timeout. The sequence of receptions is the schedule; when it is used up the \<^verbatim>\<open>select\<close> blocks for ever,
  which is \<open>None\<close>, and without a timeout the timeout channel is \<^verbatim>\<open>nil\<close> and nothing comes from it.
\<close>

datatype arrival = Result nat | TimeoutFired

fun collect ::
  "bool list \<Rightarrow> bool \<Rightarrow> int \<Rightarrow> bool \<Rightarrow> nat list \<Rightarrow> arrival list \<Rightarrow> (bool \<times> bool \<times> nat list) option" where
  "collect results computeInfo timeout ok got [] = None"
| "collect results computeInfo timeout ok got (Result i # schedule) =
     (if i < length results \<and> i \<notin> set got
      then (let got = got @ [i]; ok = (ok \<and> results ! i) in
            if \<not> ok \<and> \<not> computeInfo then Some (ok, False, got)
            else if length got \<ge> length results then Some (ok, False, got)
            else collect results computeInfo timeout ok got schedule)
      else None)"
| "collect results computeInfo timeout ok got (TimeoutFired # schedule) =
     (if timeout > 0 then Some (ok, True, got) else None)"

text \<open>The distinct pointers of \<^verbatim>\<open>longest\<close>, as the sequences they point to.\<close>

definition uniquePartials :: "nat option list \<Rightarrow> int list list \<Rightarrow> int list list" where
  "uniquePartials longest seqs = map (\<lambda>p. seqs ! p) (remdups (List.map_filter (\<lambda>v. v) longest))"

text \<open>
  \<^verbatim>\<open>kill\<close> is 0 until the loop ends, so that the verdicts it receives are those of searches that are
  not interrupted; \<open>killed i k\<close> is what iteration \<open>k\<close> of the search of partition \<open>i\<close> sees of the flag when its
  verdict comes later.
\<close>

definition checkParallel ::
  "('v, 's) Model \<Rightarrow> 'v entry list list \<Rightarrow> bool \<Rightarrow> int \<Rightarrow> arrival list \<Rightarrow> (nat \<Rightarrow> nat \<Rightarrow> bool) \<Rightarrow>
   (CheckResult \<times> 'v linearizationInfo) option" where
  "checkParallel m history computeInfo timeout schedule killed = do {
     singles \<leftarrow> those (map (\<lambda>sub. checkSingle m sub computeInfo (\<lambda>_. False)) history);
     (ok, timedOut, got) \<leftarrow> collect (map fst singles) computeInfo timeout True [] schedule;
     info \<leftarrow>
       (if computeInfo
        then do {
          longest \<leftarrow> those (map (\<lambda>i. if i \<in> set got then Some (singles ! i)
                                  else checkSingle m (history ! i) computeInfo (killed i)) [0..<length history]);
          Some \<lparr>li_history = history,
               li_partialLinearizations = map (\<lambda>(ok, ptrs, seqs). uniquePartials ptrs seqs) longest\<rparr>
        }
        else Some \<lparr>li_history = [], li_partialLinearizations = []\<rparr>);
     Some (if \<not> ok then Illegal else if timedOut then Unknown else Ok, info)
   }"

definition checkEvents ::
  "('v, 's) Model \<Rightarrow> 'v Event list \<Rightarrow> bool \<Rightarrow> int \<Rightarrow> arrival list \<Rightarrow> (nat \<Rightarrow> nat \<Rightarrow> bool) \<Rightarrow>
   (CheckResult \<times> 'v linearizationInfo) option" where
  "checkEvents m history verbose timeout schedule killed = do {
     let m = fillDefault m;
     partition \<leftarrow> md_PartitionEvent m;
     partitions \<leftarrow> partition history;
     checkParallel m (map (\<lambda>sub. convertEntries (renumber sub)) partitions) verbose timeout schedule killed
   }"

definition checkOperations ::
  "('v, 's) Model \<Rightarrow> 'v Operation list \<Rightarrow> bool \<Rightarrow> int \<Rightarrow> arrival list \<Rightarrow> (nat \<Rightarrow> nat \<Rightarrow> bool) \<Rightarrow>
   (CheckResult \<times> 'v linearizationInfo) option" where
  "checkOperations m history verbose timeout schedule killed = do {
     let m = fillDefault m;
     partition \<leftarrow> md_Partition m;
     partitions \<leftarrow> partition history;
     checkParallel m (map makeEntries partitions) verbose timeout schedule killed
   }"

subsection \<open>The interface (porcupine.go)\<close>

definition CheckOperations ::
  "('v, 's) Model \<Rightarrow> 'v Operation list \<Rightarrow> arrival list \<Rightarrow> (nat \<Rightarrow> nat \<Rightarrow> bool) \<Rightarrow> bool option" where
  "CheckOperations m history schedule killed = do {
     (res, info) \<leftarrow> checkOperations m history False 0 schedule killed;
     Some (res = Ok)
   }"

definition CheckOperationsTimeout ::
  "('v, 's) Model \<Rightarrow> 'v Operation list \<Rightarrow> int \<Rightarrow> arrival list \<Rightarrow> (nat \<Rightarrow> nat \<Rightarrow> bool) \<Rightarrow> CheckResult option" where
  "CheckOperationsTimeout m history timeout schedule killed = do {
     (res, info) \<leftarrow> checkOperations m history False timeout schedule killed;
     Some res
   }"

definition CheckOperationsVerbose ::
  "('v, 's) Model \<Rightarrow> 'v Operation list \<Rightarrow> int \<Rightarrow> arrival list \<Rightarrow> (nat \<Rightarrow> nat \<Rightarrow> bool) \<Rightarrow>
   (CheckResult \<times> 'v linearizationInfo) option" where
  "CheckOperationsVerbose m history timeout schedule killed = checkOperations m history True timeout schedule killed"

definition CheckEvents ::
  "('v, 's) Model \<Rightarrow> 'v Event list \<Rightarrow> arrival list \<Rightarrow> (nat \<Rightarrow> nat \<Rightarrow> bool) \<Rightarrow> bool option" where
  "CheckEvents m history schedule killed = do {
     (res, info) \<leftarrow> checkEvents m history False 0 schedule killed;
     Some (res = Ok)
   }"

definition CheckEventsTimeout ::
  "('v, 's) Model \<Rightarrow> 'v Event list \<Rightarrow> int \<Rightarrow> arrival list \<Rightarrow> (nat \<Rightarrow> nat \<Rightarrow> bool) \<Rightarrow> CheckResult option" where
  "CheckEventsTimeout m history timeout schedule killed = do {
     (res, info) \<leftarrow> checkEvents m history False timeout schedule killed;
     Some res
   }"

definition CheckEventsVerbose ::
  "('v, 's) Model \<Rightarrow> 'v Event list \<Rightarrow> int \<Rightarrow> arrival list \<Rightarrow> (nat \<Rightarrow> nat \<Rightarrow> bool) \<Rightarrow>
   (CheckResult \<times> 'v linearizationInfo) option" where
  "CheckEventsVerbose m history timeout schedule killed = checkEvents m history True timeout schedule killed"

end
