(* ===== verification/PorcList.thy ===== *)
theory PorcList
  imports Porcupine
begin

section \<open>The linked list of the checker\<close>

text \<open>
  What \<^verbatim>\<open>insertBefore\<close>, \<^verbatim>\<open>length\<close>, \<^verbatim>\<open>lift\<close> and \<^verbatim>\<open>unlift\<close> do to the list in the store: \<open>linked h xs\<close>
  says that the nodes at the addresses \<open>xs\<close> are chained in both directions. A node that \<^verbatim>\<open>lift\<close> takes out
  keeps its own pointers, and \<^verbatim>\<open>unlift\<close> uses them to restore the store exactly as it was.
\<close>

named_theorems store_simps \<open>evaluation of accesses to a store\<close>

subsection \<open>Chains of nodes\<close>

fun seg :: "'v store \<Rightarrow> nat list \<Rightarrow> bool" where
  "seg h [] = True"
| "seg h [a] = True"
| "seg h (a # b # xs) = (n_next (h ! a) = Some b \<and> n_prev (h ! b) = Some a \<and> seg h (b # xs))"

definition linked :: "'v store \<Rightarrow> nat list \<Rightarrow> bool" where
  "linked h xs \<longleftrightarrow>
     distinct xs \<and> (\<forall>a \<in> set xs. a < length h) \<and> seg h xs \<and> (xs \<noteq> [] \<longrightarrow> n_next (h ! last xs) = None)"

text \<open>Two stores that differ in the links only.\<close>

definition same :: "'v store \<Rightarrow> 'v store \<Rightarrow> bool" where
  "same h h' \<longleftrightarrow>
     length h' = length h \<and>
     (\<forall>a < length h. n_value (h' ! a) = n_value (h ! a) \<and> n_match (h' ! a) = n_match (h ! a) \<and> n_id (h' ! a) = n_id (h ! a))"

lemma same_refl [simp]: "same h h"
  by (simp add: same_def)

lemma same_trans [trans]: "same h h' \<Longrightarrow> same h' h'' \<Longrightarrow> same h h''"
  by (simp add: same_def)

lemma same_sym: "same h h' \<Longrightarrow> same h' h"
  by (simp add: same_def)

lemma seg_append: "seg h (xs @ a # ys) \<longleftrightarrow> seg h (xs @ [a]) \<and> seg h (a # ys)"
proof (induction xs)
  case (Cons x xs)
  then show ?case by (cases xs) auto
qed simp

lemma seg_cong:
  assumes "\<forall>a \<in> set (butlast xs). n_next (h' ! a) = n_next (h ! a)"
    and "\<forall>a \<in> set (tl xs). n_prev (h' ! a) = n_prev (h ! a)"
  shows "seg h' xs \<longleftrightarrow> seg h xs"
  using assms by (induction h xs rule: seg.induct) auto

lemma deref_Some [store_simps]: "a < length h \<Longrightarrow> deref h (Some a) = Some (h ! a)"
  by (simp add: deref_def)

lemma setNext_Some [store_simps]: "a < length h \<Longrightarrow> setNext h (Some a) q = Some (h[a := (h ! a)\<lparr>n_next := q\<rparr>])"
  by (simp add: setNext_def)

lemma setPrev_Some [store_simps]: "a < length h \<Longrightarrow> setPrev h (Some a) q = Some (h[a := (h ! a)\<lparr>n_prev := q\<rparr>])"
  by (simp add: setPrev_def)

lemma setNext_same [store_simps]: "n_next (h ! a) = q \<Longrightarrow> h[a := (h ! a)\<lparr>n_next := q\<rparr>] = h"
  by auto

lemma setPrev_same [store_simps]: "n_prev (h ! a) = q \<Longrightarrow> h[a := (h ! a)\<lparr>n_prev := q\<rparr>] = h"
  by auto

subsection \<open>Taking one node out and putting it back\<close>

definition unlink :: "'v store \<Rightarrow> nat option \<Rightarrow> 'v store option" where
  "unlink h p = do {
     nd \<leftarrow> deref h p;
     h \<leftarrow> setNext h (n_prev nd) (n_next nd);
     nd \<leftarrow> deref h p;
     if n_next nd \<noteq> None then setPrev h (n_next nd) (n_prev nd) else Some h
   }"

definition relink :: "'v store \<Rightarrow> nat option \<Rightarrow> 'v store option" where
  "relink h p = do {
     nd \<leftarrow> deref h p;
     h \<leftarrow> setNext h (n_prev nd) p;
     nd \<leftarrow> deref h p;
     if n_next nd \<noteq> None then setPrev h (n_next nd) p else Some h
   }"

lemma unlink_last:
  assumes "linked h (us @ [p, a])"
  obtains h' where "unlink h (Some a) = Some h'" and "linked h' (us @ [p])" and "same h h'"
    and "h' ! a = h ! a" and "relink h' (Some a) = Some h"
proof -
  let ?h = "h[p := (h ! p)\<lparr>n_next := None\<rparr>]"
  have b: "a < length h" "p < length h" "p \<noteq> a" "p \<notin> set us" "a \<notin> set us"
    and d: "distinct us" "\<forall>x \<in> set us. x < length h"
    and l: "n_next (h ! p) = Some a" "n_prev (h ! a) = Some p" "n_next (h ! a) = None" "seg h (us @ [p])"
    using assms seg_append [of h us p "[a]"] by (auto simp: linked_def)
  have u: "unlink h (Some a) = Some ?h" using b l by (simp add: unlink_def store_simps)
  have "seg ?h (us @ [p]) \<longleftrightarrow> seg h (us @ [p])" by (rule seg_cong) (use b in \<open>auto simp: nth_list_update\<close>)
  then have k: "linked ?h (us @ [p])" using b d l by (simp add: linked_def)
  have s: "same h ?h" using b by (auto simp: same_def nth_list_update)
  have r: "relink ?h (Some a) = Some h" using b l by (simp add: relink_def store_simps)
  from u k s r b show thesis by (intro that [of ?h]) auto
qed

lemma unlink_inner:
  assumes "linked h (us @ p # a # b # vs)"
  obtains h' where "unlink h (Some a) = Some h'" and "linked h' (us @ p # b # vs)" and "same h h'"
    and "h' ! a = h ! a" and "relink h' (Some a) = Some h"
proof -
  let ?h1 = "h[p := (h ! p)\<lparr>n_next := Some b\<rparr>]"
  let ?h = "?h1[b := (h ! b)\<lparr>n_prev := Some p\<rparr>]"
  have b: "a < length h" "p < length h" "b < length h" "p \<noteq> a" "p \<noteq> b" "a \<noteq> b"
      "p \<notin> set us" "a \<notin> set us" "b \<notin> set us" "p \<notin> set vs" "a \<notin> set vs" "b \<notin> set vs"
    and d: "distinct us" "\<forall>x \<in> set us. x < length h" "distinct vs" "\<forall>x \<in> set vs. x < length h" "set us \<inter> set vs = {}"
    and l: "n_next (h ! p) = Some a" "n_prev (h ! a) = Some p" "n_next (h ! a) = Some b" "n_prev (h ! b) = Some a"
      "seg h (us @ [p])" "seg h (b # vs)" "n_next (h ! last (b # vs)) = None"
    using assms seg_append [of h us p "a # b # vs"] by (auto simp: linked_def split: if_splits)
  have u: "unlink h (Some a) = Some ?h" using b l by (simp add: unlink_def store_simps)
  have "seg ?h (us @ [p]) \<longleftrightarrow> seg h (us @ [p])"
    by (rule seg_cong) (use b in \<open>auto simp: nth_list_update tl_append split: list.splits\<close>)
  moreover have "seg ?h (b # vs) \<longleftrightarrow> seg h (b # vs)"
    by (rule seg_cong) (use b in \<open>auto simp: nth_list_update dest: in_set_butlastD split: if_splits\<close>)
  ultimately have "seg ?h (us @ p # b # vs)"
    using b l by (subst seg_append) simp
  moreover have "n_next (?h ! last (b # vs)) = None"
    using l(7) b last_in_set [of vs] by (cases vs) (auto simp: nth_list_update split: if_splits)
  ultimately have k: "linked ?h (us @ p # b # vs)" using b d by (auto simp: linked_def)
  have s: "same h ?h" using b by (auto simp: same_def nth_list_update)
  have r: "relink ?h (Some a) = Some h"
    using b l by (simp add: relink_def store_simps list_update_swap [of p b])
  from u k s r b show thesis by (intro that [of ?h]) auto
qed

lemma unlink_ok:
  assumes "linked h (us @ p # a # vs)"
  obtains h' where "unlink h (Some a) = Some h'" and "linked h' (us @ p # vs)" and "same h h'"
    and "h' ! a = h ! a" and "relink h' (Some a) = Some h"
  using assms unlink_last [of h us p a thesis] unlink_inner [of h us p a "hd vs" "tl vs" thesis]
  by (cases vs) simp_all

lemma unlink_keeps:
  assumes "linked h (us @ p # a # vs)" and "x \<notin> set (us @ p # a # vs)" and "unlink h (Some a) = Some h'"
  shows "h' ! x = h ! x"
proof -
  have "n_prev (h ! a) = Some p" "p \<noteq> a" "a < length h" "p < length h"
    and "n_next (h ! a) = (case vs of [] \<Rightarrow> None | b # _ \<Rightarrow> Some b)" "\<forall>b \<in> set vs. b < length h"
    using assms(1) seg_append [of h us p "a # vs"] by (auto simp: linked_def split: list.splits)
  with assms(2,3) show ?thesis by (auto simp: unlink_def store_simps split: list.splits)
qed

subsection \<open>Lift and unlift\<close>

lemma lift_unlink:
  assumes "e < length h" and "n_next (h ! e) \<noteq> None" and "n_prev (h ! e) = Some p" "p \<noteq> e" "p < length h" and "unlink h (Some e) = Some h'"
    and "h' ! e = h ! e" and "length h' = length h"
  shows "lift h (Some e) = unlink h' (n_match (h ! e))"
  using assms by (auto simp: lift_def unlink_def [of h] unlink_def [of h'] store_simps bind_eq_Some_conv)

lemma unlift_relink:
  assumes "e < length h" and "n_next (h ! e) \<noteq> None" and "n_prev (h ! e) = Some p" "p \<noteq> e" "p < length h" and "relink h (n_match (h ! e)) = Some h'"
    and "h' ! e = h ! e" and "length h' = length h"
  shows "unlift h (Some e) = relink h' (Some e)"
  using assms by (auto simp: unlift_def relink_def store_simps bind_eq_Some_conv)

text \<open>\<^verbatim>\<open>lift\<close> takes a call and its return out of the list, and \<^verbatim>\<open>unlift\<close> is its inverse.\<close>

lemma lift_ok:
  assumes l: "linked h (us @ p # e # vs @ r # ws)" and m: "n_match (h ! e) = Some r"
  obtains h' where "lift h (Some e) = Some h'" and "linked h' (us @ p # vs @ ws)" and "same h h'"
    and "unlift h' (Some e) = Some h"
proof -
  have e: "e < length h" "n_next (h ! e) \<noteq> None" "n_prev (h ! e) = Some p" "p \<noteq> e" "p < length h"
    using l seg_append [of h us p "e # vs @ r # ws"] by (cases vs; auto simp: linked_def)+
  obtain h1 where h1: "unlink h (Some e) = Some h1" "linked h1 (us @ p # vs @ r # ws)" "same h h1"
      "h1 ! e = h ! e" "relink h1 (Some e) = Some h"
    using unlink_ok [of h us p e "vs @ r # ws"] l by metis
  obtain us' p' where u: "us @ p # vs = us' @ [p']" by (metis append_is_Nil_conv list.distinct(1) rev_exhaust)
  then have v: "us @ p # vs @ r # ws = us' @ p' # r # ws" "us @ p # vs @ ws = us' @ p' # ws"
    using arg_cong [OF u, of "\<lambda>x. x @ r # ws"] arg_cong [OF u, of "\<lambda>x. x @ ws"] by simp_all
  obtain h2 where h2: "unlink h1 (Some r) = Some h2" "linked h2 (us @ p # vs @ ws)" "same h1 h2"
      "h2 ! r = h1 ! r" "relink h2 (Some r) = Some h1"
    using unlink_ok [of h1 us' p' r ws] h1(2) v by metis
  have n: "e \<notin> set (us @ p # vs @ r # ws)" using l by (auto simp: linked_def)
  have keep: "h2 ! e = h ! e" using h2(1) h1(2,4) v n e unlink_keeps [of h1 us' p' r ws e] by metis
  have s: "length h1 = length h" "length h2 = length h" using h1(3) h2(3) by (auto simp: same_def)
  have "lift h (Some e) = Some h2" using lift_unlink [OF e h1(1,4)] s m h2(1) by simp
  moreover have "unlift h2 (Some e) = Some h"
    using unlift_relink [of e h2 p h1] keep e s m h2(5) h1(4,5) by simp
  ultimately show thesis using that h2(2) same_trans [OF h1(3) h2(3)] by blast
qed

subsection \<open>Building the list\<close>

definition first :: "nat list \<Rightarrow> nat option" where
  "first xs = (case xs of [] \<Rightarrow> None | x # _ \<Rightarrow> Some x)"

definition fresh_list :: "'v store \<Rightarrow> nat list \<Rightarrow> bool" where
  "fresh_list h xs \<longleftrightarrow> linked h xs \<and> (xs \<noteq> [] \<longrightarrow> n_prev (h ! hd xs) = None)"

lemma insert_front:
  assumes f: "fresh_list h xs" and nd: "n_next nd = None" "n_prev nd = None"
  obtains h' where "insertBefore (h @ [nd]) (length h) (first xs) = Some h'"
    and "fresh_list h' (length h # xs)" and "same (h @ [nd]) h'"
proof (cases xs)
  case Nil
  with nd have "insertBefore (h @ [nd]) (length h) (first xs) = Some (h @ [nd])" "fresh_list (h @ [nd]) (length h # xs)"
    by (simp_all add: insertBefore_def first_def fresh_list_def linked_def)
  then show thesis by (intro that) auto
next
  case (Cons r rs)
  let ?n = "length h"
  let ?h = "(h @ [nd])[r := (h ! r)\<lparr>n_prev := Some ?n\<rparr>, ?n := nd\<lparr>n_next := Some r\<rparr>]"
  have r: "r < ?n" "n_prev (h ! r) = None" "\<forall>x \<in> set rs. x < ?n" "distinct rs" "r \<notin> set rs" "seg h (r # rs)"
      "n_next (h ! last (r # rs)) = None"
    using f Cons by (auto simp: fresh_list_def linked_def)
  have i: "insertBefore (h @ [nd]) ?n (first xs) = Some ?h"
    using r Cons by (simp add: insertBefore_def first_def store_simps nth_append)
  have "seg ?h (r # rs) \<longleftrightarrow> seg h (r # rs)"
    by (rule seg_cong) (use r in \<open>auto simp: nth_list_update nth_append dest!: in_set_butlastD split: if_splits\<close>)
  then have "seg ?h (?n # r # rs)" using r by (simp add: nth_append)
  moreover have "n_next (?h ! last (r # rs)) = None"
    using r last_in_set [of "r # rs"] by (auto simp: nth_list_update nth_append simp del: last_in_set)
  ultimately have "fresh_list ?h (?n # xs)" using r Cons nd by (auto simp: fresh_list_def linked_def)
  moreover have "same (h @ [nd]) ?h" using r by (auto simp: same_def nth_list_update nth_append)
  ultimately show thesis using i that by blast
qed

lemma lengthLoop_linked:
  assumes "linked h (us @ xs)"
  shows "lengthLoop h (first xs) l = Some (l + length xs)"
  using assms
proof (induction xs arbitrary: us l)
  case Nil
  then show ?case by (subst lengthLoop.simps) (simp add: first_def)
next
  case (Cons x xs)
  have "n_next (h ! x) = first xs" "x < length h"
    using Cons.prems seg_append [of h us x xs] by (auto simp: linked_def first_def split: list.splits)
  then have "lengthLoop h (first (x # xs)) l = lengthLoop h (first xs) (l + 1)"
    by (subst lengthLoop.simps) (simp add: first_def store_simps)
  also have "\<dots> = Some (l + 1 + length xs)" using Cons.IH [of "us @ [x]"] Cons.prems by simp
  finally show ?case by simp
qed

text \<open>
  The nodes of a history. The entries are linked from the last to the first, so that the node at
  address \<open>a\<close> is that of \<open>rev es ! a\<close>, and the match of a call is the nearest return with its number.
\<close>

definition nodes_of :: "'v store \<Rightarrow> 'v entry list \<Rightarrow> bool" where
  "nodes_of h es \<longleftrightarrow>
     length h \<ge> length es \<and>
     (\<forall>a < length es. n_id (h ! a) = pe_id (rev es ! a) \<and> n_value (h ! a) = Some (pe_value (rev es ! a)) \<and>
       (pe_kind (rev es ! a) = returnEntry \<longrightarrow> n_match (h ! a) = None) \<and>
       (pe_kind (rev es ! a) = callEntry \<longrightarrow>
          (case n_match (h ! a) of
             Some b \<Rightarrow> b < a \<and> pe_kind (rev es ! b) = returnEntry \<and> pe_id (rev es ! b) = pe_id (rev es ! a)
           | None \<Rightarrow> \<forall>b < a. \<not> (pe_kind (rev es ! b) = returnEntry \<and> pe_id (rev es ! b) = pe_id (rev es ! a)))))"

definition matches_of :: "(int \<rightharpoonup> nat) \<Rightarrow> 'v entry list \<Rightarrow> bool" where
  "matches_of mtch es \<longleftrightarrow>
     (\<forall>i. case mtch i of
        Some b \<Rightarrow> b < length es \<and> pe_kind (rev es ! b) = returnEntry \<and> pe_id (rev es ! b) = i
      | None \<Rightarrow> \<forall>b < length es. \<not> (pe_kind (rev es ! b) = returnEntry \<and> pe_id (rev es ! b) = i))"

lemma nodes_of_same: "nodes_of h es \<Longrightarrow> same h h' \<Longrightarrow> nodes_of h' es"
  by (auto simp: nodes_of_def same_def)

lemma nodes_of_append: "nodes_of h es \<Longrightarrow> nodes_of (h @ xs) es"
  by (auto simp: nodes_of_def nth_append)

lemma rev_index: "a < length es \<Longrightarrow> rev (e # es) ! a = rev es ! a"
  by (simp add: nth_append)

lemma nodes_of_Cons:
  assumes n: "nodes_of h es" and l: "length h = length es"
    and nd: "n_id nd = pe_id e" "n_value nd = Some (pe_value e)"
      "n_match nd = (if pe_kind e = returnEntry then None else mtch (pe_id e))"
    and m: "matches_of mtch es"
  shows "nodes_of (h @ [nd]) (e # es)"
  unfolding nodes_of_def
proof (intro conjI allI impI)
  let ?r = "rev (e # es)"
  fix a assume a: "a < length (e # es)"
  have old: "?r ! b = rev es ! b" if "b < length es" for b using that by (rule rev_index)
  have top: "?r ! length es = e" by (simp add: nth_append)
  show "n_id ((h @ [nd]) ! a) = pe_id (?r ! a)" "n_value ((h @ [nd]) ! a) = Some (pe_value (?r ! a))"
    using a n l nd old top by (auto simp: nodes_of_def nth_append less_Suc_eq simp del: rev.simps)
  show "n_match ((h @ [nd]) ! a) = None" if "pe_kind (?r ! a) = returnEntry"
    using a n l nd old top that by (auto simp: nodes_of_def nth_append less_Suc_eq simp del: rev.simps)
  show "case n_match ((h @ [nd]) ! a) of
      Some b \<Rightarrow> b < a \<and> pe_kind (?r ! b) = returnEntry \<and> pe_id (?r ! b) = pe_id (?r ! a)
    | None \<Rightarrow> \<forall>b < a. \<not> (pe_kind (?r ! b) = returnEntry \<and> pe_id (?r ! b) = pe_id (?r ! a))"
    if c: "pe_kind (?r ! a) = callEntry"
  proof (cases "a = length es")
    case True
    have "case mtch (pe_id e) of
        Some b \<Rightarrow> b < length es \<and> pe_kind (rev es ! b) = returnEntry \<and> pe_id (rev es ! b) = pe_id e
      | None \<Rightarrow> \<forall>b < length es. \<not> (pe_kind (rev es ! b) = returnEntry \<and> pe_id (rev es ! b) = pe_id e)"
      using m by (simp add: matches_of_def)
    then show ?thesis using True l nd c top old
      by (auto simp: nth_append simp del: rev.simps split: option.splits)
  next
    case False
    with a have "a < length es" by simp
    then show ?thesis using n l c old [of a] old
      by (auto simp: nodes_of_def nth_append simp del: rev.simps split: option.splits)
  qed
qed (use l in simp)

lemma matches_of_Cons:
  assumes "matches_of mtch es"
  shows "matches_of (if pe_kind e = returnEntry then mtch(pe_id e \<mapsto> length es) else mtch) (e # es)"
  using assms
  by (auto simp: matches_of_def nth_append less_Suc_eq split: option.splits) (metis option.distinct(1))+

lemma linkEntries_ok:
  obtains h mtch where "linkEntries es = Some (h, first (rev [0..<length es]), mtch)"
    and "length h = length es" and "fresh_list h (rev [0..<length es])" and "nodes_of h es" and "matches_of mtch es"
proof (induction es arbitrary: thesis)
  case Nil
  show ?case by (rule Nil) (auto simp: first_def fresh_list_def linked_def nodes_of_def matches_of_def)
next
  case (Cons e es)
  let ?xs = "rev [0..<length es]"
  let ?mt = "\<lambda>mtch. if pe_kind e = returnEntry then mtch(pe_id e \<mapsto> length es) else mtch"
  obtain h mtch where h: "linkEntries es = Some (h, first ?xs, mtch)" "length h = length es" "fresh_list h ?xs"
      "nodes_of h es" "matches_of mtch es" by (rule Cons.IH)
  let ?nd = "\<lparr>n_value = Some (pe_value e), n_match = if pe_kind e = returnEntry then None else mtch (pe_id e),
              n_id = pe_id e, n_next = None, n_prev = None\<rparr>"
  obtain h' where h': "insertBefore (h @ [?nd]) (length h) (first ?xs) = Some h'"
      "fresh_list h' (length h # ?xs)" "same (h @ [?nd]) h'" by (rule insert_front [OF h(3)]) auto
  have x: "rev [0..<length (e # es)] = length h # ?xs" using h(2) by simp
  have "linkEntries (e # es) = Some (h', first (length h # ?xs), ?mt mtch)"
    using h(1,2) h'(1) by (auto simp: linkEntry_def Let_def first_def)
  moreover have "nodes_of h' (e # es)"
    by (rule nodes_of_same [OF nodes_of_Cons [OF h(4,2) _ _ _ h(5)] h'(3)]) simp_all
  moreover have "length h' = length (e # es)" using h'(3) h(2) by (simp add: same_def)
  ultimately show ?case
    using Cons.prems [of h' "?mt mtch"] h'(2) matches_of_Cons [OF h(5)] x by metis
qed

text \<open>The store and the list in which the search begins.\<close>

lemma searchInit_ok:
  obtains h where "searchInit m es =
      Some (length es, \<lparr>f_store = h, f_entry = first (rev [0..<length es]),
        f_linearized = newBitset (length es div 2), f_cache = Map.empty, f_calls = [],
        f_longest = replicate (length es div 2) None, f_seqs = [], f_state = md_Init m\<rparr>)"
    and "linked h (length es # rev [0..<length es])" and "nodes_of h es" and "length h = Suc (length es)"
proof -
  obtain h mtch where h: "linkEntries es = Some (h, first (rev [0..<length es]), mtch)"
    "length h = length es" "fresh_list h (rev [0..<length es])" "nodes_of h es" by (rule linkEntries_ok)
  let ?nd = "\<lparr>n_value = None, n_match = None, n_id = -1, n_next = None, n_prev = None\<rparr>"
  obtain h' where h': "insertBefore (h @ [?nd]) (length h) (first (rev [0..<length es])) = Some h'"
      "fresh_list h' (length h # rev [0..<length es])" "same (h @ [?nd]) h'"
    by (rule insert_front [OF h(3)]) auto
  have "lengthLoop h (first (rev [0..<length es])) 0 = Some (length es)"
    using lengthLoop_linked [of h "[]"] h(3) by (simp add: fresh_list_def)
  with h h' have "searchInit m es =
      Some (length es, \<lparr>f_store = h', f_entry = first (rev [0..<length es]),
        f_linearized = newBitset (length es div 2), f_cache = Map.empty, f_calls = [],
        f_longest = replicate (length es div 2) None, f_seqs = [], f_state = md_Init m\<rparr>)"
    by (simp add: searchInit_def makeLinkedEntries_def Let_def)
  moreover have "nodes_of h' es" using nodes_of_same [OF nodes_of_append [OF h(4)] h'(3)] .
  moreover have "length h' = Suc (length es)" using h'(3) h(2) by (simp add: same_def)
  ultimately show thesis using that h'(2) h(2) by (auto simp: fresh_list_def)
qed

end
