(* ===== verification/Linearizable.thy ===== *)
theory Linearizable
  imports Porcupine
begin

section \<open>Linearizability\<close>

text \<open>
  What the checker decides. A history is a list of call and return entries in the order of time; an
  operation precedes another when its return comes before the call of the other. A linearization is an
  order of all operations that extends this order and that the sequential system can run.

  \<open>walk\<close> builds linearizations from the front, the way the search does: the next operation is one whose
  call comes before the first return that is left. \<open>linearization_walk\<close> says that the orders found in
  this way are the linearizations, and \<open>alive\<close> is whether there is one from a given point of the search.
\<close>

subsection \<open>Specification\<close>

definition ids :: "'v entry list \<Rightarrow> int set" where
  "ids es = pe_id ` set es"

abbreviation isCall :: "'v entry \<Rightarrow> bool" where
  "isCall e \<equiv> pe_kind e = callEntry"

text \<open>Every operation of the history has one call and, after it, one return.\<close>

definition complete :: "'v entry list \<Rightarrow> bool" where
  "complete es \<longleftrightarrow>
     (\<forall>i \<in> ids es. \<exists>us c vs r ws. es = us @ c # vs @ r # ws \<and> isCall c \<and> \<not> isCall r \<and>
        pe_id c = i \<and> pe_id r = i \<and> i \<notin> ids us \<and> i \<notin> ids vs \<and> i \<notin> ids ws)"

fun precedes :: "'v entry list \<Rightarrow> int \<Rightarrow> int \<Rightarrow> bool" where
  "precedes [] i j = False"
| "precedes (e # es) i j =
     ((\<not> isCall e \<and> pe_id e = i \<and> (\<exists>c \<in> set es. isCall c \<and> pe_id c = j)) \<or> precedes es i j)"

definition beforeIn :: "'a list \<Rightarrow> 'a \<Rightarrow> 'a \<Rightarrow> bool" where
  "beforeIn xs i j \<longleftrightarrow> (\<exists>us vs. xs = us @ vs \<and> i \<in> set us \<and> j \<in> set vs)"

text \<open>A run of operations, each given by its number; \<open>f\<close> is what an operation does to a state.\<close>

fun run :: "('s \<Rightarrow> 'i \<Rightarrow> 's option) \<Rightarrow> 's \<Rightarrow> 'i list \<Rightarrow> 's option" where
  "run f s [] = Some s"
| "run f s (i # is) = do { s' \<leftarrow> f s i; run f s' is }"

definition linearization :: "('s \<Rightarrow> int \<Rightarrow> 's option) \<Rightarrow> 'v entry list \<Rightarrow> 's \<Rightarrow> int list \<Rightarrow> bool" where
  "linearization f es s order \<longleftrightarrow>
     distinct order \<and> set order = ids es \<and> run f s order \<noteq> None \<and>
     (\<forall>i j. precedes es i j \<longrightarrow> beforeIn order i j)"

text \<open>The step of the model for the operation with the given number.\<close>

definition entryOf :: "entryKind \<Rightarrow> 'v entry list \<Rightarrow> int \<Rightarrow> 'v entry option" where
  "entryOf k es i = List.find (\<lambda>e. pe_kind e = k \<and> pe_id e = i) es"

definition stepId :: "('v, 's) Model \<Rightarrow> 'v entry list \<Rightarrow> 's \<Rightarrow> int \<Rightarrow> 's option" where
  "stepId m es s i = do {
     c \<leftarrow> entryOf callEntry es i;
     r \<leftarrow> entryOf returnEntry es i;
     (ok, s') \<leftarrow> md_Step m s (pe_value c) (pe_value r);
     if ok then Some s' else None
   }"

definition linearizable :: "('v, 's) Model \<Rightarrow> 'v entry list \<Rightarrow> bool" where
  "linearizable m es \<longleftrightarrow> (\<exists>order. linearization (stepId m es) es (md_Init m) order)"

subsection \<open>Linearizations from the front\<close>

definition candidates :: "'v entry list \<Rightarrow> int list" where
  "candidates es = map pe_id (takeWhile isCall es)"

definition without :: "int \<Rightarrow> 'v entry list \<Rightarrow> 'v entry list" where
  "without i es = filter (\<lambda>e. pe_id e \<noteq> i) es"

fun walk :: "('s \<Rightarrow> int \<Rightarrow> 's option) \<Rightarrow> 'v entry list \<Rightarrow> 's \<Rightarrow> int list \<Rightarrow> ('v entry list \<times> 's) option" where
  "walk f es s [] = Some (es, s)"
| "walk f es s (i # is) =
     (if i \<in> set (candidates es) then do { s' \<leftarrow> f s i; walk f (without i es) s' is } else None)"

definition alive :: "('s \<Rightarrow> int \<Rightarrow> 's option) \<Rightarrow> 'v entry list \<Rightarrow> 's \<Rightarrow> bool" where
  "alive f es s \<longleftrightarrow> (\<exists>order s'. walk f es s order = Some ([], s'))"

lemma ids_simps [simp]:
  "ids [] = {}" "ids (e # es) = insert (pe_id e) (ids es)" "ids (us @ vs) = ids us \<union> ids vs"
  by (auto simp: ids_def)

lemma ids_empty [simp]: "ids es = {} \<longleftrightarrow> es = []"
  by (simp add: ids_def)

lemma not_in_ids: "i \<notin> ids es \<longleftrightarrow> (\<forall>e \<in> set es. pe_id e \<noteq> i)"
  by (auto simp: ids_def)

lemma ids_without [simp]: "ids (without i es) = ids es - {i}"
  by (auto simp: ids_def without_def)

lemma without_simps [simp]:
  "without i [] = []" "without i (us @ vs) = without i us @ without i vs"
  "without i (e # es) = (if pe_id e = i then without i es else e # without i es)"
  by (auto simp: without_def)

lemma without_absent [simp]: "i \<notin> ids es \<Longrightarrow> without i es = es"
  by (auto simp: without_def ids_def filter_id_conv)

lemma complete_E:
  assumes "complete es" and "i \<in> ids es"
  obtains us c vs r ws where "es = us @ c # vs @ r # ws" and "isCall c" and "\<not> isCall r"
    and "pe_id c = i" and "pe_id r = i" and "i \<notin> ids us" and "i \<notin> ids vs" and "i \<notin> ids ws"
  using assms unfolding complete_def by blast

lemma complete_without:
  assumes c: "complete es"
  shows "complete (without i es)"
  unfolding complete_def
proof
  fix j assume "j \<in> ids (without i es)"
  then have j: "j \<in> ids es" "j \<noteq> i" by auto
  obtain us c vs r ws where s: "es = us @ c # vs @ r # ws" "isCall c" "\<not> isCall r"
      "pe_id c = j" "pe_id r = j" "j \<notin> ids us" "j \<notin> ids vs" "j \<notin> ids ws" by (rule complete_E [OF c j(1)])
  then have "without i es = without i us @ c # without i vs @ r # without i ws" using j by simp
  with s show "\<exists>us c vs r ws. without i es = us @ c # vs @ r # ws \<and> isCall c \<and> \<not> isCall r \<and>
      pe_id c = j \<and> pe_id r = j \<and> j \<notin> ids us \<and> j \<notin> ids vs \<and> j \<notin> ids ws"
    by (intro exI [of _ "without i us"] exI [of _ c] exI [of _ "without i vs"] exI [of _ r] exI [of _ "without i ws"]) auto
qed

lemma precedes_without: "precedes (without i es) j k \<longleftrightarrow> precedes es j k \<and> j \<noteq> i \<and> k \<noteq> i"
  by (induction es) (auto simp: without_def)

lemma precedes_split:
  "\<not> isCall r \<Longrightarrow> c \<in> set vs \<Longrightarrow> isCall c \<Longrightarrow> precedes (us @ r # vs) (pe_id r) (pe_id c)"
  by (induction us) auto

lemma precedes_iff:
  "precedes es i j \<longleftrightarrow>
    (\<exists>us r vs c. es = us @ r # vs \<and> \<not> isCall r \<and> pe_id r = i \<and> c \<in> set vs \<and> isCall c \<and> pe_id c = j)"
proof (induction es)
  case (Cons e es)
  have "(\<exists>us r vs c. e # es = us @ r # vs \<and> \<not> isCall r \<and> pe_id r = i \<and> c \<in> set vs \<and> isCall c \<and> pe_id c = j) \<longleftrightarrow>
      (\<not> isCall e \<and> pe_id e = i \<and> (\<exists>c \<in> set es. isCall c \<and> pe_id c = j)) \<or>
      (\<exists>us r vs c. es = us @ r # vs \<and> \<not> isCall r \<and> pe_id r = i \<and> c \<in> set vs \<and> isCall c \<and> pe_id c = j)"
    by (auto simp: Cons_eq_append_conv)
  with Cons show ?case by simp
qed simp

lemma precedes_calls:
  assumes "precedes (us @ c # vs) j i" and "\<forall>e \<in> set us. isCall e" and "isCall c"
    and "\<forall>e \<in> set vs. isCall e \<longrightarrow> pe_id e \<noteq> i"
  shows False
proof -
  have "\<not> precedes vs j i" using assms(4) by (induction vs) auto
  then have "\<not> precedes (c # vs) j i" using assms(3) by simp
  with assms(1,2) show False by (induction us) auto
qed

lemma precedes_in: "precedes es i j \<Longrightarrow> i \<in> ids es \<and> j \<in> ids es"
  by (induction es) (auto simp: ids_def)

lemma beforeIn_Cons:
  assumes "distinct (x # xs)"
  shows "beforeIn (x # xs) i j \<longleftrightarrow> (i = x \<and> j \<in> set xs) \<or> beforeIn xs i j"
proof
  assume "beforeIn (x # xs) i j"
  then obtain us vs where u: "x # xs = us @ vs" "i \<in> set us" "j \<in> set vs" by (auto simp: beforeIn_def)
  then obtain us' where "us = x # us'" "xs = us' @ vs" by (cases us) auto
  with u show "(i = x \<and> j \<in> set xs) \<or> beforeIn xs i j" by (auto simp: beforeIn_def)
next
  assume "(i = x \<and> j \<in> set xs) \<or> beforeIn xs i j"
  then show "beforeIn (x # xs) i j"
  proof
    assume "i = x \<and> j \<in> set xs"
    then show ?thesis unfolding beforeIn_def by (intro exI [of _ "[x]"] exI [of _ xs]) simp
  next
    assume "beforeIn xs i j"
    then obtain us vs where "xs = us @ vs" "i \<in> set us" "j \<in> set vs" by (auto simp: beforeIn_def)
    then show ?thesis unfolding beforeIn_def by (intro exI [of _ "x # us"] exI [of _ vs]) simp
  qed
qed

lemma beforeIn_in: "beforeIn xs i j \<Longrightarrow> i \<in> set xs \<and> j \<in> set xs"
  by (auto simp: beforeIn_def)

lemma candidates_split:
  "i \<in> set (candidates es) \<longleftrightarrow> (\<exists>us c vs. es = us @ c # vs \<and> (\<forall>e \<in> set us. isCall e) \<and> isCall c \<and> pe_id c = i)"
proof
  assume "i \<in> set (candidates es)"
  then obtain c where c: "c \<in> set (takeWhile isCall es)" "pe_id c = i" by (auto simp: candidates_def)
  then obtain us vs where u: "takeWhile isCall es = us @ c # vs" by (meson split_list)
  then have "es = us @ c # vs @ dropWhile isCall es" using takeWhile_dropWhile_id [of isCall es] by (metis append.assoc append_Cons)
  moreover have "\<forall>e \<in> set (us @ c # vs). isCall e" using u by (metis set_takeWhileD)
  ultimately show "\<exists>us c vs. es = us @ c # vs \<and> (\<forall>e \<in> set us. isCall e) \<and> isCall c \<and> pe_id c = i"
    using c(2) by auto
next
  assume "\<exists>us c vs. es = us @ c # vs \<and> (\<forall>e \<in> set us. isCall e) \<and> isCall c \<and> pe_id c = i"
  then show "i \<in> set (candidates es)" by (auto simp: candidates_def takeWhile_append)
qed

lemma candidates_ids: "set (candidates es) \<subseteq> ids es"
  by (auto simp: candidates_def ids_def dest: set_takeWhileD)

lemma complete_call_unique:
  assumes c: "complete es" and s: "es = us @ c # vs" "isCall c"
  shows "\<exists>r \<in> set vs. \<not> isCall r \<and> pe_id r = pe_id c" and "\<forall>e \<in> set vs. isCall e \<longrightarrow> pe_id e \<noteq> pe_id c"
proof -
  obtain us' c' vs' r' ws' where t: "es = us' @ c' # vs' @ r' # ws'" "isCall c'" "\<not> isCall r'"
      "pe_id c' = pe_id c" "pe_id r' = pe_id c" "pe_id c \<notin> ids us'" "pe_id c \<notin> ids vs'" "pe_id c \<notin> ids ws'"
    using complete_E [OF c, of "pe_id c"] s(1) by (metis UnCI ids_simps(2,3) insertI1)
  have n: "c \<notin> set us'" "c \<notin> set vs'" "c \<notin> set ws'" "c \<noteq> r'" using t s(2) by (auto simp: ids_def)
  have "us' @ c' # vs' @ r' # ws' = us @ c # vs" using t(1) s(1) by simp
  then have "us = us' \<and> vs = vs' @ r' # ws'"
  proof (cases "length us' < length us")
    case True
    then have "c \<in> set (vs' @ r' # ws')"
      using \<open>us' @ c' # vs' @ r' # ws' = us @ c # vs\<close>
      by (auto simp: append_eq_append_conv2 append_eq_Cons_conv Cons_eq_append_conv)
    with n show ?thesis by auto
  next
    case False
    then have "length us' = length us \<or> c \<in> set us'"
      using \<open>us' @ c' # vs' @ r' # ws' = us @ c # vs\<close>
      by (auto simp: append_eq_append_conv2 append_eq_Cons_conv Cons_eq_append_conv)
    with n \<open>us' @ c' # vs' @ r' # ws' = us @ c # vs\<close> show ?thesis by auto
  qed
  with t show "\<exists>r \<in> set vs. \<not> isCall r \<and> pe_id r = pe_id c" "\<forall>e \<in> set vs. isCall e \<longrightarrow> pe_id e \<noteq> pe_id c"
    by (auto simp: not_in_ids)
qed

lemma complete_return:
  assumes "complete es" and "es \<noteq> []"
  shows "\<exists>e \<in> set es. \<not> isCall e"
proof (rule complete_E [OF assms(1), of "pe_id (hd es)"])
  show "pe_id (hd es) \<in> ids es" using assms(2) by (simp add: ids_def)
qed auto

lemma linearization_Cons:
  assumes c: "complete es"
  shows "linearization f es s (i # is) \<longleftrightarrow>
    i \<in> set (candidates es) \<and> (\<exists>s'. f s i = Some s' \<and> linearization f (without i es) s' is)"
proof
  assume l: "linearization f es s (i # is)"
  then have d: "distinct (i # is)" "set (i # is) = ids es" "run f s (i # is) \<noteq> None"
    and o: "\<And>j k. precedes es j k \<Longrightarrow> beforeIn (i # is) j k" by (auto simp: linearization_def)
  obtain s' where s': "f s i = Some s'" "run f s' is \<noteq> None" using d(3) by (cases "f s i") auto
  obtain us c vs r ws where t: "es = us @ c # vs @ r # ws" "isCall c" "pe_id c = i"
    using complete_E [OF c, of i] d(2) by (metis list.set_intros(1))
  have "isCall e" if e: "e \<in> set us" for e
  proof (rule ccontr)
    assume n: "\<not> isCall e"
    obtain as bs where "us = as @ e # bs" using split_list [OF e] by blast
    then have "precedes es (pe_id e) i" using precedes_split [OF n, of c "bs @ c # vs @ r # ws" as] t by simp
    then have "beforeIn is (pe_id e) i" using o beforeIn_Cons [OF d(1)] d(1) by auto
    then show False using beforeIn_in d(1) by fastforce
  qed
  then have "i \<in> set (candidates es)" using t unfolding candidates_split by blast
  moreover have "linearization f (without i es) s' is"
    unfolding linearization_def using d s' o beforeIn_Cons [OF d(1)] by (auto simp: precedes_without)
  ultimately show "i \<in> set (candidates es) \<and> (\<exists>s'. f s i = Some s' \<and> linearization f (without i es) s' is)"
    using s' by blast
next
  assume "i \<in> set (candidates es) \<and> (\<exists>s'. f s i = Some s' \<and> linearization f (without i es) s' is)"
  then obtain s' where i: "i \<in> set (candidates es)" and s': "f s i = Some s'" and l: "linearization f (without i es) s' is"
    by blast
  have d: "distinct (i # is)" "set (i # is) = ids es"
    using l i candidates_ids [of es] by (auto simp: linearization_def)
  obtain us c vs where u: "es = us @ c # vs" "\<forall>e \<in> set us. isCall e" "isCall c" "pe_id c = i"
    using i unfolding candidates_split by blast
  have "beforeIn (i # is) j k" if p: "precedes es j k" for j k
  proof -
    have k: "k \<noteq> i" using precedes_calls [of us c vs j i] p u complete_call_unique(2) [OF c u(1,3)] by auto
    show ?thesis
    proof (cases "j = i")
      case True
      then show ?thesis using k precedes_in [OF p] d beforeIn_Cons [OF d(1), of j k] by auto
    next
      case False
      then have "beforeIn is j k" using l k p by (auto simp: linearization_def precedes_without)
      then show ?thesis using beforeIn_Cons [OF d(1)] by blast
    qed
  qed
  then show "linearization f es s (i # is)" using d s' l by (auto simp: linearization_def)
qed

theorem linearization_walk:
  "complete es \<Longrightarrow> linearization f es s order \<longleftrightarrow> (\<exists>s'. walk f es s order = Some ([], s'))"
proof (induction order arbitrary: es s)
  case Nil
  have "precedes es i j \<Longrightarrow> es \<noteq> []" for i j by (cases es) auto
  then show ?case using ids_empty [of es] by (auto simp: linearization_def simp del: ids_empty)
next
  case (Cons i "is")
  have "linearization f (without i es) s' is \<longleftrightarrow> (\<exists>s''. walk f (without i es) s' is = Some ([], s''))" for s'
    by (rule Cons.IH [OF complete_without [OF Cons.prems]])
  with linearization_Cons [OF Cons.prems, of f s i "is"] show ?case by (auto simp: bind_eq_Some_conv)
qed

lemma linearizable_alive: "complete es \<Longrightarrow> linearizable m es \<longleftrightarrow> alive (stepId m es) es (md_Init m)"
  by (simp add: linearizable_def alive_def linearization_walk)

subsection \<open>Walks\<close>

lemma walk_append:
  "walk f es s (xs @ ys) = (case walk f es s xs of None \<Rightarrow> None | Some (es', s') \<Rightarrow> walk f es' s' ys)"
  by (induction xs arbitrary: es s) (auto split: option.splits Option.bind_splits)

lemma walk_rest:
  "walk f es s p = Some (es', s') \<Longrightarrow> es' = filter (\<lambda>e. pe_id e \<notin> set p) es"
proof (induction p arbitrary: es s)
  case (Cons i p)
  then obtain t where "walk f (without i es) t p = Some (es', s')" by (auto simp: bind_eq_Some_conv split: if_splits)
  then have "es' = filter (\<lambda>e. pe_id e \<notin> set p) (without i es)" by (rule Cons.IH)
  then show ?case by (auto simp: without_def intro: filter_cong)
qed simp

lemma walk_ids: "walk f es s p = Some (es', s') \<Longrightarrow> set p \<subseteq> ids es \<and> distinct p"
proof (induction p arbitrary: es s)
  case (Cons i p)
  then obtain t where "walk f (without i es) t p = Some (es', s')" "i \<in> set (candidates es)"
    by (auto simp: bind_eq_Some_conv split: if_splits)
  with Cons.IH [of "without i es" t] candidates_ids [of es] show ?case by auto
qed simp

lemma alive_step:
  assumes "i \<in> set (candidates es)" and "f s i = Some s'" and "alive f (without i es) s'"
  shows "alive f es s"
proof -
  obtain order t where "walk f (without i es) s' order = Some ([], t)" using assms(3) by (auto simp: alive_def)
  then have "walk f es s (i # order) = Some ([], t)" using assms(1,2) by simp
  then show ?thesis unfolding alive_def by blast
qed

lemma alive_Cons:
  assumes "alive f es s" and "es \<noteq> []"
  obtains i s' where "i \<in> set (candidates es)" and "f s i = Some s'" and "alive f (without i es) s'"
proof -
  obtain order t where w: "walk f es s order = Some ([], t)" using assms(1) by (auto simp: alive_def)
  with assms(2) obtain i "is" where "order = i # is" by (cases order) auto
  with w show thesis using that unfolding alive_def by (auto simp: bind_eq_Some_conv split: if_splits)
qed

lemma alive_walk: "walk f es s p = Some (es', s') \<Longrightarrow> alive f es' s' \<Longrightarrow> alive f es s"
  unfolding alive_def using walk_append [of f es s p] by (metis (no_types, lifting) case_prod_conv option.simps(5))

text \<open>A state that simulates another is alive when the other is.\<close>

lemma alive_simulates:
  assumes sim: "\<And>s t i s'. eqv s t \<Longrightarrow> f s i = Some s' \<Longrightarrow> \<exists>t'. f t i = Some t' \<and> eqv s' t'"
    and "eqv s t" and "alive f es s"
  shows "alive f es t"
proof -
  have "\<exists>t'. walk f es t order = Some (es', t') \<and> eqv s' t'" if "eqv s t" "walk f es s order = Some (es', s')" for s t s' es es' order
    using that
  proof (induction order arbitrary: es s t)
    case (Cons i "is")
    then obtain u where u: "i \<in> set (candidates es)" "f s i = Some u" "walk f (without i es) u is = Some (es', s')"
      by (auto simp: bind_eq_Some_conv split: if_splits)
    with sim [OF Cons.prems(1) u(2)] Cons.IH show ?case by force
  qed simp
  with assms(2,3) show ?thesis unfolding alive_def by blast
qed

end
