(* ===== verification/PorcSearch.thy ===== *)
theory PorcSearch
  imports PorcList Linearizable
begin

section \<open>The search of the checker\<close>

text \<open>
  The invariant of the loop of \<^verbatim>\<open>checkSingle\<close>, and that every iteration keeps it and makes a measure
  smaller. The list in the store is what is left of the history; the stack is a walk from the start;
  a configuration in the cache is one of the stack or leads nowhere; and the calls before the current
  entry lead nowhere either.
\<close>

subsection \<open>The setting\<close>

text \<open>
  What is asked of the equality of states: it is reflexive, and equal states allow the same steps to
  equal states. \<open>no_panic\<close>: the model accepts the values of the history.
\<close>

definition equal_ok :: "('v, 's) Model \<Rightarrow> bool" where
  "equal_ok m \<longleftrightarrow>
     (\<exists>eq. md_Equal m = Some eq \<and> (\<forall>s. eq s s) \<and>
       (\<forall>s t i out s'. eq s t \<and> md_Step m s i out = Some (True, s') \<longrightarrow>
          (\<exists>t'. md_Step m t i out = Some (True, t') \<and> eq s' t')))"

definition no_panic :: "('v, 's) Model \<Rightarrow> 'v entry list \<Rightarrow> bool" where
  "no_panic m es \<longleftrightarrow>
     (\<forall>c \<in> set es. \<forall>r \<in> set es. isCall c \<and> \<not> isCall r \<and> pe_id c = pe_id r \<longrightarrow>
        (\<forall>s. md_Step m s (pe_value c) (pe_value r) \<noteq> None))"

definition history_fits :: "('v, 's) Model \<Rightarrow> 'v entry list \<Rightarrow> bool" where
  "history_fits m es \<longleftrightarrow> complete es \<and> ids es = int ` {..<length es div 2} \<and> no_panic m es \<and> equal_ok m"

text \<open>The entry of a node and the nodes that are left when some operations are linearized.\<close>

abbreviation ent :: "'v entry list \<Rightarrow> nat \<Rightarrow> 'v entry" where
  "ent es a \<equiv> rev es ! a"

definition left :: "'v entry list \<Rightarrow> int set \<Rightarrow> nat list" where
  "left es L = filter (\<lambda>a. pe_id (ent es a) \<notin> L) (rev [0..<length es])"

definition rest :: "'v entry list \<Rightarrow> int set \<Rightarrow> 'v entry list" where
  "rest es L = filter (\<lambda>e. pe_id e \<notin> L) es"

definition base :: "'v store \<Rightarrow> 'v entry list \<Rightarrow> bool" where
  "base h es \<longleftrightarrow> nodes_of h es \<and> linked h (length es # rev [0..<length es]) \<and> length h = Suc (length es)"

lemma not_call: "pe_kind e \<noteq> callEntry \<longleftrightarrow> pe_kind e = returnEntry"
  by (cases "pe_kind e") auto

lemma map_ent: "map (ent es) (rev [0..<length es]) = es"
  by (rule nth_equalityI) (simp_all add: rev_nth)

lemma map_left: "map (ent es) (left es L) = rest es L"
  using map_ent [of es] filter_map [of "\<lambda>e. pe_id e \<notin> L" "ent es" "rev [0..<length es]"]
  by (simp add: left_def rest_def comp_def)

lemma left_empty: "left es {} = rev [0..<length es]"
  by (simp add: left_def)

lemma rest_empty [simp]: "rest es {} = es"
  by (simp add: rest_def)

lemma rest_insert: "rest es (insert i L) = without i (rest es L)"
  by (auto simp: rest_def without_def intro: filter_cong)

lemma left_insert: "left es (insert i L) = filter (\<lambda>a. pe_id (ent es a) \<noteq> i) (left es L)"
  by (auto simp: left_def intro: filter_cong)

lemma left_in: "a \<in> set (left es L) \<Longrightarrow> a < length es \<and> pe_id (ent es a) \<notin> L"
  by (auto simp: left_def)

lemma complete_rest: "finite L \<Longrightarrow> complete es \<Longrightarrow> complete (rest es L)"
  by (induction L rule: finite_induct) (auto simp: rest_insert complete_without)

lemma ent_in: "a < length es \<Longrightarrow> ent es a \<in> set es"
  by (metis length_rev nth_mem set_rev)

subsection \<open>Entries and their matches\<close>

lemma entry_unique:
  assumes c: "complete es" and "e \<in> set es" "e' \<in> set es" "pe_kind e = pe_kind e'" "pe_id e = pe_id e'"
  shows "e = e'"
proof (rule complete_E [OF c, of "pe_id e"])
  show "pe_id e \<in> ids es" using assms(2) by (simp add: ids_def)
next
  fix us c vs r ws
  assume s: "es = us @ c # vs @ r # ws" "isCall c" "\<not> isCall r" "pe_id e \<notin> ids us" "pe_id e \<notin> ids vs" "pe_id e \<notin> ids ws"
  have "e \<in> {c, r}" "e' \<in> {c, r}" using assms s by (auto simp: not_in_ids)
  with s assms(4) show "e = e'" by auto
qed

lemma complete_distinct:
  assumes c: "complete es"
  shows "distinct es"
proof (rule ccontr)
  assume "\<not> distinct es"
  then obtain as bs cs x where x: "es = as @ [x] @ bs @ [x] @ cs" using not_distinct_decomp by blast
  let ?f = "filter (\<lambda>e. pe_id e = pe_id x)"
  show False
  proof (rule complete_E [OF c, of "pe_id x"])
    show "pe_id x \<in> ids es" using x by (simp add: ids_def)
  next
    fix us c vs r ws
    assume s: "es = us @ c # vs @ r # ws" "isCall c" "\<not> isCall r" "pe_id c = pe_id x" "pe_id r = pe_id x"
      "pe_id x \<notin> ids us" "pe_id x \<notin> ids vs" "pe_id x \<notin> ids ws"
    then have "?f es = [c, r]" by (auto simp: not_in_ids filter_empty_conv)
    moreover have "?f es = ?f as @ x # ?f bs @ x # ?f cs" using x by simp
    ultimately have "c = x \<and> r = x" by (auto simp: Cons_eq_append_conv append_eq_Cons_conv)
    with s show False by simp
  qed
qed

lemma entryOf_ent:
  assumes "complete es" and "e \<in> set es"
  shows "entryOf (pe_kind e) es (pe_id e) = Some e"
proof -
  have "entryOf (pe_kind e) es (pe_id e) \<noteq> None" using assms(2) by (auto simp: entryOf_def find_None_iff)
  then obtain e' where e': "entryOf (pe_kind e) es (pe_id e) = Some e'" by auto
  then have "e' \<in> set es" "pe_kind e' = pe_kind e" "pe_id e' = pe_id e"
    by (auto simp: entryOf_def find_Some_iff)
  with e' entry_unique [OF assms(1) _ assms(2)] show ?thesis by simp
qed

text \<open>The match of a call node is the node of its return, which is further along in the list.\<close>

lemma node_match:
  assumes c: "complete es" and n: "nodes_of h es" and l: "left es L = us @ a # vs" and k: "isCall (ent es a)"
  obtains b vs1 vs2 where "n_match (h ! a) = Some b" and "vs = vs1 @ b # vs2" and "\<not> isCall (ent es b)"
    and "pe_id (ent es b) = pe_id (ent es a)" and "b < length es"
proof -
  have a: "a < length es" "pe_id (ent es a) \<notin> L" using left_in [of a es L] l by auto
  have sorted: "sorted_wrt (>) (left es L)" unfolding left_def by (intro sorted_wrt_filter) (simp add: sorted_wrt_rev)
  have e: "rest es L = map (ent es) us @ ent es a # map (ent es) vs" using map_left [of es L] l by simp
  have "es = map (ent es) (rev [Suc a..<length es]) @ ent es a # map (ent es) (rev [0..<a])"
  proof -
    have "[0..<length es] = [0..<a] @ a # [Suc a..<length es]"
      using a(1) upt_add_eq_append [of 0 a "length es - a"] upt_conv_Cons [of a "length es"] by simp
    then show ?thesis using map_ent [of es] by simp
  qed
  from complete_call_unique(1) [OF c this k] obtain b' where "b' < a" "\<not> isCall (ent es b')" "pe_id (ent es b') = pe_id (ent es a)"
    by auto
  moreover have "case n_match (h ! a) of
      Some b \<Rightarrow> b < a \<and> pe_kind (ent es b) = returnEntry \<and> pe_id (ent es b) = pe_id (ent es a)
    | None \<Rightarrow> \<forall>b < a. \<not> (pe_kind (ent es b) = returnEntry \<and> pe_id (ent es b) = pe_id (ent es a))"
    using n a(1) k by (simp add: nodes_of_def)
  ultimately obtain b where b: "n_match (h ! a) = Some b" "b < a" "\<not> isCall (ent es b)" "pe_id (ent es b) = pe_id (ent es a)"
    by (cases "n_match (h ! a)") (auto simp: not_call)
  then have "b \<in> set (left es L)" using a by (simp add: left_def)
  then have "b \<in> set vs" using sorted l b(2) by (auto simp: sorted_wrt_append)
  then obtain vs1 vs2 where "vs = vs1 @ b # vs2" by (meson split_list)
  with b a show thesis using that by auto
qed

subsection \<open>The stack\<close>

definition deadAfter :: "('v, 's) Model \<Rightarrow> 'v entry list \<Rightarrow> int set \<Rightarrow> 's \<Rightarrow> int \<Rightarrow> bool" where
  "deadAfter m es L s i \<longleftrightarrow>
     (\<forall>s'. stepId m es s i = Some s' \<longrightarrow> \<not> alive (stepId m es) (rest es (insert i L)) s')"

text \<open>
  \<open>trail m es h0 calls p h s\<close>: the stack \<open>calls\<close> linearizes the operations \<open>p\<close>, in this order, from the
  beginning, with the store \<open>h\<close> and the state \<open>s\<close> as the result; the calls that were passed over on the
  way lead nowhere.
\<close>

inductive trail ::
  "('v, 's) Model \<Rightarrow> 'v entry list \<Rightarrow> 'v store \<Rightarrow> (nat \<times> 's) list \<Rightarrow> int list \<Rightarrow> 'v store \<Rightarrow> 's \<Rightarrow> bool"
  for m es h0 where
  Start: "trail m es h0 [] [] h0 (md_Init m)"
| Push: "trail m es h0 calls p h s \<Longrightarrow> left es (set p) = us @ a # vs \<Longrightarrow>
    (\<forall>u \<in> set us. isCall (ent es u) \<and> deadAfter m es (set p) s (pe_id (ent es u))) \<Longrightarrow>
    isCall (ent es a) \<Longrightarrow> stepId m es s (pe_id (ent es a)) = Some s' \<Longrightarrow> lift h (Some a) = Some h' \<Longrightarrow>
    trail m es h0 (calls @ [(a, s)]) (p @ [pe_id (ent es a)]) h' s'"

inductive_cases trail_snocE: "trail m es h0 (calls @ [c]) p h s"
inductive_cases trail_NilE: "trail m es h0 [] p h s"

lemma left_filter_pair:
  assumes c: "complete es" and l: "left es L = us @ a # vs1 @ b # vs2" and k: "isCall (ent es a)" "\<not> isCall (ent es b)"
    and i: "pe_id (ent es b) = pe_id (ent es a)"
  shows "left es (insert (pe_id (ent es a)) L) = us @ vs1 @ vs2"
proof -
  have d: "distinct (left es L)" by (simp add: left_def)
  have "pe_id (ent es x) \<noteq> pe_id (ent es a)" if x: "x \<in> set us \<union> set vs1 \<union> set vs2" for x
  proof
    assume "pe_id (ent es x) = pe_id (ent es a)"
    moreover have xa: "x < length es" "a < length es" "b < length es" using l x left_in [of _ es L] by auto
    ultimately have "ent es x = ent es a \<or> ent es x = ent es b"
      using entry_unique [OF c] ent_in k i by (metis entryKind.exhaust)
    then have "x = a \<or> x = b" using xa complete_distinct [OF c] by (simp add: nth_eq_iff_index_eq)
    then show False using d l x by auto
  qed
  then show ?thesis using l i unfolding left_insert by (auto simp: filter_id_conv)
qed

lemma lift_left:
  assumes c: "complete es" and n: "nodes_of h es" and k: "linked h (length es # left es L)"
    and l: "left es L = us @ a # vs" and e: "isCall (ent es a)"
  obtains h' where "lift h (Some a) = Some h'" and "linked h' (length es # left es (insert (pe_id (ent es a)) L))"
    and "same h h'" and "unlift h' (Some a) = Some h"
proof -
  obtain b vs1 vs2 where b: "n_match (h ! a) = Some b" "vs = vs1 @ b # vs2" "\<not> isCall (ent es b)"
      "pe_id (ent es b) = pe_id (ent es a)" using node_match [OF c n l e] by metis
  obtain us' q where u: "length es # us = us' @ [q]" by (metis list.distinct(1) rev_exhaust)
  have l': "length es # left es L = us' @ q # a # vs1 @ b # vs2"
    using arg_cong [OF u, of "\<lambda>x. x @ a # vs"] l b(2) by simp
  have "left es (insert (pe_id (ent es a)) L) = us @ vs1 @ vs2"
    using left_filter_pair [OF c] l b e by simp
  then have "length es # left es (insert (pe_id (ent es a)) L) = us' @ q # vs1 @ vs2"
    using arg_cong [OF u, of "\<lambda>x. x @ vs1 @ vs2"] by simp
  with that lift_ok [of h us' q a vs1 b vs2] k l' b(1) show thesis by metis
qed

lemma rest_split: "left es L = us @ a # vs \<Longrightarrow> rest es L = map (ent es) us @ ent es a # map (ent es) vs"
  using map_left [of es L] by simp

lemma candidate_left:
  assumes "left es L = us @ a # vs" and "\<forall>u \<in> set us. isCall (ent es u)" and "isCall (ent es a)"
  shows "pe_id (ent es a) \<in> set (candidates (rest es L))"
  unfolding candidates_split rest_split [OF assms(1)] using assms(2,3) by fastforce

lemma trail_facts:
  assumes "trail m es h0 calls p h s" and f: "history_fits m es" and b: "base h0 es"
  shows "walk (stepId m es) es (md_Init m) p = Some (rest es (set p), s)"
    and "linked h (length es # left es (set p))" and "same h0 h" and "nodes_of h es"
    and "p = map (\<lambda>(a, s). pe_id (ent es a)) calls" and "\<forall>(a, s) \<in> set calls. a < length es"
  using assms(1)
proof (induction rule: trail.induct)
  case Start
  {
    case 1 show ?case by simp
  next
    case 2 show ?case using b by (simp add: base_def left_empty)
  next
    case 3 show ?case by simp
  next
    case 4 show ?case using b by (simp add: base_def)
  next
    case 5 show ?case by simp
  next
    case 6 show ?case by simp
  }
next
  case (Push calls p h s us a vs s' h')
  have c: "complete es" using f by (simp add: history_fits_def)
  have w: "walk (stepId m es) (rest es (set p)) s [pe_id (ent es a)] = Some (rest es (set (p @ [pe_id (ent es a)])), s')"
    using candidate_left [of es "set p" us a vs] Push.hyps by (simp add: rest_insert)
  obtain h2 where h2: "lift h (Some a) = Some h2" "linked h2 (length es # left es (set (p @ [pe_id (ent es a)])))" "same h h2"
    using lift_left [OF c Push.IH(4,2) Push.hyps(2,4)] by auto
  {
    case 1 show ?case using Push.IH(1) w by (simp add: walk_append)
  next
    case 2 show ?case using h2 Push.hyps by simp
  next
    case 3 show ?case using h2 Push.hyps Push.IH(3) same_trans by auto
  next
    case 4 show ?case using h2 Push.hyps Push.IH(4) nodes_of_same by fastforce
  next
    case 5 show ?case using Push.IH(5) by simp
  next
    case 6 show ?case using Push.IH(6) Push.hyps(2) left_in [of a es "set p"] by auto
  }
qed

subsection \<open>The invariant\<close>

text \<open>The current entry: all the calls that the list has before it lead nowhere.\<close>

definition at_entry :: "('v, 's) Model \<Rightarrow> 'v entry list \<Rightarrow> int list \<Rightarrow> ('v, 's) search \<Rightarrow> bool" where
  "at_entry m es p st \<longleftrightarrow>
     (left es (set p) = [] \<or>
      (\<exists>us a vs. left es (set p) = us @ a # vs \<and> f_entry st = Some a \<and>
         (\<forall>u \<in> set us. isCall (ent es u) \<and> deadAfter m es (set p) (f_state st) (pe_id (ent es u)))))"

text \<open>A cached configuration was reached by some order, and is on the stack or leads nowhere.\<close>

definition cache_ok :: "('v, 's) Model \<Rightarrow> 'v entry list \<Rightarrow> int list \<Rightarrow> 's cache \<Rightarrow> bool" where
  "cache_ok m es p cache \<longleftrightarrow>
     (\<forall>hash. \<forall>c \<in> set (bucket cache hash).
        bitset_hash (ce_linearized c) = hash \<and> length (ce_linearized c) = length (newBitset (length es div 2)) \<and>
        (\<exists>q. walk (stepId m es) es (md_Init m) q = Some (rest es (set q), ce_state c) \<and>
             elems (ce_linearized c) = nat ` set q \<and>
             ((\<exists>k. q = take k p) \<or> \<not> alive (stepId m es) (rest es (set q)) (ce_state c))))"

text \<open>A pointer of \<^verbatim>\<open>longest\<close> leads to a linearizable prefix with the operation in it.\<close>

definition pointers_ok :: "nat \<Rightarrow> int list list \<Rightarrow> nat option list \<Rightarrow> bool" where
  "pointers_ok n seqs longest \<longleftrightarrow>
     length longest = n \<and>
     (\<forall>i < n. \<forall>ptr. longest ! i = Some ptr \<longrightarrow> ptr < length seqs \<and> int i \<in> set (seqs ! ptr))"

definition longest_ok :: "('v, 's) Model \<Rightarrow> 'v entry list \<Rightarrow> ('v, 's) search \<Rightarrow> bool" where
  "longest_ok m es st \<longleftrightarrow>
     pointers_ok (length es div 2) (f_seqs st) (f_longest st) \<and>
     (\<forall>q \<in> set (f_seqs st). walk (stepId m es) es (md_Init m) q \<noteq> None)"

definition search_inv :: "('v, 's) Model \<Rightarrow> 'v entry list \<Rightarrow> 'v store \<Rightarrow> int list \<Rightarrow> ('v, 's) search \<Rightarrow> bool" where
  "search_inv m es h0 p st \<longleftrightarrow>
     trail m es h0 (f_calls st) p (f_store st) (f_state st) \<and>
     elems (f_linearized st) = nat ` set p \<and> length (f_linearized st) = length (newBitset (length es div 2)) \<and>
     at_entry m es p st \<and> cache_ok m es p (f_cache st) \<and> longest_ok m es st"

end
