(* ===== verification/PorcStep.thy ===== *)
theory PorcStep
  imports PorcSearch
begin

section \<open>The iterations of the search\<close>

text \<open>
  Each branch of the loop of \<^verbatim>\<open>checkSingle\<close> keeps the invariant of the theory \<open>PorcSearch\<close>: passing
  over a call, linearizing a call, and taking a call back at a return.
\<close>

subsection \<open>Reading the store\<close>

lemma linked_next: "linked h (us @ a # vs) \<Longrightarrow> n_next (h ! a) = first vs \<and> a < length h"
  using seg_append [of h us a vs] by (auto simp: linked_def first_def split: list.splits)

lemma linked_left_next:
  "linked h (length es # left es L) \<Longrightarrow> left es L = us @ a # vs \<Longrightarrow> n_next (h ! a) = first vs \<and> a < length h"
  using linked_next [of h "length es # us" a vs] by simp

lemma linked_head: "linked h (n # xs) \<Longrightarrow> n_next (h ! n) = first xs \<and> n < length h"
  using linked_next [of h "[]" n xs] by simp

lemma node_fields:
  assumes "nodes_of h es" and "a < length es"
  shows "n_id (h ! a) = pe_id (ent es a)" and "n_value (h ! a) = Some (pe_value (ent es a))"
    and "\<not> isCall (ent es a) \<Longrightarrow> n_match (h ! a) = None" and "a < length h"
  using assms by (auto simp: nodes_of_def not_call)

lemma fits_id:
  assumes "history_fits m es" and "a < length es"
  shows "0 \<le> pe_id (ent es a)" and "nat (pe_id (ent es a)) < length es div 2"
proof -
  have "pe_id (ent es a) \<in> ids es" using ent_in [OF assms(2)] by (simp add: ids_def)
  then show "0 \<le> pe_id (ent es a)" "nat (pe_id (ent es a)) < length es div 2"
    using assms(1) by (auto simp: history_fits_def)
qed

lemma fits_nat_inj:
  assumes "history_fits m es" and "A \<subseteq> ids es" and "B \<subseteq> ids es" and "nat ` A = nat ` B"
  shows "A = B"
proof -
  have "inj_on nat (ids es)" using assms(1) by (auto simp: history_fits_def inj_on_def)
  with assms(2-4) show ?thesis by (simp add: inj_on_image_eq_iff)
qed

lemma step_value:
  assumes f: "history_fits m es" and "a < length es" "b < length es" "isCall (ent es a)" "\<not> isCall (ent es b)"
    "pe_id (ent es b) = pe_id (ent es a)"
  obtains ok s' where "md_Step m s (pe_value (ent es a)) (pe_value (ent es b)) = Some (ok, s')"
    and "stepId m es s (pe_id (ent es a)) = (if ok then Some s' else None)"
proof -
  have c: "complete es" using f by (simp add: history_fits_def)
  have "entryOf callEntry es (pe_id (ent es a)) = Some (ent es a)"
    using entryOf_ent [OF c ent_in [OF assms(2)]] assms(4) by simp
  moreover have "entryOf returnEntry es (pe_id (ent es a)) = Some (ent es b)"
    using entryOf_ent [OF c ent_in [OF assms(3)]] assms(5,6) by (simp add: not_call)
  moreover obtain ok s' where "md_Step m s (pe_value (ent es a)) (pe_value (ent es b)) = Some (ok, s')"
    using f assms ent_in [of a es] ent_in [of b es] by (force simp: history_fits_def no_panic_def)
  ultimately show thesis using that by (simp add: stepId_def)
qed

subsection \<open>The cache\<close>

lemma cacheSearch_eq:
  "md_Equal m = Some eq \<Longrightarrow>
   cacheSearch m cs e = Some (\<exists>c \<in> set cs. ce_linearized e = ce_linearized c \<and> eq (ce_state e) (ce_state c))"
  by (induction cs) (auto simp: callEqual_def equals_eq)

lemma bucket_add:
  "bucket (cache(h \<mapsto> bucket cache h @ [c])) x = (if x = h then bucket cache h @ [c] else bucket cache x)"
  by (simp add: bucket_def)

lemma cache_mono:
  assumes "cache_ok m es p cache"
    and "\<And>k t. walk (stepId m es) es (md_Init m) (take k p) = Some (rest es (set (take k p)), t) \<Longrightarrow>
      (\<exists>j. take k p = take j p') \<or> \<not> alive (stepId m es) (rest es (set (take k p))) t"
  shows "cache_ok m es p' cache"
  unfolding cache_ok_def
proof (intro allI ballI)
  fix hash c assume "c \<in> set (bucket cache hash)"
  then obtain q where q: "bitset_hash (ce_linearized c) = hash" "length (ce_linearized c) = length (newBitset (length es div 2))"
      "walk (stepId m es) es (md_Init m) q = Some (rest es (set q), ce_state c)" "elems (ce_linearized c) = nat ` set q"
      "(\<exists>k. q = take k p) \<or> \<not> alive (stepId m es) (rest es (set q)) (ce_state c)"
    using assms(1) unfolding cache_ok_def by blast
  then have "(\<exists>k. q = take k p') \<or> \<not> alive (stepId m es) (rest es (set q)) (ce_state c)" using assms(2) by blast
  with q show "bitset_hash (ce_linearized c) = hash \<and> length (ce_linearized c) = length (newBitset (length es div 2)) \<and>
      (\<exists>q. walk (stepId m es) es (md_Init m) q = Some (rest es (set q), ce_state c) \<and> elems (ce_linearized c) = nat ` set q \<and>
        ((\<exists>k. q = take k p') \<or> \<not> alive (stepId m es) (rest es (set q)) (ce_state c)))" by blast
qed

definition cached :: "('v, 's) search \<Rightarrow> (nat set \<times> 's) set" where
  "cached st = (\<Union>hash. (\<lambda>c. (elems (ce_linearized c), ce_state c)) ` set (bucket (f_cache st) hash))"

text \<open>All configurations that some order of operations reaches.\<close>

definition space :: "('v, 's) Model \<Rightarrow> 'v entry list \<Rightarrow> (nat set \<times> 's) set" where
  "space m es = {(nat ` set q, s) | q r s. walk (stepId m es) es (md_Init m) q = Some (r, s)}"

lemma finite_space: "finite (space m es)"
proof -
  have "finite {q. set q \<subseteq> ids es \<and> distinct q}"
    by (rule finite_subset_distinct) (simp add: ids_def)
  moreover have "space m es \<subseteq>
      (\<lambda>q. (nat ` set q, snd (the (walk (stepId m es) es (md_Init m) q)))) ` {q. set q \<subseteq> ids es \<and> distinct q}"
  proof
    fix x assume "x \<in> space m es"
    then obtain q r s where "x = (nat ` set q, s)" "walk (stepId m es) es (md_Init m) q = Some (r, s)"
      by (auto simp: space_def)
    then show "x \<in> (\<lambda>q. (nat ` set q, snd (the (walk (stepId m es) es (md_Init m) q)))) ` {q. set q \<subseteq> ids es \<and> distinct q}"
      using walk_ids [of "stepId m es" es "md_Init m" q r s] by (intro image_eqI [of _ _ q]) auto
  qed
  ultimately show ?thesis by (meson finite_imageI finite_subset)
qed

lemma cached_space: "cache_ok m es p (f_cache st) \<Longrightarrow> cached st \<subseteq> space m es"
  unfolding cached_def space_def cache_ok_def by fastforce

subsection \<open>The measure\<close>

definition ahead :: "'v entry list \<Rightarrow> int list \<Rightarrow> ('v, 's) search \<Rightarrow> nat" where
  "ahead es p st = length (dropWhile (\<lambda>a. Some a \<noteq> f_entry st) (left es (set p)))"

definition smaller :: "('v, 's) Model \<Rightarrow> 'v entry list \<Rightarrow> ((int list \<times> ('v, 's) search) \<times> (int list \<times> ('v, 's) search)) set" where
  "smaller m es = inv_image (less_than <*lex*> less_than <*lex*> less_than)
     (\<lambda>(p, st). (card (space m es - cached st), length (f_calls st), ahead es p st))"

lemma wf_smaller: "wf (smaller m es)"
  unfolding smaller_def by (intro wf_inv_image wf_lex_prod wf_less_than)

lemma left_distinct: "distinct (left es L)"
  by (simp add: left_def)

lemma ahead_at: "left es (set p) = us @ a # vs \<Longrightarrow> f_entry st = Some a \<Longrightarrow> ahead es p st = Suc (length vs)"
proof -
  assume l: "left es (set p) = us @ a # vs" and e: "f_entry st = Some a"
  have "a \<notin> set us" using l left_distinct [of es "set p"] by simp
  then have "dropWhile (\<lambda>x. Some x \<noteq> f_entry st) (us @ a # vs) = a # vs"
    using e by (subst dropWhile_append2) auto
  with l show ?thesis by (simp add: ahead_def)
qed

subsection \<open>Passing over a call\<close>

lemma inv_advance:
  assumes i: "search_inv m es h0 p st" and l: "left es (set p) = us @ a # vs" and e: "f_entry st = Some a"
    and us: "\<forall>u \<in> set us. isCall (ent es u) \<and> deadAfter m es (set p) (f_state st) (pe_id (ent es u))"
    and a: "isCall (ent es a)" "deadAfter m es (set p) (f_state st) (pe_id (ent es a))" and v: "vs \<noteq> []"
  shows "search_inv m es h0 p (st\<lparr>f_entry := first vs\<rparr>)" and "((p, st\<lparr>f_entry := first vs\<rparr>), (p, st)) \<in> smaller m es"
proof -
  let ?st = "st\<lparr>f_entry := first vs\<rparr>"
  obtain b vs' where b: "vs = b # vs'" using v by (cases vs) auto
  have l': "left es (set p) = (us @ [a]) @ b # vs'" using l b by simp
  have "at_entry m es p ?st"
    unfolding at_entry_def using l' us a b by (intro disjI2 exI [of _ "us @ [a]"] exI [of _ b] exI [of _ vs']) (auto simp: first_def)
  with i show "search_inv m es h0 p ?st" by (simp add: search_inv_def longest_ok_def)
  have "ahead es p ?st = Suc (length vs')" by (rule ahead_at [OF l']) (simp add: b first_def)
  moreover have "ahead es p st = Suc (length vs)" by (rule ahead_at [OF l e])
  ultimately show "((p, ?st), (p, st)) \<in> smaller m es" by (simp add: smaller_def cached_def b)
qed

text \<open>A configuration that the cache has already leads nowhere: it is larger than those of the stack.\<close>

lemma found_dead:
  assumes f: "history_fits m es" and i: "cache_ok m es p cache" and eq: "md_Equal m = Some eq"
    and c: "c \<in> set (bucket cache hash)" and x: "elems (ce_linearized c) = insert (nat x) (nat ` set p)"
      "x \<in> ids es" "x \<notin> set p" "set p \<subseteq> ids es" and s: "eq s' (ce_state c)"
  shows "\<not> alive (stepId m es) (rest es (insert x (set p))) s'"
proof -
  obtain q where q: "walk (stepId m es) es (md_Init m) q = Some (rest es (set q), ce_state c)"
      "elems (ce_linearized c) = nat ` set q" "(\<exists>k. q = take k p) \<or> \<not> alive (stepId m es) (rest es (set q)) (ce_state c)"
    using i c unfolding cache_ok_def by blast
  have "set q \<subseteq> ids es" using walk_ids [OF q(1)] by simp
  then have sq: "set q = insert x (set p)" using fits_nat_inj [OF f, of "set q" "insert x (set p)"] q(2) x by auto
  then have "\<not> (\<exists>k. q = take k p)" using x(3) by (metis in_set_takeD insertI1)
  then have dead: "\<not> alive (stepId m es) (rest es (insert x (set p))) (ce_state c)" using q(3) sq by simp
  have sim: "\<exists>t'. stepId m es t i = Some t' \<and> eq s' t'" if e: "eq s t" "stepId m es s i = Some s'" for s t i s'
  proof -
    obtain c r where c: "entryOf callEntry es i = Some c" "entryOf returnEntry es i = Some r"
        "md_Step m s (pe_value c) (pe_value r) = Some (True, s')"
      using e(2) by (auto simp: stepId_def bind_eq_Some_conv split: if_splits)
    then obtain t' where "md_Step m t (pe_value c) (pe_value r) = Some (True, t')" "eq s' t'"
      using f eq e(1) unfolding history_fits_def equal_ok_def by force
    with c show ?thesis by (simp add: stepId_def)
  qed
  show ?thesis
  proof
    assume "alive (stepId m es) (rest es (insert x (set p))) s'"
    then have "alive (stepId m es) (rest es (insert x (set p))) (ce_state c)"
      by (rule alive_simulates [where eqv = eq, rotated 2]) (use sim s in auto)
    with dead show False by contradiction
  qed
qed

subsection \<open>Linearizing a call\<close>

lemma at_entry_first:
  assumes "f_entry st = first (left es (set p))"
  shows "at_entry m es p st"
proof (cases "left es (set p)")
  case (Cons a vs)
  with assms show ?thesis
    unfolding at_entry_def by (intro disjI2 exI [of _ "[]"] exI [of _ a] exI [of _ vs]) (simp add: first_def)
qed (simp add: at_entry_def)

lemma inv_push:
  assumes f: "history_fits m es" and b: "base h0 es" and i: "search_inv m es h0 p st"
    and l: "left es (set p) = us @ a # vs" and e: "f_entry st = Some a"
    and us: "\<forall>u \<in> set us. isCall (ent es u) \<and> deadAfter m es (set p) (f_state st) (pe_id (ent es u))"
    and a: "isCall (ent es a)" "stepId m es (f_state st) (pe_id (ent es a)) = Some s'"
    and h: "lift (f_store st) (Some a) = Some h'"
    and lin: "elems lin = insert (nat (pe_id (ent es a))) (elems (f_linearized st))" "length lin = length (f_linearized st)"
    and new: "\<forall>c \<in> set (bucket (f_cache st) (bitset_hash lin)). ce_linearized c = lin \<longrightarrow> ce_state c \<noteq> s'"
  defines "c \<equiv> \<lparr>ce_linearized = lin, ce_state = s'\<rparr>" and "p' \<equiv> p @ [pe_id (ent es a)]"
  defines "st' \<equiv> st\<lparr>f_store := h', f_entry := first (left es (set p')), f_linearized := lin,
      f_cache := (f_cache st)(bitset_hash lin \<mapsto> bucket (f_cache st) (bitset_hash lin) @ [c]),
      f_calls := f_calls st @ [(a, f_state st)], f_state := s'\<rparr>"
  shows "search_inv m es h0 p' st'" and "((p', st'), (p, st)) \<in> smaller m es"
proof -
  have t: "trail m es h0 (f_calls st) p (f_store st) (f_state st)" and k: "cache_ok m es p (f_cache st)"
    and el: "elems (f_linearized st) = nat ` set p" "length (f_linearized st) = length (newBitset (length es div 2))"
    using i by (simp_all add: search_inv_def)
  have t': "trail m es h0 (f_calls st') p' (f_store st') (f_state st')"
    unfolding st'_def p'_def using trail.Push [OF t l us a h] by simp
  have w: "walk (stepId m es) es (md_Init m) p' = Some (rest es (set p'), s')"
    using trail_facts(1) [OF t' f b] by (simp add: st'_def)
  have le: "length lin = length (newBitset (length es div 2))" "elems lin = nat ` set p'"
    using lin el by (auto simp: p'_def)
  have "\<exists>j. take k p = take j p'" for k by (rule exI [of _ "min k (length p)"]) (simp add: p'_def min_def)
  then have k': "cache_ok m es p' (f_cache st)" by (intro cache_mono [OF k]) auto
  have "cache_ok m es p' (f_cache st')"
    unfolding cache_ok_def
  proof (intro allI ballI)
    fix hash d assume d: "d \<in> set (bucket (f_cache st') hash)"
    consider "d = c" "hash = bitset_hash lin" | "d \<in> set (bucket (f_cache st) hash)"
      using d by (auto simp: st'_def bucket_add split: if_splits)
    then show "bitset_hash (ce_linearized d) = hash \<and> length (ce_linearized d) = length (newBitset (length es div 2)) \<and>
        (\<exists>q. walk (stepId m es) es (md_Init m) q = Some (rest es (set q), ce_state d) \<and> elems (ce_linearized d) = nat ` set q \<and>
          ((\<exists>k. q = take k p') \<or> \<not> alive (stepId m es) (rest es (set q)) (ce_state d)))"
    proof cases
      case 1
      then show ?thesis using w le by (auto simp: c_def intro!: exI [of _ p'] exI [of _ "length p'"])
    next
      case 2
      with k' show ?thesis unfolding cache_ok_def by blast
    qed
  qed
  moreover have "at_entry m es p' st'" by (rule at_entry_first) (simp add: st'_def)
  ultimately show "search_inv m es h0 p' st'" using i t' le by (simp add: search_inv_def st'_def longest_ok_def)
  let ?x = "(elems lin, s')"
  have "?x \<notin> cached st"
  proof
    assume "?x \<in> cached st"
    then obtain hash d where d: "d \<in> set (bucket (f_cache st) hash)" "elems (ce_linearized d) = elems lin" "ce_state d = s'"
      by (auto simp: cached_def)
    have "bitset_hash (ce_linearized d) = hash" "length (ce_linearized d) = length lin"
      using k d(1) le(1) unfolding cache_ok_def by auto
    moreover have "ce_linearized d = lin" using calculation(2) d(2) equals_refines equals_eq by metis
    ultimately show False using new d by auto
  qed
  moreover have "?x \<in> space m es" using w le by (auto simp: space_def)
  moreover have "cached st \<subseteq> cached st'"
    unfolding cached_def by (intro UN_mono image_mono) (auto simp: st'_def bucket_add)
  moreover have "?x \<in> cached st'"
    unfolding cached_def by (intro UN_I [of "bitset_hash lin"] image_eqI [of _ _ c]) (auto simp: st'_def bucket_add c_def)
  ultimately have "space m es - cached st' \<subset> space m es - cached st" by auto
  then show "((p', st'), (p, st)) \<in> smaller m es"
    using finite_space [of m es] by (simp add: smaller_def psubset_card_mono)
qed

lemma inv_trail:
  assumes "search_inv m es h0 p st" and "history_fits m es" and "base h0 es"
  shows "linked (f_store st) (length es # left es (set p))" and "nodes_of (f_store st) es" and "set p \<subseteq> ids es"
    and "walk (stepId m es) es (md_Init m) p = Some (rest es (set p), f_state st)"
    and "p = map (\<lambda>(a, s). pe_id (ent es a)) (f_calls st)"
    and "\<forall>(a, s) \<in> set (f_calls st). a < length es"
proof -
  have t: "trail m es h0 (f_calls st) p (f_store st) (f_state st)" using assms(1) by (simp add: search_inv_def)
  note tf = trail_facts [OF t assms(2,3)]
  show "linked (f_store st) (length es # left es (set p))" "nodes_of (f_store st) es"
    "walk (stepId m es) es (md_Init m) p = Some (rest es (set p), f_state st)"
    "p = map (\<lambda>(a, s). pe_id (ent es a)) (f_calls st)" "\<forall>(a, s) \<in> set (f_calls st). a < length es"
    using tf by simp_all
  show "set p \<subseteq> ids es" using walk_ids [OF tf(1)] by simp
qed

text \<open>What the branch for a call computes, with the cache as the set of its entries.\<close>

definition foundIn :: "('v, 's) Model \<Rightarrow> 's cache \<Rightarrow> bitset \<Rightarrow> 's \<Rightarrow> bool" where
  "foundIn m cache lin s \<longleftrightarrow>
     (\<exists>c \<in> set (bucket cache (bitset_hash lin)). lin = ce_linearized c \<and> the (md_Equal m) s (ce_state c))"

lemma cacheContains_eq:
  "md_Equal m = Some eq \<Longrightarrow> cacheContains m cache c = Some (foundIn m cache (ce_linearized c) (ce_state c))"
  using cacheSearch_eq [of m eq] by (simp add: cacheContains_def foundIn_def)

lemma tryCall_eval:
  assumes f: "history_fits m es" and b: "base h0 es" and i: "search_inv m es h0 p st"
    and l: "left es (set p) = us @ a # vs" and e: "f_entry st = Some a" and a: "isCall (ent es a)"
  obtains ok s' lin h' where "stepId m es (f_state st) (pe_id (ent es a)) = (if ok then Some s' else None)"
    and "elems lin = insert (nat (pe_id (ent es a))) (elems (f_linearized st))" and "length lin = length (f_linearized st)"
    and "lift (f_store st) (Some a) = Some h'" and "vs \<noteq> []"
    and "tryCall m (length es) (f_store st ! a) st =
      (if ok \<and> \<not> foundIn m (f_cache st) lin s'
       then Some (st\<lparr>f_store := h', f_entry := first (left es (set (p @ [pe_id (ent es a)]))), f_linearized := lin,
              f_cache := (f_cache st)(bitset_hash lin \<mapsto> bucket (f_cache st) (bitset_hash lin) @ [\<lparr>ce_linearized = lin, ce_state = s'\<rparr>]),
              f_calls := f_calls st @ [(a, f_state st)], f_state := s'\<rparr>)
       else Some (st\<lparr>f_entry := first vs\<rparr>))"
proof -
  have c: "complete es" using f by (simp add: history_fits_def)
  note t = inv_trail [OF i f b]
  let ?h = "f_store st" and ?x = "pe_id (ent es a)"
  have al: "a < length es" using l left_in [of a es "set p"] by auto
  obtain r vs1 vs2 where r: "n_match (?h ! a) = Some r" "vs = vs1 @ r # vs2" "\<not> isCall (ent es r)"
      "pe_id (ent es r) = ?x" "r < length es" by (rule node_match [OF c t(2) l a])
  have nx: "n_next (?h ! a) = first vs" using linked_left_next [OF t(1) l] by simp
  obtain ok s' where s: "md_Step m (f_state st) (pe_value (ent es a)) (pe_value (ent es r)) = Some (ok, s')"
      "stepId m es (f_state st) ?x = (if ok then Some s' else None)"
    by (rule step_value [OF f al r(5) a r(3,4)])
  note nf = node_fields(1,2,4) [OF t(2) al] node_fields(2,4) [OF t(2) r(5)]
  have pos: "asUint (n_id (?h ! a)) = Some (nat ?x)" using nf(1) fits_id(1) [OF f al] by (simp add: asUint_def)
  have "length (f_linearized st) = length (newBitset (length es div 2))" using i by (simp add: search_inv_def)
  then obtain lin where lin: "bitset_set (nat ?x) (f_linearized st) = Some lin"
      "elems lin = insert (nat ?x) (elems (f_linearized st))" "length lin = length (f_linearized st)"
    using set_refines [of "nat ?x" "f_linearized st"] newBitset_room [OF fits_id(2) [OF f al]] by metis
  obtain eq where "md_Equal m = Some eq" using f by (auto simp: history_fits_def equal_ok_def)
  note cc = cacheContains_eq [OF this, of "f_cache st" "\<lparr>ce_linearized = lin, ce_state = s'\<rparr>"]
  obtain h' where h': "lift ?h (Some a) = Some h'" "linked h' (length es # left es (insert ?x (set p)))"
    using lift_left [OF c t(2,1) l a] by metis
  have hd: "deref h' (Some (length es)) = Some (h' ! length es)" "n_next (h' ! length es) = first (left es (set (p @ [?x])))"
    using linked_head [OF h'(2)] by (simp_all add: store_simps)
  show thesis
    by (rule that [OF s(2) lin(2,3) h'(1)])
      (use r(1,2) s(1) nf pos lin(1) cc h'(1) hd e nx in \<open>auto simp: tryCall_def store_simps Let_def\<close>)
qed

lemma tryCall_ok:
  assumes f: "history_fits m es" and b: "base h0 es" and i: "search_inv m es h0 p st"
    and l: "left es (set p) = us @ a # vs" and e: "f_entry st = Some a"
    and us: "\<forall>u \<in> set us. isCall (ent es u) \<and> deadAfter m es (set p) (f_state st) (pe_id (ent es u))"
    and a: "isCall (ent es a)"
  shows "\<exists>p' st'. tryCall m (length es) (f_store st ! a) st = Some st' \<and> search_inv m es h0 p' st' \<and>
    ((p', st'), (p, st)) \<in> smaller m es"
proof (rule tryCall_eval [OF f b i l e a])
  let ?x = "pe_id (ent es a)"
  have al: "a < length es" "?x \<notin> set p" using l left_in [of a es "set p"] by auto
  obtain eq where eq: "md_Equal m = Some eq" "\<And>s. eq s s" using f by (auto simp: history_fits_def equal_ok_def)
  have k: "cache_ok m es p (f_cache st)" "elems (f_linearized st) = nat ` set p" using i by (simp_all add: search_inv_def)
  fix ok s' lin h'
  assume s: "stepId m es (f_state st) ?x = (if ok then Some s' else None)"
    and lin: "elems lin = insert (nat ?x) (elems (f_linearized st))" "length lin = length (f_linearized st)"
    and h': "lift (f_store st) (Some a) = Some h'" and v: "vs \<noteq> []"
    and tc: "tryCall m (length es) (f_store st ! a) st =
      (if ok \<and> \<not> foundIn m (f_cache st) lin s'
       then Some (st\<lparr>f_store := h', f_entry := first (left es (set (p @ [?x]))), f_linearized := lin,
              f_cache := (f_cache st)(bitset_hash lin \<mapsto> bucket (f_cache st) (bitset_hash lin) @ [\<lparr>ce_linearized = lin, ce_state = s'\<rparr>]),
              f_calls := f_calls st @ [(a, f_state st)], f_state := s'\<rparr>)
       else Some (st\<lparr>f_entry := first vs\<rparr>))"
  show ?thesis
  proof (cases "ok \<and> \<not> foundIn m (f_cache st) lin s'")
    case True
    then have "\<forall>c \<in> set (bucket (f_cache st) (bitset_hash lin)). ce_linearized c = lin \<longrightarrow> ce_state c \<noteq> s'"
      using eq by (auto simp: foundIn_def)
    from inv_push [OF f b i l e us a _ h' lin this] True s tc show ?thesis by auto
  next
    case False
    have "deadAfter m es (set p) (f_state st) ?x"
    proof (cases ok)
      case True
      with False eq obtain d where d: "d \<in> set (bucket (f_cache st) (bitset_hash lin))" "lin = ce_linearized d" "eq s' (ce_state d)"
        by (auto simp: foundIn_def)
      have "\<not> alive (stepId m es) (rest es (insert ?x (set p))) s'"
        by (rule found_dead [OF f k(1) eq(1) d(1)])
          (use d lin k(2) al inv_trail(3) [OF i f b] ent_in [OF al(1)] in \<open>auto simp: ids_def\<close>)
      with s True show ?thesis by (simp add: deadAfter_def)
    qed (use s in \<open>simp add: deadAfter_def\<close>)
    from inv_advance [OF i l e us a this v] False tc show ?thesis by auto
  qed
qed

subsection \<open>Taking a call back\<close>

lemma pointers_set:
  assumes "pointers_ok n seqs longest" and "ptr < length seqs" and "int i \<in> set (seqs ! ptr)" and "i < n"
  shows "pointers_ok n seqs (longest[i := Some ptr])"
  using assms by (auto simp: pointers_ok_def nth_list_update)

lemma pointers_append: "pointers_ok n seqs longest \<Longrightarrow> pointers_ok n (seqs @ xs) longest"
  by (fastforce simp: pointers_ok_def nth_append)

lemma recordLongest_ok:
  assumes "pointers_ok n seqs longest" and "set js \<subseteq> set all" and "set all \<subseteq> int ` {..<n}"
    and "case sq of None \<Rightarrow> True | Some ptr \<Rightarrow> ptr < length seqs \<and> seqs ! ptr = all"
  shows "\<exists>seqs' longest'. recordLongest all js sq seqs longest = Some (seqs', longest') \<and>
    pointers_ok n seqs' longest' \<and> set seqs' \<subseteq> insert all (set seqs)"
  using assms
proof (induction js arbitrary: sq seqs longest)
  case (Cons j js)
  obtain i where i: "j = int i" "i < n" "int i \<in> set all" using Cons.prems(2,3) by auto
  have len: "length longest = n" using Cons.prems(1) by (simp add: pointers_ok_def)
  have g: "slice_get longest j = Some (longest ! i)" "slice_set longest j v = Some (longest[i := v])" for v
    using i len by (simp_all add: go_slice)
  show ?case
  proof (cases "case longest ! i of None \<Rightarrow> True | Some ptr \<Rightarrow> length all > length (seqs ! ptr)")
    case False
    with Cons.IH [of seqs longest sq] Cons.prems g show ?thesis by auto
  next
    case True
    show ?thesis
    proof (cases sq)
      case None
      have "pointers_ok n (seqs @ [all]) (longest[i := Some (length seqs)])"
        using pointers_set [OF pointers_append [OF Cons.prems(1)], of "length seqs" "[all]" i] i by simp
      with Cons.IH [of "seqs @ [all]" "longest[i := Some (length seqs)]" "Some (length seqs)"] Cons.prems(2,3)
      show ?thesis using True None g by auto
    next
      case (Some ptr)
      then have "pointers_ok n seqs (longest[i := Some ptr])"
        using pointers_set [OF Cons.prems(1), of ptr i] Cons.prems(4) i by simp
      with Cons.IH [of seqs "longest[i := Some ptr]" "Some ptr"] Cons.prems Some
      show ?thesis using True g by auto
    qed
  qed
qed auto

lemma callIds_eq:
  assumes "nodes_of h es" and "\<forall>(a, s) \<in> set calls. a < length es"
  shows "callIds h calls = Some (map (\<lambda>(a, s). pe_id (ent es a)) calls)"
proof -
  have "map (\<lambda>(a, s). map_option n_id (deref h (Some a))) calls = map Some (map (\<lambda>(a, s). pe_id (ent es a)) calls)"
    using assms node_fields [OF assms(1)] by (auto simp: store_simps)
  then show ?thesis unfolding callIds_def by (induction calls) auto
qed

text \<open>At a return, no call of what is left leads anywhere.\<close>

lemma return_dead:
  assumes l: "left es (set p) = us @ a # vs"
    and us: "\<forall>u \<in> set us. isCall (ent es u) \<and> deadAfter m es (set p) s (pe_id (ent es u))" and a: "\<not> isCall (ent es a)"
  shows "\<not> alive (stepId m es) (rest es (set p)) s"
proof
  assume "alive (stepId m es) (rest es (set p)) s"
  then obtain i s' where i: "i \<in> set (candidates (rest es (set p)))" "stepId m es s i = Some s'"
      "alive (stepId m es) (without i (rest es (set p))) s'"
    using alive_Cons [of "stepId m es" "rest es (set p)" s] rest_split [OF l] by (metis append_is_Nil_conv list.distinct(1))
  have "candidates (rest es (set p)) = map pe_id (map (ent es) us)"
    unfolding candidates_def rest_split [OF l] using us a by (simp add: takeWhile_append)
  then obtain u where "u \<in> set us" "i = pe_id (ent es u)" using i(1) by auto
  with us i(2,3) show False by (auto simp: deadAfter_def rest_insert)
qed

lemma recorded:
  assumes f: "history_fits m es" and b: "base h0 es" and i: "search_inv m es h0 p st"
  obtains seqs longest where
    "(if computePartial
      then do { all \<leftarrow> callIds (f_store st) (f_calls st); recordLongest all all None (f_seqs st) (f_longest st) }
      else Some (f_seqs st, f_longest st)) = Some (seqs, longest)"
    and "pointers_ok (length es div 2) seqs longest" and "\<forall>q \<in> set seqs. walk (stepId m es) es (md_Init m) q \<noteq> None"
proof -
  note t = inv_trail [OF i f b]
  have k: "pointers_ok (length es div 2) (f_seqs st) (f_longest st)" "\<forall>q \<in> set (f_seqs st). walk (stepId m es) es (md_Init m) q \<noteq> None"
    using i by (simp_all add: search_inv_def longest_ok_def)
  have c: "callIds (f_store st) (f_calls st) = Some p" using callIds_eq [OF t(2,6)] t(5) by simp
  have "set p \<subseteq> int ` {..<length es div 2}" using t(3) f by (simp add: history_fits_def)
  then obtain seqs longest where "recordLongest p p None (f_seqs st) (f_longest st) = Some (seqs, longest)"
      "pointers_ok (length es div 2) seqs longest" "set seqs \<subseteq> insert p (set (f_seqs st))"
    using recordLongest_ok [OF k(1), of p p None] by auto
  with that k c t(4) show thesis by (cases computePartial) auto
qed

lemma inv_pop:
  assumes f: "history_fits m es" and b: "base h0 es" and i: "search_inv m es h0 (p @ [x]) st"
    and t: "trail m es h0 calls p h s" and l: "left es (set p) = us @ a # vs"
    and us: "\<forall>u \<in> set us. isCall (ent es u) \<and> deadAfter m es (set p) s (pe_id (ent es u))"
    and a: "isCall (ent es a)" "x = pe_id (ent es a)" "stepId m es s x = Some (f_state st)" and v: "vs \<noteq> []"
    and c: "f_calls st = calls @ [(a, s)]" and dead: "\<not> alive (stepId m es) (rest es (set (p @ [x]))) (f_state st)"
    and lin: "elems lin = elems (f_linearized st) - {nat x}" "length lin = length (f_linearized st)"
    and k: "pointers_ok (length es div 2) seqs longest" "\<forall>q \<in> set seqs. walk (stepId m es) es (md_Init m) q \<noteq> None"
  defines "st' \<equiv> st\<lparr>f_store := h, f_entry := first vs, f_linearized := lin, f_calls := calls,
      f_longest := longest, f_seqs := seqs, f_state := s\<rparr>"
  shows "search_inv m es h0 p st'" and "((p, st'), (p @ [x], st)) \<in> smaller m es"
proof -
  note ts = inv_trail [OF i f b]
  have x: "x \<notin> set p" "x \<in> ids es" "set p \<subseteq> ids es"
    using walk_ids [OF ts(4)] by auto
  have "elems lin = nat ` set p"
  proof -
    have "\<forall>y \<in> ids es. 0 \<le> y" using f by (auto simp: history_fits_def)
    then have "nat x \<notin> nat ` set p" using x by (auto simp: eq_nat_nat_iff subset_iff)
    then show ?thesis using lin i by (auto simp: search_inv_def)
  qed
  moreover have "cache_ok m es p (f_cache st)"
  proof (rule cache_mono)
    show "cache_ok m es (p @ [x]) (f_cache st)" using i by (simp add: search_inv_def)
    fix k t assume w: "walk (stepId m es) es (md_Init m) (take k (p @ [x])) = Some (rest es (set (take k (p @ [x]))), t)"
    show "(\<exists>j. take k (p @ [x]) = take j p) \<or> \<not> alive (stepId m es) (rest es (set (take k (p @ [x])))) t"
    proof (cases "k \<le> length p")
      case True
      then show ?thesis by (intro disjI1 exI [of _ k]) simp
    next
      case False
      with w ts(4) dead show ?thesis by simp
    qed
  qed
  moreover have "at_entry m es p st'"
  proof -
    obtain y vs' where "vs = y # vs'" using v by (cases vs) auto
    moreover have "deadAfter m es (set p) s x" using a(3) dead by (simp add: deadAfter_def)
    ultimately show ?thesis unfolding at_entry_def
      by (intro disjI2 exI [of _ "us @ [a]"] exI [of _ y] exI [of _ vs']) (use l us a in \<open>auto simp: st'_def first_def\<close>)
  qed
  ultimately show "search_inv m es h0 p st'" using i t lin(2) k by (simp add: search_inv_def st'_def longest_ok_def)
  show "((p, st'), (p @ [x], st)) \<in> smaller m es" using c by (simp add: smaller_def st'_def cached_def)
qed

lemma takeBack_ok:
  assumes f: "history_fits m es" and b: "base h0 es" and i: "search_inv m es h0 p st"
    and dead: "\<not> alive (stepId m es) (rest es (set p)) (f_state st)" and ne: "f_calls st \<noteq> []"
  shows "\<exists>p' st'. takeBack computePartial st = Some st' \<and> search_inv m es h0 p' st' \<and> ((p', st'), (p, st)) \<in> smaller m es"
proof -
  obtain calls a s where c: "f_calls st = calls @ [(a, s)]" using ne by (metis rev_exhaust surj_pair)
  have "trail m es h0 (calls @ [(a, s)]) p (f_store st) (f_state st)" using i c by (simp add: search_inv_def)
  then obtain p0 h us vs where t: "trail m es h0 calls p0 h s" "p = p0 @ [pe_id (ent es a)]"
      "left es (set p0) = us @ a # vs" "\<forall>u \<in> set us. isCall (ent es u) \<and> deadAfter m es (set p0) s (pe_id (ent es u))"
      "isCall (ent es a)" "stepId m es s (pe_id (ent es a)) = Some (f_state st)" "lift h (Some a) = Some (f_store st)"
    by (rule trail_snocE) auto
  have co: "complete es" using f by (simp add: history_fits_def)
  note tf = trail_facts [OF t(1) f b]
  have u: "unlift (f_store st) (Some a) = Some h"
    using lift_left [OF co tf(4,2) t(3,5)] t(7) by (metis option.inject)
  have al: "a < length es" using t(3) left_in [of a es "set p0"] by auto
  obtain r vs1 vs2 where r: "vs = vs1 @ r # vs2" by (rule node_match [OF co tf(4) t(3,5)])
  note nf = node_fields(1,4) [OF inv_trail(2) [OF i f b] al] linked_left_next [OF tf(2) t(3)]
  have pos: "asUint (n_id (f_store st ! a)) = Some (nat (pe_id (ent es a)))"
    using nf(1) fits_id(1) [OF f al] by (simp add: asUint_def)
  have "length (f_linearized st) = length (newBitset (length es div 2))" using i by (simp add: search_inv_def)
  then obtain lin where lin: "bitset_clear (nat (pe_id (ent es a))) (f_linearized st) = Some lin"
      "elems lin = elems (f_linearized st) - {nat (pe_id (ent es a))}" "length lin = length (f_linearized st)"
    using clear_refines [of "nat (pe_id (ent es a))" "f_linearized st"] newBitset_room [OF fits_id(2) [OF f al]] by metis
  obtain seqs longest where sl:
    "(if computePartial
      then do { all \<leftarrow> callIds (f_store st) (f_calls st); recordLongest all all None (f_seqs st) (f_longest st) }
      else Some (f_seqs st, f_longest st)) = Some (seqs, longest)"
    "pointers_ok (length es div 2) seqs longest" "\<forall>q \<in> set seqs. walk (stepId m es) es (md_Init m) q \<noteq> None"
    by (rule recorded [OF f b i])
  have "takeBack computePartial st = Some (st\<lparr>f_store := h, f_entry := first vs, f_linearized := lin, f_calls := calls,
      f_longest := longest, f_seqs := seqs, f_state := s\<rparr>)"
    unfolding takeBack_def sl(1) using c nf pos lin(1) u by (simp add: store_simps)
  moreover have "vs \<noteq> []" using r by simp
  moreover have "search_inv m es h0 (p0 @ [pe_id (ent es a)]) st" "\<not> alive (stepId m es) (rest es (set (p0 @ [pe_id (ent es a)]))) (f_state st)"
    using i dead t(2) by simp_all
  ultimately show ?thesis
    using inv_pop [OF f b _ t(1,3,4,5) refl t(6) _ c _ lin(2,3) sl(2,3)] t(2) by blast
qed

subsection \<open>The loop\<close>

text \<open>One iteration ends the search when nothing is left to try, or keeps the invariant and gets smaller.\<close>

lemma searchStep_ok:
  assumes f: "history_fits m es" and b: "base h0 es" and i: "search_inv m es h0 p st" and l: "left es (set p) \<noteq> []"
  shows "(searchStep m computePartial (length es) st = Some None \<and> \<not> alive (stepId m es) es (md_Init m)) \<or>
    (\<exists>p' st'. searchStep m computePartial (length es) st = Some (Some st') \<and> search_inv m es h0 p' st' \<and>
       ((p', st'), (p, st)) \<in> smaller m es)"
proof -
  obtain us a vs where s: "left es (set p) = us @ a # vs" "f_entry st = Some a"
      "\<forall>u \<in> set us. isCall (ent es u) \<and> deadAfter m es (set p) (f_state st) (pe_id (ent es u))"
    using i l by (auto simp: search_inv_def at_entry_def)
  note t = inv_trail [OF i f b]
  have c: "complete es" using f by (simp add: history_fits_def)
  have al: "a < length es" using s(1) left_in [of a es "set p"] by auto
  have d: "deref (f_store st) (f_entry st) = Some (f_store st ! a)"
    using s(2) node_fields(4) [OF t(2) al] by (simp add: store_simps)
  show ?thesis
  proof (cases "isCall (ent es a)")
    case True
    then have "n_match (f_store st ! a) \<noteq> None" using node_match [OF c t(2) s(1)] by (metis option.distinct(1))
    with d have "searchStep m computePartial (length es) st = map_option Some (tryCall m (length es) (f_store st ! a) st)"
      by (simp add: searchStep_def)
    with tryCall_ok [OF f b i s True] show ?thesis by auto
  next
    case False
    then have m: "n_match (f_store st ! a) = None" using node_fields(3) [OF t(2) al] by simp
    have dead: "\<not> alive (stepId m es) (rest es (set p)) (f_state st)" by (rule return_dead [OF s(1,3) False])
    show ?thesis
    proof (cases "f_calls st = []")
      case True
      then have "p = []" using t(5) by simp
      with t(4) dead have "\<not> alive (stepId m es) es (md_Init m)" by simp
      with True d m show ?thesis by (simp add: searchStep_def)
    next
      case False
      with d m have "searchStep m computePartial (length es) st = map_option Some (takeBack computePartial st)"
        by (simp add: searchStep_def)
      with takeBack_ok [OF f b i dead False] show ?thesis by auto
    qed
  qed
qed

lemma searchLoop_ok:
  assumes f: "history_fits m es" and b: "base h0 es"
  shows "search_inv m es h0 p st \<Longrightarrow>
    \<exists>ok p' st'. searchLoop m computePartial kill (length es) k st = Some (ok, st') \<and> search_inv m es h0 p' st' \<and>
      (if ok then left es (set p') = [] else (\<exists>j. kill j) \<or> \<not> alive (stepId m es) es (md_Init m))"
proof (induction "(p, st)" arbitrary: p st k rule: wf_induct_rule [OF wf_smaller [of m es]])
  case (1 p st)
  note hd = linked_head [OF inv_trail(1) [OF 1(2) f b]]
  have e: "n_next (f_store st ! length es) = None \<longleftrightarrow> left es (set p) = []" using hd by (simp add: first_def split: list.splits)
  consider (over) "left es (set p) = []" | (killed) "left es (set p) \<noteq> []" "kill k" | (go) "left es (set p) \<noteq> []" "\<not> kill k" by blast
  then show ?case
  proof cases
    case over
    then have "searchLoop m computePartial kill (length es) k st = Some (True, st)"
      by (subst searchLoop.simps) (use hd e in \<open>simp add: store_simps\<close>)
    with 1(2) over show ?thesis by (intro exI [of _ True] exI [of _ p] exI [of _ st]) simp
  next
    case killed
    then have "searchLoop m computePartial kill (length es) k st = Some (False, st)"
      by (subst searchLoop.simps) (use hd e in \<open>simp add: store_simps\<close>)
    with 1(2) killed show ?thesis by (intro exI [of _ False] exI [of _ p] exI [of _ st]) auto
  next
    case go
    have lp: "searchLoop m computePartial kill (length es) k st = do {
        r \<leftarrow> searchStep m computePartial (length es) st;
        case r of None \<Rightarrow> Some (False, st) | Some st \<Rightarrow> searchLoop m computePartial kill (length es) (k + 1) st }"
      by (subst searchLoop.simps) (use hd e go in \<open>auto simp: store_simps\<close>)
    from searchStep_ok [OF f b 1(2) go(1), of computePartial] show ?thesis
    proof (elim disjE conjE exE)
      assume "searchStep m computePartial (length es) st = Some None" "\<not> alive (stepId m es) es (md_Init m)"
      with lp 1(2) show ?thesis by (intro exI [of _ False] exI [of _ p] exI [of _ st]) simp
    next
      fix p' st'
      assume n: "searchStep m computePartial (length es) st = Some (Some st')" "search_inv m es h0 p' st'"
        "((p', st'), p, st) \<in> smaller m es"
      from 1(1) [OF n(3,2), of "k + 1"] n(1) lp show ?thesis by simp
    qed
  qed
qed

end
