(* ===== verification/PorcOps.thy ===== *)
theory PorcOps
  imports PorcStep "HOL-Library.Multiset"
begin

section \<open>Histories of operations\<close>

text \<open>
  The result of \<^verbatim>\<open>checkSingle\<close>, and what it says of a history of operations with their times: an order of
  the operations is a linearization when no operation comes after one that it precedes in time and the
  sequential system can run them. \<^verbatim>\<open>makeEntries\<close> turns the times into the order of the entries.
\<close>

subsection \<open>The result of one search\<close>

lemma checkSingle_ok:
  assumes f: "history_fits m es"
  shows "\<exists>ok longest seqs. checkSingle m es computePartial kill = Some (ok, longest, seqs) \<and>
    (ok \<longrightarrow> linearizable m es) \<and> (\<not> ok \<longrightarrow> (\<exists>k. kill k) \<or> \<not> linearizable m es) \<and>
    pointers_ok (length es div 2) seqs longest \<and> (\<forall>q \<in> set seqs. walk (stepId m es) es (md_Init m) q \<noteq> None)"
proof -
  have c: "complete es" using f by (simp add: history_fits_def)
  obtain h0 where h0: "searchInit m es = Some (length es, \<lparr>f_store = h0, f_entry = first (rev [0..<length es]),
      f_linearized = newBitset (length es div 2), f_cache = Map.empty, f_calls = [],
      f_longest = replicate (length es div 2) None, f_seqs = [], f_state = md_Init m\<rparr>)"
      (is "_ = Some (_, ?st)") and b: "base h0 es"
    using searchInit_ok [of m es] unfolding base_def by metis
  have "trail m es h0 [] [] h0 (md_Init m)" by (rule trail.Start)
  moreover have "at_entry m es [] ?st" by (rule at_entry_first) (simp add: left_empty)
  ultimately have "search_inv m es h0 [] ?st"
    by (simp add: search_inv_def elems_new cache_ok_def bucket_def longest_ok_def pointers_ok_def)
  from searchLoop_ok [OF f b this, of computePartial kill 0]
  obtain ok p st where s: "searchLoop m computePartial kill (length es) 0 ?st = Some (ok, st)" "search_inv m es h0 p st"
      "if ok then left es (set p) = [] else (\<exists>j. kill j) \<or> \<not> alive (stepId m es) es (md_Init m)" by blast
  note t = inv_trail [OF s(2) f b]
  have k: "pointers_ok (length es div 2) (f_seqs st) (f_longest st)" "\<forall>q \<in> set (f_seqs st). walk (stepId m es) es (md_Init m) q \<noteq> None"
    using s(2) by (simp_all add: search_inv_def longest_ok_def)
  show ?thesis
  proof (cases ok)
    case False
    with h0 s k linearizable_alive [OF c, of m] show ?thesis by (auto simp: checkSingle_def)
  next
    case True
    then have r: "rest es (set p) = []" using s(3) map_left [of es "set p"] by simp
    then have "alive (stepId m es) es (md_Init m)" using t(4) unfolding alive_def by auto
    then have lin: "linearizable m es" using linearizable_alive [OF c, of m] by simp
    have "ids es \<subseteq> set p" using r by (auto simp: rest_def ids_def filter_empty_conv)
    then have "pointers_ok (length es div 2) (f_seqs st @ [p]) (map (\<lambda>_. Some (length (f_seqs st))) (f_longest st))"
      using k(1) f by (auto simp: pointers_ok_def history_fits_def)
    moreover have "checkSingle m es computePartial kill = Some (True, map (\<lambda>_. Some (length (f_seqs st))) (f_longest st), f_seqs st @ [p])"
      using h0 s(1) True callIds_eq [OF t(2,6)] t(5) by (simp add: checkSingle_def)
    ultimately show ?thesis using lin k(2) t(4) by auto
  qed
qed

lemma checkSingle_decides:
  assumes "history_fits m es"
  obtains longest seqs where "checkSingle m es computePartial (\<lambda>_. False) = Some (linearizable m es, longest, seqs)"
  using checkSingle_ok [OF assms, of computePartial "\<lambda>_. False"] by auto

subsection \<open>Linearizations of operations\<close>

definition opStep :: "('v, 's) Model \<Rightarrow> 's \<Rightarrow> 'v Operation \<Rightarrow> 's option" where
  "opStep m s x = do {
     (ok, s') \<leftarrow> md_Step m s (po_Input x) (po_Output x);
     if ok then Some s' else None
   }"

definition inTime :: "'v Operation list \<Rightarrow> bool" where
  "inTime order \<longleftrightarrow> sorted_wrt (\<lambda>x y. \<not> po_Return y < po_Call x) order"

definition opLinearization :: "('v, 's) Model \<Rightarrow> 's \<Rightarrow> 'v Operation list \<Rightarrow> 'v Operation list \<Rightarrow> bool" where
  "opLinearization m s history order \<longleftrightarrow>
     mset order = mset history \<and> inTime order \<and> run (opStep m) s order \<noteq> None"

definition opLinearizable :: "('v, 's) Model \<Rightarrow> 'v Operation list \<Rightarrow> bool" where
  "opLinearizable m history \<longleftrightarrow> (\<exists>order. opLinearization m (md_Init m) history order)"

text \<open>What the checker expects of a history: no operation returns before it is called.\<close>

definition timed :: "'v Operation list \<Rightarrow> bool" where
  "timed history \<longleftrightarrow> (\<forall>x \<in> set history. po_Call x \<le> po_Return x)"

subsection \<open>The entries of a history\<close>

lemma insertSorted_mset [simp]: "mset (insertSorted lt x xs) = add_mset x (mset xs)"
  by (induction xs) auto

lemma sortBy_mset [simp]: "mset (sortBy lt xs) = mset xs"
  unfolding sortBy_def by (induction xs) auto

lemma insertSorted_sorted:
  assumes "\<And>a b. lt a b \<Longrightarrow> \<not> lt b a" and "\<And>a b c. \<not> lt b a \<Longrightarrow> \<not> lt c b \<Longrightarrow> \<not> lt c a"
    and "sorted_wrt (\<lambda>a b. \<not> lt b a) xs"
  shows "sorted_wrt (\<lambda>a b. \<not> lt b a) (insertSorted lt x xs)"
  using assms(3)
proof (induction xs)
  case (Cons y ys)
  have "set (insertSorted lt x ys) = insert x (set ys)" by (metis insertSorted_mset set_mset_add_mset_insert set_mset_mset)
  moreover have "\<not> lt z x" if "\<not> lt y x" "z \<in> set ys" for z
    using assms(2) [of y x z] that Cons.prems by simp
  ultimately show ?case using Cons assms(1) [of y x] by auto
qed simp

lemma byTimeLess_asym: "byTimeLess a b \<Longrightarrow> \<not> byTimeLess b a"
  by (auto simp: byTimeLess_def split: if_splits)

lemma byTimeLess_negtrans: "\<not> byTimeLess b a \<Longrightarrow> \<not> byTimeLess c b \<Longrightarrow> \<not> byTimeLess c a"
  by (auto simp: byTimeLess_def split: if_splits) (metis entryKind.exhaust)+

lemma insert_byTime:
  assumes "sorted_wrt (\<lambda>a b. \<not> byTimeLess b a) es"
  shows "sorted_wrt (\<lambda>a b. \<not> byTimeLess b a) (insertSorted byTimeLess e es)"
  using assms by (rule insertSorted_sorted [rotated 2]) (use byTimeLess_asym byTimeLess_negtrans in blast)+

lemma makeEntries_sorted: "sorted_wrt (\<lambda>a b. \<not> byTimeLess b a) (makeEntries history)"
proof -
  have "sorted_wrt (\<lambda>a b. \<not> byTimeLess b a) (foldr (insertSorted byTimeLess) es [])" for es :: "'a entry list"
    by (induction es) (simp_all add: insert_byTime)
  then show ?thesis by (simp add: makeEntries_def sortBy_def)
qed

abbreviation callOf :: "int \<Rightarrow> 'v Operation \<Rightarrow> 'v entry" where
  "callOf i x \<equiv> \<lparr>pe_kind = callEntry, pe_value = po_Input x, pe_id = i, pe_time = po_Call x, pe_clientId = po_ClientId x\<rparr>"

abbreviation returnOf :: "int \<Rightarrow> 'v Operation \<Rightarrow> 'v entry" where
  "returnOf i x \<equiv> \<lparr>pe_kind = returnEntry, pe_value = po_Output x, pe_id = i, pe_time = po_Return x, pe_clientId = po_ClientId x\<rparr>"

lemma operationEntries_ids: "ids (operationEntries n h) = (\<lambda>k. n + int k) ` {..<length h}"
proof (induction h arbitrary: n)
  case (Cons x h)
  have "(\<lambda>k. n + int k) ` {..<Suc (length h)} = insert n ((\<lambda>k. n + 1 + int k) ` {..<length h})"
    by (simp add: lessThan_Suc_eq_insert_0 image_image algebra_simps)
  with Cons show ?case by simp
qed simp

lemma operationEntries_filter:
  "k < length h \<Longrightarrow> filter (\<lambda>e. pe_id e = n + int k) (operationEntries n h) = [callOf (n + int k) (h ! k), returnOf (n + int k) (h ! k)]"
proof (induction h arbitrary: n k)
  case (Cons x h)
  show ?case
  proof (cases k)
    case 0
    have "n \<notin> ids (operationEntries (n + 1) h)" unfolding operationEntries_ids by auto
    with 0 show ?thesis by (simp add: not_in_ids filter_empty_conv)
  next
    case (Suc j)
    with Cons.IH [of j "n + 1"] Cons.prems show ?thesis by (simp add: algebra_simps)
  qed
qed simp

lemma mset_pair:
  assumes "mset xs = {#a, b#}"
  shows "xs = [a, b] \<or> xs = [b, a]"
proof -
  have "length xs = Suc (Suc 0)" using arg_cong [OF assms, of size] by simp
  then obtain x y where "xs = [x, y]" by (auto simp: length_Suc_conv)
  with assms show ?thesis by (auto simp: add_eq_conv_ex)
qed

lemma makeEntries_filter:
  assumes "timed h" and k: "k < length h"
  shows "filter (\<lambda>e. pe_id e = int k) (makeEntries h) = [callOf (int k) (h ! k), returnOf (int k) (h ! k)]"
proof -
  let ?c = "callOf (int k) (h ! k)" and ?r = "returnOf (int k) (h ! k)"
  let ?f = "filter (\<lambda>e. pe_id e = int k) (makeEntries h)"
  have "mset ?f = mset (filter (\<lambda>e. pe_id e = int k) (operationEntries 0 h))" by (simp add: makeEntries_def)
  also have "filter (\<lambda>e. pe_id e = int k) (operationEntries 0 h) = [?c, ?r]" using operationEntries_filter [OF k, of 0] by simp
  finally have m: "mset ?f = {#?c, ?r#}" by simp
  have "sorted_wrt (\<lambda>a b. \<not> byTimeLess b a) ?f" by (intro sorted_wrt_filter makeEntries_sorted)
  moreover have "po_Call (h ! k) \<le> po_Return (h ! k)" using assms(1) nth_mem [OF k] by (simp add: timed_def)
  then have "byTimeLess ?c ?r" by (simp add: byTimeLess_def)
  ultimately have "?f \<noteq> [?r, ?c]" by auto
  with mset_pair [OF m] show ?thesis by simp
qed

lemma ids_makeEntries: "ids (makeEntries h) = int ` {..<length h}"
proof -
  have "set (makeEntries h) = set (operationEntries 0 h)" by (metis makeEntries_def set_mset_mset sortBy_mset)
  then show ?thesis using operationEntries_ids [of 0 h] by (simp add: ids_def)
qed

lemma length_makeEntries: "length (makeEntries h) = 2 * length h"
proof -
  have "length (operationEntries n h) = 2 * length h" for n by (induction h arbitrary: n) auto
  then show ?thesis by (metis makeEntries_def size_mset sortBy_mset)
qed

lemma filter_pair:
  assumes "filter P es = [c, r]"
  obtains us vs ws where "es = us @ c # vs @ r # ws" and "\<forall>e \<in> set (us @ vs @ ws). \<not> P e"
proof -
  obtain us xs where u: "es = us @ c # xs" "\<forall>e \<in> set us. \<not> P e" "filter P xs = [r]"
    using filter_eq_ConsD [OF assms] by auto
  obtain vs ws where "xs = vs @ r # ws" "\<forall>e \<in> set vs. \<not> P e" "[] = filter P ws"
    using filter_eq_ConsD [OF u(3)] by auto
  with u show thesis using that [of us vs ws] by (auto simp: filter_empty_conv eq_commute [of "[]"])
qed

lemma complete_makeEntries:
  assumes "timed h"
  shows "complete (makeEntries h)"
  unfolding complete_def
proof
  fix i assume "i \<in> ids (makeEntries h)"
  then obtain k where k: "i = int k" "k < length h" by (auto simp: ids_makeEntries)
  let ?c = "callOf i (h ! k)" and ?r = "returnOf i (h ! k)"
  obtain us vs ws where "makeEntries h = us @ ?c # vs @ ?r # ws" "\<forall>e \<in> set (us @ vs @ ws). pe_id e \<noteq> i"
    using filter_pair [OF makeEntries_filter [OF assms k(2)]] k by metis
  then show "\<exists>us c vs r ws. makeEntries h = us @ c # vs @ r # ws \<and> isCall c \<and> \<not> isCall r \<and>
      pe_id c = i \<and> pe_id r = i \<and> i \<notin> ids us \<and> i \<notin> ids vs \<and> i \<notin> ids ws"
    by (intro exI [of _ us] exI [of _ ?c] exI [of _ vs] exI [of _ ?r] exI [of _ ws]) (auto simp: not_in_ids)
qed

lemma entries_in:
  assumes "timed h" and "k < length h"
  shows "callOf (int k) (h ! k) \<in> set (makeEntries h)" and "returnOf (int k) (h ! k) \<in> set (makeEntries h)"
proof -
  have "{callOf (int k) (h ! k), returnOf (int k) (h ! k)} \<subseteq> set (filter (\<lambda>e. pe_id e = int k) (makeEntries h))"
    unfolding makeEntries_filter [OF assms] by simp
  then show "callOf (int k) (h ! k) \<in> set (makeEntries h)" "returnOf (int k) (h ! k) \<in> set (makeEntries h)" by auto
qed

lemma precedes_makeEntries:
  assumes t: "timed h" and i: "i < length h" and j: "j < length h"
  shows "precedes (makeEntries h) (int i) (int j) \<longleftrightarrow> po_Return (h ! i) < po_Call (h ! j)"
proof
  let ?es = "makeEntries h" and ?r = "returnOf (int i) (h ! i)" and ?c = "callOf (int j) (h ! j)"
  have c: "complete ?es" by (rule complete_makeEntries [OF t])
  note rin = entries_in(2) [OF t i] and cin = entries_in(1) [OF t j]
  {
    assume "precedes ?es (int i) (int j)"
    then obtain us r vs d where s: "?es = us @ r # vs" "\<not> isCall r" "pe_id r = int i" "d \<in> set vs" "isCall d" "pe_id d = int j"
      unfolding precedes_iff by blast
    have "r = ?r" using entry_unique [OF c _ rin] s(1-3) by (simp add: not_call)
    moreover have "d = ?c" using entry_unique [OF c _ cin] s by simp
    moreover have "\<not> byTimeLess d r" using makeEntries_sorted [of h] s(1,4) by (simp add: sorted_wrt_append)
    ultimately show "po_Return (h ! i) < po_Call (h ! j)" by (auto simp: byTimeLess_def split: if_splits)
  next
    assume l: "po_Return (h ! i) < po_Call (h ! j)"
    obtain us vs where s: "?es = us @ ?r # vs" using split_list [OF rin] by blast
    have "?c \<notin> set us" using makeEntries_sorted [of h] l unfolding s by (auto simp: sorted_wrt_append byTimeLess_def)
    then have "?c \<in> set vs" using cin s by auto
    then show "precedes ?es (int i) (int j)" unfolding precedes_iff using s by force
  }
qed

lemma stepId_makeEntries:
  assumes t: "timed h" and k: "k < length h"
  shows "stepId m (makeEntries h) s (int k) = opStep m s (h ! k)"
proof -
  have c: "complete (makeEntries h)" by (rule complete_makeEntries [OF t])
  have "entryOf callEntry (makeEntries h) (int k) = Some (callOf (int k) (h ! k))"
    "entryOf returnEntry (makeEntries h) (int k) = Some (returnOf (int k) (h ! k))"
    using entryOf_ent [OF c entries_in(1) [OF t k]] entryOf_ent [OF c entries_in(2) [OF t k]] by simp_all
  then show ?thesis by (simp add: stepId_def opStep_def)
qed

lemma run_makeEntries:
  assumes t: "timed h"
  shows "set ks \<subseteq> {..<length h} \<Longrightarrow> run (stepId m (makeEntries h)) s (map int ks) = run (opStep m) s (map ((!) h) ks)"
  by (induction ks arbitrary: s) (auto simp: stepId_makeEntries [OF t] split: Option.bind_splits)

text \<open>A rearrangement of the image of a list is the image of a rearrangement.\<close>

lemma mset_map_lift: "mset ys = image_mset f (mset xs) \<Longrightarrow> \<exists>zs. mset zs = mset xs \<and> map f zs = ys"
proof (induction ys arbitrary: xs)
  case (Cons y ys)
  have "y \<in># image_mset f (mset xs)" unfolding Cons.prems [symmetric] by simp
  then obtain x where x: "x \<in> set xs" "f x = y" by auto
  obtain us vs where u: "xs = us @ x # vs" using split_list [OF x(1)] by blast
  with Cons.prems x have "mset ys = image_mset f (mset (us @ vs))" by simp
  from Cons.IH [OF this] obtain zs where "mset zs = mset (us @ vs)" "map f zs = ys" by blast
  with x u show ?case by (intro exI [of _ "x # zs"]) simp
qed simp

lemma beforeIn_nth: "beforeIn xs i j \<longleftrightarrow> (\<exists>a b. a < b \<and> b < length xs \<and> xs ! a = i \<and> xs ! b = j)"
proof
  assume "beforeIn xs i j"
  then obtain us vs where u: "xs = us @ vs" "i \<in> set us" "j \<in> set vs" by (auto simp: beforeIn_def)
  obtain a b where "a < length us" "us ! a = i" "b < length vs" "vs ! b = j" using u(2,3) by (auto simp: in_set_conv_nth)
  with u(1) show "\<exists>a b. a < b \<and> b < length xs \<and> xs ! a = i \<and> xs ! b = j"
    by (intro exI [of _ a] exI [of _ "length us + b"]) (simp add: nth_append)
next
  assume "\<exists>a b. a < b \<and> b < length xs \<and> xs ! a = i \<and> xs ! b = j"
  then obtain a b where "a < b" "b < length xs" "xs ! a = i" "xs ! b = j" by blast
  then show "beforeIn xs i j" unfolding beforeIn_def
    by (intro exI [of _ "take b xs"] exI [of _ "drop b xs"]) (auto simp: in_set_conv_nth intro: exI [of _ a] exI [of _ 0])
qed

lemma beforeIn_sorted:
  assumes d: "distinct xs" and P: "\<And>i j. P i j \<Longrightarrow> i \<in> set xs \<and> j \<in> set xs \<and> i \<noteq> j"
  shows "(\<forall>i j. P i j \<longrightarrow> beforeIn xs i j) \<longleftrightarrow> sorted_wrt (\<lambda>x y. \<not> P y x) xs"
proof
  assume b: "\<forall>i j. P i j \<longrightarrow> beforeIn xs i j"
  have "\<not> P (xs ! b) (xs ! a)" if l: "a < b" "b < length xs" for a b
  proof
    assume "P (xs ! b) (xs ! a)"
    then obtain a' b' where "a' < b'" "b' < length xs" "xs ! a' = xs ! b" "xs ! b' = xs ! a" using b beforeIn_nth by metis
    with d l show False by (simp add: nth_eq_iff_index_eq)
  qed
  then show "sorted_wrt (\<lambda>x y. \<not> P y x) xs" by (simp add: sorted_wrt_iff_nth_less)
next
  assume s: "sorted_wrt (\<lambda>x y. \<not> P y x) xs"
  show "\<forall>i j. P i j \<longrightarrow> beforeIn xs i j"
  proof (intro allI impI)
    fix i j assume p: "P i j"
    then obtain a b where ab: "a < length xs" "b < length xs" "xs ! a = i" "xs ! b = j" "a \<noteq> b"
      using P [OF p] by (metis in_set_conv_nth)
    then have "\<not> b < a" using s p by (auto simp: sorted_wrt_iff_nth_less)
    with ab show "beforeIn xs i j" unfolding beforeIn_nth by (metis linorder_neqE_nat)
  qed
qed

lemma linearization_ops:
  assumes t: "timed h" and ks: "distinct ks" "set ks = {..<length h}"
  shows "linearization (stepId m (makeEntries h)) (makeEntries h) s (map int ks) \<longleftrightarrow>
    opLinearization m s h (map ((!) h) ks)"
proof -
  let ?es = "makeEntries h"
  have "mset ks = mset [0..<length h]" using ks set_eq_iff_mset_eq_distinct [of ks "[0..<length h]"] by (simp add: atLeast0LessThan)
  then have m: "mset (map ((!) h) ks) = mset h" by (metis map_nth mset_map)
  have lt: "ks ! i < length h" if "i < length ks" for i using nth_mem [OF that] ks(2) by auto
  have P: "i \<in> set (map int ks) \<and> j \<in> set (map int ks) \<and> i \<noteq> j" if p: "precedes ?es i j" for i j
  proof -
    obtain a b where ab: "i = int a" "j = int b" "a < length h" "b < length h"
      using precedes_in [OF p] by (auto simp: ids_makeEntries)
    moreover have "po_Return (h ! a) < po_Call (h ! b)" using p precedes_makeEntries [OF t ab(3,4)] ab(1,2) by simp
    moreover have "po_Call (h ! a) \<le> po_Return (h ! a)" using t nth_mem [OF ab(3)] by (simp add: timed_def)
    ultimately show ?thesis using ks by (cases "a = b") auto
  qed
  have "(\<forall>i j. precedes ?es i j \<longrightarrow> beforeIn (map int ks) i j) \<longleftrightarrow> sorted_wrt (\<lambda>x y. \<not> precedes ?es y x) (map int ks)"
    by (rule beforeIn_sorted) (use ks P in \<open>auto simp: distinct_map\<close>)
  also have "\<dots> \<longleftrightarrow> sorted_wrt (\<lambda>x y. \<not> po_Return (h ! y) < po_Call (h ! x)) ks"
    using lt precedes_makeEntries [OF t] by (auto simp: sorted_wrt_iff_nth_less)
  also have "\<dots> \<longleftrightarrow> inTime (map ((!) h) ks)" by (simp add: inTime_def sorted_wrt_map)
  finally show ?thesis
    using ks m run_makeEntries [OF t, of ks m s]
    by (auto simp: linearization_def opLinearization_def ids_makeEntries distinct_map)
qed

theorem linearizable_ops:
  assumes t: "timed h"
  shows "linearizable m (makeEntries h) \<longleftrightarrow> opLinearizable m h"
proof
  assume "linearizable m (makeEntries h)"
  then obtain order where l: "linearization (stepId m (makeEntries h)) (makeEntries h) (md_Init m) order"
    by (auto simp: linearizable_def)
  then have d: "distinct order" "set order = int ` {..<length h}" by (auto simp: linearization_def ids_makeEntries)
  have o: "order = map int (map nat order)" using d(2) by (auto intro!: map_idI [symmetric])
  have "distinct (map nat order)" "set (map nat order) = {..<length h}"
    using d by (auto simp: distinct_map inj_on_def image_image)
  then show "opLinearizable m h" unfolding opLinearizable_def using linearization_ops [OF t] l o by metis
next
  assume "opLinearizable m h"
  then obtain order where l: "opLinearization m (md_Init m) h order" by (auto simp: opLinearizable_def)
  then have "mset order = image_mset ((!) h) (mset [0..<length h])" by (metis map_nth mset_map opLinearization_def)
  then obtain ks where ks: "mset ks = mset [0..<length h]" "map ((!) h) ks = order" using mset_map_lift by blast
  have "distinct ks" "set ks = {..<length h}"
    using ks(1) by (metis distinct_upt mset_eq_imp_distinct_iff) (metis atLeast0LessThan atLeast_upt ks(1) mset_eq_setD)
  then show "linearizable m (makeEntries h)" unfolding linearizable_def using linearization_ops [OF t] l ks(2) by metis
qed

text \<open>The searches of the partitions of a history decide.\<close>

definition steps_ok :: "('v, 's) Model \<Rightarrow> 'v Operation list \<Rightarrow> bool" where
  "steps_ok m history \<longleftrightarrow> (\<forall>x \<in> set history. \<forall>s. md_Step m s (po_Input x) (po_Output x) \<noteq> None)"

lemma entries_pair:
  assumes t: "timed h" and a: "c \<in> set (makeEntries h)" "r \<in> set (makeEntries h)" "isCall c" "\<not> isCall r" "pe_id c = pe_id r"
  shows "\<exists>x \<in> set h. pe_value c = po_Input x \<and> pe_value r = po_Output x"
proof -
  have co: "complete (makeEntries h)" by (rule complete_makeEntries [OF t])
  have "pe_id c \<in> ids (makeEntries h)" using a(1) by (simp add: ids_def)
  then obtain k where k: "pe_id c = int k" "k < length h" by (auto simp: ids_makeEntries)
  then have "c = callOf (int k) (h ! k)" "r = returnOf (int k) (h ! k)"
    using entry_unique [OF co a(1) entries_in(1) [OF t k(2)]] entry_unique [OF co a(2) entries_in(2) [OF t k(2)]] a
    by (simp_all add: not_call)
  then show ?thesis using nth_mem [OF k(2)] by auto
qed

lemma fits_makeEntries:
  assumes t: "timed h" and "steps_ok m h" and "equal_ok m"
  shows "history_fits m (makeEntries h)"
proof -
  have "no_panic m (makeEntries h)"
    unfolding no_panic_def
  proof (intro ballI impI allI)
    fix c r s assume "c \<in> set (makeEntries h)" "r \<in> set (makeEntries h)" "isCall c \<and> \<not> isCall r \<and> pe_id c = pe_id r"
    then obtain x where "x \<in> set h" "pe_value c = po_Input x" "pe_value r = po_Output x" using entries_pair [OF t] by blast
    then show "md_Step m s (pe_value c) (pe_value r) \<noteq> None" using assms(2) by (simp add: steps_ok_def)
  qed
  with complete_makeEntries [OF t] assms(3) show ?thesis by (simp add: history_fits_def ids_makeEntries length_makeEntries)
qed

lemma checkSingle_ops:
  assumes "timed h" and "steps_ok m h" and "equal_ok m"
  obtains longest seqs where "checkSingle m (makeEntries h) computePartial (\<lambda>_. False) = Some (opLinearizable m h, longest, seqs)"
  using checkSingle_decides [OF fits_makeEntries [OF assms]] linearizable_ops [OF assms(1)] by metis

end
