(* ===== verification/KvModel.thy ===== *)
theory KvModel
  imports Porcupine "HOL-Library.AList" "HOL-Library.List_Lexorder" "HOL-Library.Char_ord"
begin

section \<open>The key/value model of the checker\<close>

text \<open>
  \<^verbatim>\<open>models/kv.go\<close>: the sequential specification of one key that the tests give to the checker, with
  the partition of a history by key. The dynamic type of an interface value is a constructor of
  \<open>kvValue\<close>, and a type assertion that fails is a panic.
\<close>

record KvInput =
  ki_Op :: "8 word"
  ki_Key :: string
  ki_Value :: string

record KvOutput =
  ko_Value :: string

datatype kvValue = KvIn KvInput | KvOut KvOutput

fun asKvInput :: "kvValue \<Rightarrow> KvInput option" where
  "asKvInput (KvIn i) = Some i"
| "asKvInput (KvOut _) = None"

fun asKvOutput :: "kvValue \<Rightarrow> KvOutput option" where
  "asKvOutput (KvOut out) = Some out"
| "asKvOutput (KvIn _) = None"

text \<open>The map from keys to operations, as an association list; the order of its keys is not used.\<close>

fun kvGroup ::
  "kvValue Operation list \<Rightarrow> (string \<times> kvValue Operation list) list \<Rightarrow>
   (string \<times> kvValue Operation list) list option" where
  "kvGroup [] m = Some m"
| "kvGroup (v # history) m = do {
     inp \<leftarrow> asKvInput (po_Input v);
     let key = ki_Key inp;
     kvGroup history (AList.map_default key [v] (\<lambda>vs. vs @ [v]) m)
   }"

definition kvPartition :: "kvValue Operation list \<Rightarrow> kvValue Operation list list option" where
  "kvPartition history = do {
     m \<leftarrow> kvGroup history [];
     let keys = sort (map fst m);
     Some (map (\<lambda>k. the (map_of m k)) keys)
   }"

definition kvInit :: string where
  "kvInit = ''''"

definition kvStep :: "string \<Rightarrow> kvValue \<Rightarrow> kvValue \<Rightarrow> (bool \<times> string) option" where
  "kvStep st input output = do {
     inp \<leftarrow> asKvInput input;
     out \<leftarrow> asKvOutput output;
     Some (if ki_Op inp = 0 then (ko_Value out = st, st)
           else if ki_Op inp = 1 then (True, ki_Value inp)
           else if ki_Op inp = 2 then (True, st @ ki_Value inp)
           else (ko_Value out = st, st @ ki_Value inp))
   }"

definition kvDescribeOperation :: "kvValue \<Rightarrow> kvValue \<Rightarrow> string option" where
  "kvDescribeOperation input output = do {
     inp \<leftarrow> asKvInput input;
     out \<leftarrow> asKvOutput output;
     Some (if ki_Op inp = 0 then ''get('' @ [CHR 0x27] @ ki_Key inp @ [CHR 0x27] @ '') -> '' @ [CHR 0x27] @ ko_Value out @ [CHR 0x27]
           else if ki_Op inp = 1 then ''put('' @ [CHR 0x27] @ ki_Key inp @ [CHR 0x27] @ '', '' @ [CHR 0x27] @ ki_Value inp @ [CHR 0x27] @ '')''
           else if ki_Op inp = 2 then ''append('' @ [CHR 0x27] @ ki_Key inp @ [CHR 0x27] @ '', '' @ [CHR 0x27] @ ki_Value inp @ [CHR 0x27] @ '')''
           else ''<invalid>'')
   }"

text \<open>
  \<^verbatim>\<open>KvModel\<close> leaves \<^verbatim>\<open>PartitionEvent\<close>, \<^verbatim>\<open>Equal\<close> and \<^verbatim>\<open>DescribeState\<close> out; what \<^verbatim>\<open>%v\<close> prints of a string is
  the string, and \<open>fmtV\<close> is what it prints of an input or output.
\<close>

definition KvModel :: "(kvValue \<Rightarrow> string) \<Rightarrow> (kvValue, string) Model" where
  "KvModel fmtV =
     \<lparr>md_Partition = Some kvPartition, md_PartitionEvent = None, md_Init = kvInit, md_Step = kvStep,
      md_Equal = None, md_DescribeOperation = Some kvDescribeOperation, md_DescribeState = None,
      md_fmtValue = fmtV, md_fmtState = (\<lambda>s. s)\<rparr>"

end
