(* ===== verification/PorcProps.thy ===== *)
theory PorcProps
  imports PorcOps KvModel
begin

section \<open>Correctness of the checker\<close>

text \<open>
  \<^verbatim>\<open>CheckOperations\<close> on the key/value model decides whether a history is linearizable with respect to
  the whole store: the searches of the partitions decide for their key, and a history of a store is
  linearizable when it is for each key.
\<close>

subsection \<open>All partitions\<close>

definition allArrive :: "nat \<Rightarrow> arrival list \<Rightarrow> bool" where
  "allArrive n schedule \<longleftrightarrow> (\<exists>perm later. schedule = map Result perm @ later \<and> distinct perm \<and> set perm = {..<n})"

lemma collect_all:
  assumes "distinct (got @ perm)" and "set (got @ perm) = {..<length rs}" and "perm \<noteq> []" and "ok = (\<forall>i \<in> set got. rs ! i)"
  shows "\<exists>got'. collect rs computeInfo timeout ok got (map Result perm @ later) = Some (\<forall>i < length rs. rs ! i, False, got')"
  using assms
proof (induction perm arbitrary: got ok)
  case (Cons i perm)
  have i: "i < length rs" "i \<notin> set got" using Cons.prems by auto
  have n: "length (got @ i # perm) = length rs" using Cons.prems by (metis card_lessThan distinct_card)
  let ?ok = "ok \<and> rs ! i"
  have ok: "?ok = (\<forall>j \<in> set (got @ [i]). rs ! j)" using Cons.prems(4) by auto
  have sub: "set (got @ [i]) \<subseteq> {..<length rs}" using Cons.prems(2) by auto
  show ?case
  proof (cases "\<not> ?ok \<and> \<not> computeInfo \<or> perm = []")
    case True
    have "?ok = (\<forall>j < length rs. rs ! j)"
    proof (cases "perm = []")
      case True
      then have "set (got @ [i]) = {..<length rs}" using Cons.prems(2) by simp
      then show ?thesis unfolding ok by (auto simp del: set_append)
    next
      case False
      with True have "\<not> ?ok" by simp
      moreover have "\<exists>j < length rs. \<not> rs ! j" using \<open>\<not> ?ok\<close> sub unfolding ok by (auto simp del: set_append)
      ultimately show ?thesis by blast
    qed
    then show ?thesis using True i n by (auto simp: Let_def)
  next
    case False
    have "\<exists>got'. collect rs computeInfo timeout ?ok (got @ [i]) (map Result perm @ later) = Some (\<forall>i < length rs. rs ! i, False, got')"
      by (rule Cons.IH) (use Cons.prems False ok in \<open>auto simp del: set_append\<close>)
    moreover have "\<not> length rs \<le> Suc (length got)" using n False by (cases perm) auto
    ultimately show ?thesis using False i by (auto simp: Let_def)
  qed
qed simp

lemma those_Some: "(\<And>x. x \<in> set xs \<Longrightarrow> f x = Some (g x)) \<Longrightarrow> those (map f xs) = Some (map g xs)"
  by (induction xs) auto

lemma fillDefault_simps [simp]:
  "md_Step (fillDefault m) = md_Step m" "md_Init (fillDefault m) = md_Init m"
  "md_Partition (fillDefault m) = Some (case md_Partition m of None \<Rightarrow> NoPartition | Some f \<Rightarrow> f)"
  "md_Equal (fillDefault m) = Some (case md_Equal m of None \<Rightarrow> ShallowEqual | Some f \<Rightarrow> f)"
  by (auto simp: fillDefault_def Let_def split: option.splits)

lemma opStep_fill: "opStep (fillDefault m) = opStep m"
  by (intro ext) (simp add: opStep_def)

lemma opLinearizable_fill [simp]: "opLinearizable (fillDefault m) h = opLinearizable m h"
  by (simp add: opLinearizable_def opLinearization_def opStep_fill)

lemma equal_ok_fill: "md_Equal m = None \<Longrightarrow> equal_ok (fillDefault m)"
  by (auto simp: equal_ok_def ShallowEqual_def)

lemma checkParallel_ops:
  assumes e: "equal_ok m" and p: "\<And>h. h \<in> set parts \<Longrightarrow> timed h \<and> steps_ok m h" and n: "parts \<noteq> []"
    and s: "allArrive (length parts) schedule"
  shows "map_option fst (checkParallel m (map makeEntries parts) False timeout schedule killed) =
    Some (if \<forall>h \<in> set parts. opLinearizable m h then Ok else Illegal)"
proof -
  define g where "g h = the (checkSingle m (makeEntries h) False (\<lambda>_. False))" for h
  have g: "checkSingle m (makeEntries h) False (\<lambda>_. False) = Some (g h) \<and> fst (g h) = opLinearizable m h" if h: "h \<in> set parts" for h
  proof -
    obtain longest seqs where "checkSingle m (makeEntries h) False (\<lambda>_. False) = Some (opLinearizable m h, longest, seqs)"
      using checkSingle_ops [OF _ _ e, of h False] p [OF h] by blast
    then show ?thesis by (simp add: g_def)
  qed
  have t: "those (map (\<lambda>sub. checkSingle m sub False (\<lambda>_. False)) (map makeEntries parts)) = Some (map g parts)"
    unfolding map_map comp_def by (rule those_Some) (use g in blast)
  have f: "map fst (map g parts) = map (opLinearizable m) parts" using g by simp
  obtain perm later where pm: "schedule = map Result perm @ later" "distinct perm" "set perm = {..<length parts}"
    using s by (auto simp: allArrive_def)
  have "0 \<in> set perm" unfolding pm(3) using n by simp
  then have "perm \<noteq> []" by auto
  then obtain got where "collect (map (opLinearizable m) parts) False timeout True [] schedule =
      Some (\<forall>i < length parts. opLinearizable m (parts ! i), False, got)"
    using collect_all [of "[]" perm "map (opLinearizable m) parts" True False timeout later] pm by auto
  moreover have "(\<forall>i < length parts. opLinearizable m (parts ! i)) \<longleftrightarrow> (\<forall>h \<in> set parts. opLinearizable m h)"
    by (metis in_set_conv_nth)
  ultimately show ?thesis unfolding checkParallel_def t by (simp add: f del: map_map)
qed

subsection \<open>The partition by key\<close>

definition keyOf :: "kvValue Operation \<Rightarrow> string" where
  "keyOf x = (case po_Input x of KvIn i \<Rightarrow> ki_Key i | KvOut _ \<Rightarrow> '''')"

definition typed :: "kvValue Operation list \<Rightarrow> bool" where
  "typed h \<longleftrightarrow> (\<forall>x \<in> set h. (\<exists>i. po_Input x = KvIn i) \<and> (\<exists>out. po_Output x = KvOut out))"

lemma kvGroup_ok:
  assumes "typed h" and "distinct (map fst m)"
  shows "\<exists>m'. kvGroup h m = Some m' \<and> distinct (map fst m') \<and> fst ` set m' = fst ` set m \<union> keyOf ` set h \<and>
    (\<forall>k \<in> fst ` set m'. map_of m' k =
       Some ((case map_of m k of None \<Rightarrow> [] | Some vs \<Rightarrow> vs) @ filter (\<lambda>x. keyOf x = k) h))"
  using assms
proof (induction h arbitrary: m)
  case Nil
  have "map_of m k = Some (case map_of m k of None \<Rightarrow> [] | Some vs \<Rightarrow> vs)" if "k \<in> fst ` set m" for k
    using that by (auto simp: map_of_eq_None_iff split: option.splits)
  with Nil show ?case by auto
next
  case (Cons x h)
  obtain i where i: "po_Input x = KvIn i" "keyOf x = ki_Key i" using Cons.prems(1) by (auto simp: typed_def keyOf_def)
  let ?m = "AList.map_default (keyOf x) [x] (\<lambda>vs. vs @ [x]) m"
  have d: "distinct (map fst ?m)" using Cons.prems(2) by (rule distinct_map_default)
  have k: "fst ` set ?m = insert (keyOf x) (fst ` set m)" by (rule dom_map_default)
  have v: "map_of ?m = (map_of m)(keyOf x \<mapsto> (case map_of m (keyOf x) of None \<Rightarrow> [x] | Some vs \<Rightarrow> vs @ [x]))"
    by (simp add: map_of_map_default split: option.splits)
  have "typed h" using Cons.prems(1) by (simp add: typed_def)
  from Cons.IH [OF this d] obtain m' where m': "kvGroup h ?m = Some m'" "distinct (map fst m')"
      "fst ` set m' = fst ` set ?m \<union> keyOf ` set h"
      "\<forall>k \<in> fst ` set m'. map_of m' k = Some ((case map_of ?m k of None \<Rightarrow> [] | Some vs \<Rightarrow> vs) @ filter (\<lambda>x. keyOf x = k) h)" by blast
  have "kvGroup (x # h) m = Some m'" using m'(1) i by simp
  moreover have "fst ` set m' = fst ` set m \<union> keyOf ` set (x # h)" using m'(3) k by auto
  moreover have "\<forall>k \<in> fst ` set m'. map_of m' k = Some ((case map_of m k of None \<Rightarrow> [] | Some vs \<Rightarrow> vs) @ filter (\<lambda>y. keyOf y = k) (x # h))"
    using m'(4) unfolding v by (auto split: option.splits)
  ultimately show ?case using m'(2) by blast
qed

lemma kvPartition_ok:
  assumes "typed h"
  obtains keys where "kvPartition h = Some (map (\<lambda>k. filter (\<lambda>x. keyOf x = k) h) keys)" and "set keys = keyOf ` set h" and "distinct keys"
proof -
  let ?e = "[] :: (string \<times> kvValue Operation list) list"
  have "distinct (map fst ?e)" by simp
  from kvGroup_ok [OF assms this] obtain m where m0: "kvGroup h [] = Some m" "distinct (map fst m)"
      "fst ` set m = fst ` set ?e \<union> keyOf ` set h"
      "\<forall>k \<in> fst ` set m. map_of m k = Some ((case map_of ?e k of None \<Rightarrow> [] | Some vs \<Rightarrow> vs) @ filter (\<lambda>x. keyOf x = k) h)"
    by blast
  have m: "fst ` set m = keyOf ` set h" "\<And>k. k \<in> fst ` set m \<Longrightarrow> map_of m k = Some (filter (\<lambda>x. keyOf x = k) h)"
    using m0(3,4) by auto
  have "kvPartition h = Some (map (\<lambda>k. filter (\<lambda>x. keyOf x = k) h) (sort (map fst m)))"
    using m0(1) m(2) by (simp add: kvPartition_def)
  with m(1) m0(2) show thesis by (intro that [of "sort (map fst m)"]) auto
qed

subsection \<open>Locality\<close>

text \<open>The whole store as a sequential system: an operation is the step of its key.\<close>

definition kvWholeStep :: "(string \<Rightarrow> string) \<Rightarrow> kvValue \<Rightarrow> kvValue \<Rightarrow> (bool \<times> (string \<Rightarrow> string)) option" where
  "kvWholeStep st input output = do {
     inp \<leftarrow> asKvInput input;
     (ok, v) \<leftarrow> kvStep (st (ki_Key inp)) input output;
     Some (ok, st(ki_Key inp := v))
   }"

definition kvWhole :: "(kvValue, string \<Rightarrow> string) Model" where
  "kvWhole =
     \<lparr>md_Partition = None, md_PartitionEvent = None, md_Init = (\<lambda>_. kvInit), md_Step = kvWholeStep, md_Equal = None,
      md_DescribeOperation = None, md_DescribeState = None, md_fmtValue = (\<lambda>_. ''''), md_fmtState = (\<lambda>_. '''')\<rparr>"

lemma kv_init: "md_Init kvWhole = (\<lambda>_. kvInit)" "md_Init (KvModel fmt) = kvInit"
  by (simp_all add: kvWhole_def KvModel_def)

lemma wholeStep:
  assumes "typed [x]"
  shows "opStep kvWhole st x = map_option (\<lambda>v. st(keyOf x := v)) (opStep (KvModel fmt) (st (keyOf x)) x)"
  using assms by (auto simp: typed_def opStep_def kvWhole_def KvModel_def kvWholeStep_def kvStep_def keyOf_def)

lemma whole_to_key:
  "typed order \<Longrightarrow> run (opStep kvWhole) st order = Some st' \<Longrightarrow>
   run (opStep (KvModel fmt)) (st k) (filter (\<lambda>x. keyOf x = k) order) = Some (st' k)"
proof (induction order arbitrary: st)
  case (Cons x order)
  have t: "typed [x]" "typed order" using Cons.prems(1) by (auto simp: typed_def)
  obtain v where v: "opStep (KvModel fmt) (st (keyOf x)) x = Some v" "run (opStep kvWhole) (st(keyOf x := v)) order = Some st'"
    using Cons.prems(2) wholeStep [OF t(1), of st fmt] by (auto simp: bind_eq_Some_conv)
  with Cons.IH [OF t(2) v(2)] show ?case by (auto split: if_splits)
qed simp

lemma inTime_filter: "inTime order \<Longrightarrow> inTime (filter P order)"
  unfolding inTime_def by (rule sorted_wrt_filter)

lemma keys_to_whole:
  assumes "typed h" and "timed h"
    and "\<And>k. k \<in> keyOf ` set h \<Longrightarrow> \<exists>order. opLinearization (KvModel fmt) (st k) (filter (\<lambda>x. keyOf x = k) h) order"
  shows "\<exists>order. opLinearization kvWhole st h order"
  using assms
proof (induction "length h" arbitrary: h st)
  case 0
  then show ?case by (intro exI [of _ "[]"]) (simp add: opLinearization_def inTime_def)
next
  case (Suc n)
  obtain x where x: "x \<in> set h" "\<And>y. y \<in> set h \<Longrightarrow> po_Return x \<le> po_Return y"
    using Suc.hyps(2) ex_min_if_finite [of "po_Return ` set h"] by (metis (no_types, lifting) List.finite_set finite_imageI image_iff image_is_empty leI length_0_conv nat.distinct(1) set_empty)
  let ?k = "keyOf x"
  obtain ord where o: "opLinearization (KvModel fmt) (st ?k) (filter (\<lambda>x. keyOf x = ?k) h) ord"
    using Suc.prems(3) x(1) by blast
  then have so: "set ord = {y \<in> set h. keyOf y = ?k}" by (metis mset_eq_setD opLinearization_def set_filter)
  with x(1) obtain y ys where y: "ord = y # ys" by (cases ord) auto
  have ky: "y \<in> set h" "keyOf y = ?k" using so y by auto
  have first: "\<not> po_Return z < po_Call y" if z: "z \<in> set h" for z
  proof -
    have "\<not> po_Return x < po_Call y"
    proof (cases "x = y")
      case True
      then show ?thesis using Suc.prems(2) x(1) by (auto simp: timed_def)
    next
      case False
      then have "x \<in> set ys" using so x(1) y by auto
      then show ?thesis using o y by (auto simp: opLinearization_def inTime_def)
    qed
    then show ?thesis using x(2) [OF z] by simp
  qed
  obtain us vs where h: "h = us @ y # vs" using split_list [OF ky(1)] by blast
  have tt: "typed [y]" "typed (us @ vs)" "timed (us @ vs)" using Suc.prems(1,2) h by (auto simp: typed_def timed_def)
  obtain v where v: "opStep (KvModel fmt) (st ?k) y = Some v" "run (opStep (KvModel fmt)) v ys \<noteq> None"
    using o y by (auto simp: opLinearization_def bind_eq_Some_conv)
  let ?st = "st(?k := v)"
  have "\<exists>order. opLinearization (KvModel fmt) (?st k) (filter (\<lambda>x. keyOf x = k) (us @ vs)) order" if k: "k \<in> keyOf ` set (us @ vs)" for k
  proof (cases "k = ?k")
    case True
    have "opLinearization (KvModel fmt) v (filter (\<lambda>x. keyOf x = k) (us @ vs)) ys"
      using o y h ky True v(2) by (auto simp: opLinearization_def inTime_def)
    with True show ?thesis by auto
  next
    case False
    then show ?thesis using Suc.prems(3) [of k] k h ky(2) by auto
  qed
  then obtain rest where r: "opLinearization kvWhole ?st (us @ vs) rest"
    using Suc.hyps(1) [of "us @ vs" ?st] Suc.hyps(2) h tt by auto
  then have "set rest = set (us @ vs)" by (metis mset_eq_setD opLinearization_def)
  then have "opLinearization kvWhole st h (y # rest)"
    using r h first v(1) ky(2) wholeStep [OF tt(1), of st fmt] by (auto simp: opLinearization_def inTime_def)
  then show ?case by blast
qed

theorem kv_locality:
  assumes "typed h" and "timed h"
  shows "opLinearizable kvWhole h \<longleftrightarrow> (\<forall>k \<in> keyOf ` set h. opLinearizable (KvModel fmt) (filter (\<lambda>x. keyOf x = k) h))"
proof
  assume "opLinearizable kvWhole h"
  then obtain order st where o: "mset order = mset h" "inTime order" "run (opStep kvWhole) (\<lambda>_. kvInit) order = Some st"
    by (auto simp: opLinearizable_def opLinearization_def kvWhole_def)
  then have "typed order" using assms(1) by (metis mset_eq_setD typed_def)
  then have "run (opStep (KvModel fmt)) kvInit (filter (\<lambda>x. keyOf x = k) order) = Some (st k)" for k
    using whole_to_key [OF _ o(3)] by simp
  then have "opLinearization (KvModel fmt) kvInit (filter (\<lambda>x. keyOf x = k) h) (filter (\<lambda>x. keyOf x = k) order)" for k
    using o inTime_filter by (simp add: opLinearization_def)
  then show "\<forall>k \<in> keyOf ` set h. opLinearizable (KvModel fmt) (filter (\<lambda>x. keyOf x = k) h)"
    unfolding opLinearizable_def kv_init by blast
next
  assume "\<forall>k \<in> keyOf ` set h. opLinearizable (KvModel fmt) (filter (\<lambda>x. keyOf x = k) h)"
  then show "opLinearizable kvWhole h"
    using keys_to_whole [OF assms, of fmt "\<lambda>_. kvInit"] unfolding opLinearizable_def kv_init by blast
qed

lemma kv_steps_ok: "typed h \<Longrightarrow> steps_ok (KvModel fmt) h"
  by (fastforce simp: steps_ok_def typed_def KvModel_def kvStep_def)

subsection \<open>Properties\<close>

text \<open>
  (C33) The search of \<^verbatim>\<open>checkSingle\<close> always returns, without a panic, on a history whose operations each
  have one call and a later return and whose values the model accepts. When it returns true the history
  is linearizable; when it returns false it was told to stop or the history is not linearizable.
\<close>

theorem checker_decides:
  assumes "history_fits m es"
  shows "\<exists>ok longest seqs. checkSingle m es computePartial kill = Some (ok, longest, seqs) \<and>
    (ok \<longrightarrow> linearizable m es) \<and> (\<not> ok \<longrightarrow> (\<exists>k. kill k) \<or> \<not> linearizable m es)"
  using checkSingle_ok [OF assms] by blast

definition kvOp :: "8 word \<Rightarrow> string \<Rightarrow> string \<Rightarrow> int \<Rightarrow> string \<Rightarrow> int \<Rightarrow> kvValue Operation" where
  "kvOp k key v c out r =
     \<lparr>po_ClientId = 0, po_Input = KvIn \<lparr>ki_Op = k, ki_Key = key, ki_Value = v\<rparr>, po_Call = c,
      po_Output = KvOut \<lparr>ko_Value = out\<rparr>, po_Return = r\<rparr>"

definition demoHistory :: "kvValue Operation list" where
  "demoHistory = [kvOp 1 ''x'' ''a'' 0 '''' 10, kvOp 2 ''x'' ''b'' 5 '''' 15, kvOp 0 ''x'' '''' 12 ''a'' 20, kvOp 1 ''y'' ''c'' 3 '''' 8]"

lemma demoHistory_ok: "typed demoHistory" "timed demoHistory" "demoHistory \<noteq> []" "keyOf ` set demoHistory = {''x'', ''y''}"
  by (auto simp: demoHistory_def kvOp_def typed_def timed_def keyOf_def)

lemma demo_fits: "history_fits (fillDefault (KvModel (\<lambda>_. ''''))) (makeEntries demoHistory)"
proof (rule fits_makeEntries)
  show "steps_ok (fillDefault (KvModel (\<lambda>_. ''''))) demoHistory"
    using kv_steps_ok [OF demoHistory_ok(1), of "\<lambda>_. ''''"] by (simp add: steps_ok_def)
  show "equal_ok (fillDefault (KvModel (\<lambda>_. '''')))" by (rule equal_ok_fill) (simp add: KvModel_def)
qed (rule demoHistory_ok)

theorem checker_decides_witness:
  "\<exists>ok longest seqs. checkSingle (fillDefault (KvModel (\<lambda>_. ''''))) (makeEntries demoHistory) True (\<lambda>_. False) = Some (ok, longest, seqs)"
  using checker_decides [OF demo_fits, of True "\<lambda>_. False"] by blast

text \<open>
  (C34) \<^verbatim>\<open>CheckOperations\<close> with the key/value model, on a history that is not empty, says exactly whether the
  history is linearizable with respect to the whole store, although it only checks each key by itself;
  in whatever order the verdicts of the keys arrive.
\<close>

theorem kv_history_checked:
  assumes "typed h" and "timed h" and "h \<noteq> []" and "allArrive (card (keyOf ` set h)) schedule"
  shows "CheckOperations (KvModel fmt) h schedule killed = Some (opLinearizable kvWhole h)"
proof -
  let ?m = "fillDefault (KvModel fmt)" and ?part = "\<lambda>k. filter (\<lambda>x. keyOf x = k) h"
  obtain keys where k: "kvPartition h = Some (map ?part keys)" "set keys = keyOf ` set h" "distinct keys"
    by (rule kvPartition_ok [OF assms(1)])
  have s: "allArrive (length (map ?part keys)) schedule" using assms(4) k(2,3) by (simp add: distinct_card [symmetric])
  have p: "timed sub \<and> steps_ok ?m sub" if "sub \<in> set (map ?part keys)" for sub
    using that assms(2) kv_steps_ok [OF assms(1), of fmt] by (auto simp: timed_def steps_ok_def)
  have e: "equal_ok ?m" by (rule equal_ok_fill) (simp add: KvModel_def)
  have n: "map ?part keys \<noteq> []" using k(2) assms(3) by auto
  have "md_Partition ?m = Some kvPartition" by (simp add: KvModel_def)
  then have "CheckOperations (KvModel fmt) h schedule killed =
      map_option (\<lambda>r. r = Ok) (map_option fst (checkParallel ?m (map makeEntries (map ?part keys)) False 0 schedule killed))"
    unfolding CheckOperations_def checkOperations_def Let_def using k(1)
    by (cases "checkParallel ?m (map makeEntries (map ?part keys)) False 0 schedule killed") (auto simp del: fillDefault_simps)
  also have "\<dots> = Some (\<forall>sub \<in> set (map ?part keys). opLinearizable ?m sub)"
    by (subst checkParallel_ops [OF e p n s]) auto
  also have "(\<forall>sub \<in> set (map ?part keys). opLinearizable ?m sub) = opLinearizable kvWhole h"
    unfolding kv_locality [OF assms(1,2), of fmt] using k(2) by auto
  finally show ?thesis .
qed

theorem kv_history_checked_witness:
  "CheckOperations (KvModel (\<lambda>_. '''')) demoHistory [Result 1, Result 0] (\<lambda>_ _. False) = Some (opLinearizable kvWhole demoHistory) \<and>
   CheckOperations (KvModel (\<lambda>_. '''')) demoHistory [Result 1, Result 0] (\<lambda>_ _. False) = Some True"
proof
  have "[Result 1, Result 0] = map Result [1, 0] @ []" "set [1, 0 :: nat] = {..<2}" by auto
  then have "allArrive (card (keyOf ` set demoHistory)) [Result 1, Result 0]"
    unfolding allArrive_def demoHistory_ok(4) by (intro exI [of _ "[1, 0]"] exI [of _ "[]"]) simp
  then show "CheckOperations (KvModel (\<lambda>_. '''')) demoHistory [Result 1, Result 0] (\<lambda>_ _. False) = Some (opLinearizable kvWhole demoHistory)"
    by (rule kv_history_checked [OF demoHistory_ok(1-3)])
  show "CheckOperations (KvModel (\<lambda>_. '''')) demoHistory [Result 1, Result 0] (\<lambda>_ _. False) = Some True" by code_simp
qed

text \<open>
  (C35) On an empty history \<^verbatim>\<open>CheckOperations\<close> with the key/value model never returns: there is no partition,
  so no verdict ever arrives, and the loop waits before it counts.
\<close>

theorem empty_history_blocks: "CheckOperations (KvModel fmt) [] schedule killed = None"
proof -
  have "collect [] False 0 True [] schedule = None"
    by (cases "([] :: bool list, False, 0 :: int, True, [] :: nat list, schedule)" rule: collect.cases) auto
  then show ?thesis
    by (simp add: CheckOperations_def checkOperations_def KvModel_def kvPartition_def checkParallel_def)
qed

end
