(* ===== verification/Visualization.thy ===== *)
theory Visualization
  imports PorcProps
begin

section \<open>Data for the visualization\<close>

text \<open>
  \<^verbatim>\<open>porcupine/visualization.go\<close>: what \<^verbatim>\<open>computeVisualizationData\<close> makes of the result of a verbose check.
  It runs the model again along each partial linearization and panics if a step is refused; the
  theorem at the end is that this does not happen. \<^verbatim>\<open>Visualize\<close> and \<^verbatim>\<open>VisualizePath\<close> write the data as JSON into
  a page, which is input/output.
\<close>

record historyElement =
  he_ClientId :: int
  he_Start :: int
  he_End :: int
  he_Description :: string

record linearizationStep =
  ls_Index :: int
  ls_StateDescription :: string

record partitionVisualizationData =
  pv_History :: "historyElement list"
  pv_PartialLinearizations :: "linearizationStep list list"
  pv_Largest :: "int \<rightharpoonup> int"

text \<open>
  The loop over the entries of a partition. A value that is not in \<^verbatim>\<open>callValue\<close> would be \<^verbatim>\<open>nil\<close>, which the
  model does not describe.
\<close>

fun historyLoop ::
  "('v, 's) Model \<Rightarrow> 'v entry list \<Rightarrow> historyElement list \<Rightarrow> (int \<rightharpoonup> 'v) \<Rightarrow> (int \<rightharpoonup> 'v) \<Rightarrow>
   (historyElement list \<times> (int \<rightharpoonup> 'v) \<times> (int \<rightharpoonup> 'v)) option" where
  "historyLoop m [] history callValue returnValue = Some (history, callValue, returnValue)"
| "historyLoop m (elem # entries) history callValue returnValue =
     (case pe_kind elem of
        callEntry \<Rightarrow> do {
          he \<leftarrow> slice_get history (pe_id elem);
          history \<leftarrow> slice_set history (pe_id elem) (he\<lparr>he_ClientId := pe_clientId elem, he_Start := pe_time elem\<rparr>);
          historyLoop m entries history (callValue(pe_id elem \<mapsto> pe_value elem)) returnValue
        }
      | returnEntry \<Rightarrow> do {
          he \<leftarrow> slice_get history (pe_id elem);
          describe \<leftarrow> md_DescribeOperation m;
          v \<leftarrow> callValue (pe_id elem);
          d \<leftarrow> describe v (pe_value elem);
          history \<leftarrow> slice_set history (pe_id elem) (he\<lparr>he_End := pe_time elem, he_Description := d\<rparr>);
          historyLoop m entries history callValue (returnValue(pe_id elem \<mapsto> pe_value elem))
        })"

text \<open>The loop over one partial linearization, number \<open>i\<close>, of length \<open>len\<close>.\<close>

fun partialLoop ::
  "('v, 's) Model \<Rightarrow> (int \<rightharpoonup> 'v) \<Rightarrow> (int \<rightharpoonup> 'v) \<Rightarrow> nat \<Rightarrow> nat \<Rightarrow> int list \<Rightarrow> 's \<Rightarrow> (int \<rightharpoonup> int) \<Rightarrow> (int \<rightharpoonup> nat) \<Rightarrow>
   (linearizationStep list \<times> (int \<rightharpoonup> int) \<times> (int \<rightharpoonup> nat)) option" where
  "partialLoop m callValue returnValue i len [] st largestIndex largestSize = Some ([], largestIndex, largestSize)"
| "partialLoop m callValue returnValue i len (histId # partial) st largestIndex largestSize = do {
     input \<leftarrow> callValue histId;
     output \<leftarrow> returnValue histId;
     (ok, st) \<leftarrow> md_Step m st input output;
     if \<not> ok then None
     else do {
       describe \<leftarrow> md_DescribeState m;
       let step = \<lparr>ls_Index = histId, ls_StateDescription = describe st\<rparr>;
       let larger = (case largestSize histId of None \<Rightarrow> 0 | Some n \<Rightarrow> n) < len;
       let largestIndex = (if larger then largestIndex(histId \<mapsto> int i) else largestIndex);
       let largestSize = (if larger then largestSize(histId \<mapsto> len) else largestSize);
       (steps, largestIndex, largestSize) \<leftarrow>
         partialLoop m callValue returnValue i len partial st largestIndex largestSize;
       Some (step # steps, largestIndex, largestSize)
     }
   }"

fun partialsLoop ::
  "('v, 's) Model \<Rightarrow> (int \<rightharpoonup> 'v) \<Rightarrow> (int \<rightharpoonup> 'v) \<Rightarrow> nat \<Rightarrow> int list list \<Rightarrow> (int \<rightharpoonup> int) \<Rightarrow> (int \<rightharpoonup> nat) \<Rightarrow>
   (linearizationStep list list \<times> (int \<rightharpoonup> int)) option" where
  "partialsLoop m callValue returnValue i [] largestIndex largestSize = Some ([], largestIndex)"
| "partialsLoop m callValue returnValue i (partial # partials) largestIndex largestSize = do {
     (linearization, largestIndex, largestSize) \<leftarrow>
       partialLoop m callValue returnValue i (length partial) partial (md_Init m) largestIndex largestSize;
     (linearizations, largestIndex) \<leftarrow> partialsLoop m callValue returnValue (i + 1) partials largestIndex largestSize;
     Some (linearization # linearizations, largestIndex)
   }"

definition computePartition ::
  "('v, 's) Model \<Rightarrow> 'v entry list \<Rightarrow> int list list \<Rightarrow> partitionVisualizationData option" where
  "computePartition m entries partials = do {
     let n = length entries div 2;
     (history, callValue, returnValue) \<leftarrow>
       historyLoop m entries
         (replicate n \<lparr>he_ClientId = 0, he_Start = 0, he_End = 0, he_Description = ''''\<rparr>) Map.empty Map.empty;
     let partials = sortBy (\<lambda>p q. length p > length q) partials;
     (linearizations, largestIndex) \<leftarrow> partialsLoop m callValue returnValue 0 partials Map.empty Map.empty;
     Some \<lparr>pv_History = history, pv_PartialLinearizations = linearizations, pv_Largest = largestIndex\<rparr>
   }"

definition computeVisualizationData ::
  "('v, 's) Model \<Rightarrow> 'v linearizationInfo \<Rightarrow> partitionVisualizationData list option" where
  "computeVisualizationData m info = do {
     let m = fillDefault m;
     those (map (\<lambda>partition. do {
         partials \<leftarrow> slice_get (li_partialLinearizations info) (int partition);
         computePartition m (li_history info ! partition) partials
       }) [0..<length (li_history info)])
   }"

subsection \<open>The loops\<close>

lemma complete_return_call:
  assumes c: "complete es" and s: "es = ds @ r # ts" "\<not> isCall r"
  shows "\<exists>d \<in> set ds. isCall d \<and> pe_id d = pe_id r"
proof -
  have d: "distinct es" by (rule complete_distinct [OF c])
  have "pe_id r \<in> ids es" using s(1) by simp
  then obtain k where k: "k \<in> set es" "isCall k" "pe_id k = pe_id r"
    by (rule complete_E [OF c]) auto
  have "k \<notin> set ts"
  proof
    assume "k \<in> set ts"
    then obtain t1 t2 where t: "ts = t1 @ k # t2" by (meson split_list)
    then obtain r' where r': "r' \<in> set t2" "\<not> isCall r'" "pe_id r' = pe_id r"
      using complete_call_unique(1) [OF c, of "ds @ r # t1" k t2] s(1) k by auto
    then have "r' = r" using entry_unique [OF c, of r' r] s t by (auto simp: not_call)
    with r'(1) d s(1) t show False by auto
  qed
  with k s show ?thesis by auto
qed

definition valueAt :: "entryKind \<Rightarrow> 'v entry list \<Rightarrow> int \<Rightarrow> 'v option" where
  "valueAt k es i = map_option pe_value (entryOf k es i)"

lemma find_app: "List.find P (xs @ ys) = (case List.find P xs of None \<Rightarrow> List.find P ys | Some x \<Rightarrow> Some x)"
  by (induction xs) auto

lemma valueAt_snoc:
  assumes c: "complete es" and s: "es = ds @ e # ts"
  shows "valueAt k (ds @ [e]) = (if pe_kind e = k then (valueAt k ds)(pe_id e \<mapsto> pe_value e) else valueAt k ds)"
proof
  fix i
  have "List.find (\<lambda>x. pe_kind x = pe_kind e \<and> pe_id x = pe_id e) ds = None"
    using entry_unique [OF c, of _ e] complete_distinct [OF c] s by (auto simp: find_None_iff)
  then show "valueAt k (ds @ [e]) i = (if pe_kind e = k then (valueAt k ds)(pe_id e \<mapsto> pe_value e) else valueAt k ds) i"
    by (auto simp: valueAt_def entryOf_def find_app split: option.splits)
qed

definition describes :: "('v, 's) Model \<Rightarrow> 'v entry list \<Rightarrow> bool" where
  "describes m es \<longleftrightarrow> md_DescribeState m \<noteq> None \<and>
     (\<exists>d. md_DescribeOperation m = Some d \<and>
       (\<forall>c \<in> set es. \<forall>r \<in> set es. isCall c \<and> \<not> isCall r \<and> pe_id c = pe_id r \<longrightarrow> d (pe_value c) (pe_value r) \<noteq> None))"

lemma historyLoop_ok:
  assumes f: "history_fits m es" and d: "describes m es"
  shows "es = ds @ ts \<Longrightarrow> length hs = length es div 2 \<Longrightarrow>
    \<exists>hs'. historyLoop m ts hs (valueAt callEntry ds) (valueAt returnEntry ds) =
      Some (hs', valueAt callEntry es, valueAt returnEntry es) \<and> length hs' = length es div 2"
proof (induction ts arbitrary: ds hs)
  case (Cons e ts)
  have c: "complete es" using f by (simp add: history_fits_def)
  have "pe_id e \<in> ids es" using Cons.prems(1) by simp
  then obtain k where k: "pe_id e = int k" "k < length hs" using f Cons.prems(2) by (auto simp: history_fits_def)
  have g: "slice_get hs (pe_id e) = Some (hs ! k)" "slice_set hs (pe_id e) v = Some (hs[k := v])" for v
    using k by (simp_all add: go_slice)
  note vs = valueAt_snoc [OF c Cons.prems(1)]
  have IH: "\<exists>hs'. historyLoop m ts (hs[k := v]) (valueAt callEntry (ds @ [e])) (valueAt returnEntry (ds @ [e])) =
      Some (hs', valueAt callEntry es, valueAt returnEntry es) \<and> length hs' = length es div 2" for v
    by (rule Cons.IH) (use Cons.prems in simp_all)
  show ?case
  proof (cases "isCall e")
    case True
    with IH g show ?thesis by (simp add: vs)
  next
    case False
    obtain b where b: "b \<in> set ds" "isCall b" "pe_id b = pe_id e"
      using complete_return_call [OF c Cons.prems(1) False] by blast
    have "entryOf callEntry ds (pe_id e) \<noteq> None" using b by (auto simp: entryOf_def find_None_iff)
    then obtain b' where b': "entryOf callEntry ds (pe_id e) = Some b'" by auto
    then have b'': "b' \<in> set ds" "isCall b'" "pe_id b' = pe_id e" by (auto simp: entryOf_def find_Some_iff)
    obtain dsc where "md_DescribeOperation m = Some dsc" "dsc (pe_value b') (pe_value e) \<noteq> None"
      using d b'' False Cons.prems(1) unfolding describes_def by force
    moreover have "valueAt callEntry ds (pe_id e) = Some (pe_value b')" using b' by (simp add: valueAt_def)
    ultimately show ?thesis using IH g False by (auto simp: vs not_call)
  qed
qed simp

lemma walk_run: "walk f es s q = Some (r, s') \<Longrightarrow> run f s q = Some s'"
  by (induction q arbitrary: es s) (auto simp: bind_eq_Some_conv split: if_splits)

lemma stepId_values:
  assumes "stepId m es s i = Some s'"
  obtains v w where "valueAt callEntry es i = Some v" and "valueAt returnEntry es i = Some w" and "md_Step m s v w = Some (True, s')"
  using assms by (auto simp: stepId_def valueAt_def bind_eq_Some_conv split: if_splits)

lemma partialLoop_ok:
  assumes "md_DescribeState m \<noteq> None"
  shows "run (stepId m es) s q = Some s' \<Longrightarrow>
    \<exists>steps li ls. partialLoop m (valueAt callEntry es) (valueAt returnEntry es) i len q s largestIndex largestSize = Some (steps, li, ls) \<and>
      map ls_Index steps = q"
proof (induction q arbitrary: s largestIndex largestSize)
  case (Cons j q)
  obtain t where t: "stepId m es s j = Some t" "run (stepId m es) t q = Some s'" using Cons.prems by (auto simp: bind_eq_Some_conv)
  obtain v w where v: "valueAt callEntry es j = Some v" "valueAt returnEntry es j = Some w" "md_Step m s v w = Some (True, t)"
    by (rule stepId_values [OF t(1)])
  obtain dsc where dsc: "md_DescribeState m = Some dsc" using assms by auto
  let ?larger = "(case largestSize j of None \<Rightarrow> 0 | Some n \<Rightarrow> n) < len"
  from Cons.IH [OF t(2), of "if ?larger then largestIndex(j \<mapsto> int i) else largestIndex" "if ?larger then largestSize(j \<mapsto> len) else largestSize"]
  show ?case using v dsc by (auto simp: Let_def)
qed simp

lemma partialsLoop_ok:
  assumes "md_DescribeState m \<noteq> None" and "\<forall>q \<in> set qs. walk (stepId m es) es (md_Init m) q \<noteq> None"
  shows "\<exists>ls li. partialsLoop m (valueAt callEntry es) (valueAt returnEntry es) i qs largestIndex largestSize = Some (ls, li) \<and>
    map (map ls_Index) ls = qs"
  using assms(2)
proof (induction qs arbitrary: i largestIndex largestSize)
  case (Cons q qs)
  obtain r s where "walk (stepId m es) es (md_Init m) q = Some (r, s)" using Cons.prems by auto
  from partialLoop_ok [OF assms(1) walk_run [OF this], of i "length q" largestIndex largestSize]
  obtain steps li ls where "partialLoop m (valueAt callEntry es) (valueAt returnEntry es) i (length q) q (md_Init m) largestIndex largestSize = Some (steps, li, ls)"
    "map ls_Index steps = q" by blast
  with Cons.IH [of "i + 1" li ls] Cons.prems show ?case by auto
qed simp

lemma computePartition_ok:
  assumes f: "history_fits m es" and d: "describes m es" and q: "\<forall>q \<in> set qs. walk (stepId m es) es (md_Init m) q \<noteq> None"
  shows "\<exists>data. computePartition m es qs = Some data \<and> length (pv_History data) = length es div 2 \<and>
    mset (map (map ls_Index) (pv_PartialLinearizations data)) = mset qs"
proof -
  have e: "valueAt k [] = Map.empty" for k by (rule ext) (simp add: valueAt_def entryOf_def)
  obtain hs where h: "historyLoop m es (replicate (length es div 2) \<lparr>he_ClientId = 0, he_Start = 0, he_End = 0, he_Description = ''''\<rparr>)
      Map.empty Map.empty = Some (hs, valueAt callEntry es, valueAt returnEntry es)" "length hs = length es div 2"
    using historyLoop_ok [OF f d, of "[]" es "replicate (length es div 2) \<lparr>he_ClientId = 0, he_Start = 0, he_End = 0, he_Description = ''''\<rparr>"]
    by (auto simp: e)
  let ?qs = "sortBy (\<lambda>p q. length p > length q) qs"
  have m: "mset ?qs = mset qs" by simp
  have "set ?qs = set qs" using m by (rule mset_eq_setD)
  then obtain ls li where l: "partialsLoop m (valueAt callEntry es) (valueAt returnEntry es) 0 ?qs Map.empty Map.empty = Some (ls, li)"
      "map (map ls_Index) ls = ?qs"
    using partialsLoop_ok [of m ?qs es 0 Map.empty Map.empty] d q unfolding describes_def by auto
  then have "mset (map (map ls_Index) ls) = mset qs" using m by (simp only:)
  with h l(1) show ?thesis by (simp add: computePartition_def del: mset_map)
qed

subsection \<open>After a verbose check\<close>

lemma those_nth:
  "those (map f xs) = Some ys \<Longrightarrow> length ys = length xs \<and> (\<forall>i < length xs. f (xs ! i) = Some (ys ! i))"
proof (induction xs arbitrary: ys)
  case (Cons x xs)
  then obtain y zs where "f x = Some y" "those (map f xs) = Some zs" "ys = y # zs"
    by (auto split: option.splits)
  with Cons.IH [of zs] show ?case by (auto simp: nth_Cons split: nat.splits)
qed simp

lemma partials_walk:
  assumes "history_fits m es" and "checkSingle m es True kill = Some (ok, ptrs, seqs)"
  shows "\<forall>q \<in> set (uniquePartials ptrs seqs). walk (stepId m es) es (md_Init m) q \<noteq> None"
proof -
  have p: "pointers_ok (length es div 2) seqs ptrs" "\<forall>q \<in> set seqs. walk (stepId m es) es (md_Init m) q \<noteq> None"
    using checkSingle_ok [OF assms(1), of True kill] assms(2) by auto
  have "set (uniquePartials ptrs seqs) \<subseteq> set seqs"
  proof
    fix q assume "q \<in> set (uniquePartials ptrs seqs)"
    then obtain ptr where "Some ptr \<in> set ptrs" "q = seqs ! ptr" by (auto simp: uniquePartials_def List.map_filter_def)
    moreover obtain i where "i < length ptrs" "ptrs ! i = Some ptr" using calculation(1) by (auto simp: in_set_conv_nth)
    ultimately show "q \<in> set seqs" using p(1) by (auto simp: pointers_ok_def)
  qed
  with p(2) show ?thesis by blast
qed

lemma checkParallel_info:
  assumes "checkParallel m history True timeout schedule killed = Some (res, info)"
  shows "li_history info = history \<and> length (li_partialLinearizations info) = length history \<and>
    (\<forall>i < length history. \<exists>kill ok ptrs seqs. checkSingle m (history ! i) True kill = Some (ok, ptrs, seqs) \<and>
       li_partialLinearizations info ! i = uniquePartials ptrs seqs)"
proof -
  obtain singles got longest where s: "those (map (\<lambda>sub. checkSingle m sub True (\<lambda>_. False)) history) = Some singles"
      "those (map (\<lambda>i. if i \<in> set got then Some (singles ! i) else checkSingle m (history ! i) True (killed i)) [0..<length history]) = Some longest"
      "info = \<lparr>li_history = history, li_partialLinearizations = map (\<lambda>(ok, ptrs, seqs). uniquePartials ptrs seqs) longest\<rparr>"
    using assms by (auto simp: checkParallel_def bind_eq_Some_conv)
  have "\<exists>kill. checkSingle m (history ! i) True kill = Some (longest ! i)" if i: "i < length history" for i
  proof -
    have "(if i \<in> set got then Some (singles ! i) else checkSingle m (history ! i) True (killed i)) = Some (longest ! i)"
      using those_nth [OF s(2)] i by auto
    moreover have "checkSingle m (history ! i) True (\<lambda>_. False) = Some (singles ! i)" using those_nth [OF s(1)] i by auto
    ultimately show ?thesis by (cases "i \<in> set got") auto
  qed
  moreover have "length longest = length history" using those_nth [OF s(2)] by simp
  ultimately show ?thesis using s(3) by (auto simp: split_beta) (metis prod.collapse)
qed

lemma kv_describes:
  assumes "typed h" and "timed h"
  shows "describes (fillDefault (KvModel fmt)) (makeEntries h)"
proof -
  have "kvDescribeOperation (pe_value c) (pe_value r) \<noteq> None"
    if "c \<in> set (makeEntries h)" "r \<in> set (makeEntries h)" "isCall c" "\<not> isCall r" "pe_id c = pe_id r" for c r
    using entries_pair [OF assms(2) that] assms(1) by (force simp: typed_def kvDescribeOperation_def)
  moreover have "md_DescribeOperation (fillDefault (KvModel fmt)) = Some kvDescribeOperation"
    "md_DescribeState (fillDefault (KvModel fmt)) \<noteq> None" by (simp_all add: fillDefault_def KvModel_def)
  ultimately show ?thesis unfolding describes_def by blast
qed

lemma visualize_parts:
  assumes e: "equal_ok m" and p: "\<And>h. h \<in> set parts \<Longrightarrow> timed h \<and> steps_ok m h \<and> describes m (makeEntries h)"
    and c: "checkParallel m (map makeEntries parts) True timeout schedule killed = Some (res, info)"
  shows "\<exists>data. those (map (\<lambda>partition. do {
         partials \<leftarrow> slice_get (li_partialLinearizations info) (int partition);
         computePartition m (li_history info ! partition) partials
       }) [0..<length (li_history info)]) = Some data \<and> length data = length parts"
proof -
  note i = checkParallel_info [OF c]
  let ?f = "\<lambda>partition. do {
         partials \<leftarrow> slice_get (li_partialLinearizations info) (int partition);
         computePartition m (li_history info ! partition) partials
       }"
  have "\<exists>data. ?f k = Some data" if k: "k < length parts" for k
  proof -
    have h: "parts ! k \<in> set parts" using k by simp
    obtain kill ok ptrs seqs where s: "checkSingle m (makeEntries (parts ! k)) True kill = Some (ok, ptrs, seqs)"
        "li_partialLinearizations info ! k = uniquePartials ptrs seqs" using i k by auto
    have f: "history_fits m (makeEntries (parts ! k))" by (rule fits_makeEntries) (use p [OF h] e in auto)
    have g: "slice_get (li_partialLinearizations info) (int k) = Some (uniquePartials ptrs seqs)"
      using i k s(2) by (simp add: go_slice)
    have "\<exists>data. computePartition m (makeEntries (parts ! k)) (uniquePartials ptrs seqs) = Some data"
      using computePartition_ok [OF f _ partials_walk [OF f s(1)]] p [OF h] by blast
    then show ?thesis using g i k by simp
  qed
  then have "those (map ?f [0..<length parts]) = Some (map (\<lambda>k. the (?f k)) [0..<length parts])"
    by (intro those_Some) force
  then show ?thesis using i by simp
qed

text \<open>
  (C36) After a verbose check of a key/value history, \<^verbatim>\<open>computeVisualizationData\<close> never reaches its panic: every
  partial linearization that the checker reports is one the model can run. It yields one entry for each
  key, even if the check was stopped by the timeout.
\<close>

theorem visualization_never_panics:
  assumes "typed h" and "timed h" and "CheckOperationsVerbose (KvModel fmt) h timeout schedule killed = Some (res, info)"
  shows "\<exists>data. computeVisualizationData (KvModel fmt) info = Some data \<and> length data = card (keyOf ` set h)"
proof -
  let ?m = "fillDefault (KvModel fmt)" and ?part = "\<lambda>k. filter (\<lambda>x. keyOf x = k) h"
  obtain keys where k: "kvPartition h = Some (map ?part keys)" "set keys = keyOf ` set h" "distinct keys"
    by (rule kvPartition_ok [OF assms(1)])
  have "md_Partition ?m = Some kvPartition" by (simp add: KvModel_def)
  then have c: "checkParallel ?m (map makeEntries (map ?part keys)) True timeout schedule killed = Some (res, info)"
    using assms(3) k(1) by (simp add: CheckOperationsVerbose_def checkOperations_def Let_def del: fillDefault_simps)
  have e: "equal_ok ?m" by (rule equal_ok_fill) (simp add: KvModel_def)
  have p: "timed sub \<and> steps_ok ?m sub \<and> describes ?m (makeEntries sub)" if "sub \<in> set (map ?part keys)" for sub
  proof -
    have "typed sub" "timed sub" using that assms(1,2) by (auto simp: timed_def typed_def)
    then show ?thesis using kv_steps_ok [of sub fmt] kv_describes [of sub fmt] by (simp add: steps_ok_def)
  qed
  have "length (map ?part keys) = card (keyOf ` set h)" using k(2,3) by (simp add: distinct_card [symmetric])
  with visualize_parts [OF e p c] show ?thesis by (simp add: computeVisualizationData_def)
qed

theorem visualization_never_panics_witness:
  "\<exists>res info data. CheckOperationsVerbose (KvModel (\<lambda>_. '''')) demoHistory 0 [Result 1, Result 0] (\<lambda>_ _. False) = Some (res, info) \<and>
     computeVisualizationData (KvModel (\<lambda>_. '''')) info = Some data \<and> length data = 2"
proof -
  have "\<not> Option.is_none (CheckOperationsVerbose (KvModel (\<lambda>_. '''')) demoHistory 0 [Result 1, Result 0] (\<lambda>_ _. False))"
    by code_simp
  then obtain res info where r: "CheckOperationsVerbose (KvModel (\<lambda>_. '''')) demoHistory 0 [Result 1, Result 0] (\<lambda>_ _. False) = Some (res, info)"
    by (auto simp: Option.is_none_def)
  from visualization_never_panics [OF demoHistory_ok(1,2) this] r show ?thesis
    unfolding demoHistory_ok(4) by auto
qed

end
