(* ===== verification/LabGob.thy ===== *)
theory LabGob
  imports Prelude
begin

section \<open>The encoder that checks types (\<open>labgob\<close>)\<close>

text \<open>
  The package \<^verbatim>\<open>labgob\<close> wraps \<^verbatim>\<open>encoding/gob\<close>: before a value is encoded or decoded it
  walks over the type of the value and counts the fields that \<^verbatim>\<open>gob\<close> would drop because their
  names are not capitalized, and before decoding it counts the non-default values it would
  decode into.

  A Go type is a term of the datatype \<open>rtype\<close>: composite types are structural, and a declared type
  is a number into a table of its name and its underlying type, so types may be recursive, as in Go.
  A value carries its type; a pointer carries what it points to, and
  the contents of arrays and interfaces are not seen. Names are ASCII. What
  \<^verbatim>\<open>gob\<close> itself does is a pair of functions, an argument of the definitions that call it. The
  walk over types recurses with fuel; \<open>checkValue_spec\<close> shows that the fuel \<open>checkValue\<close> gives is always
  enough. The mutex makes the test and the mark of a type atomic and is not modelled.
\<close>

subsection \<open>Types and values\<close>

datatype rtype =
    Named nat
  | TScalar string
  | TStruct "field list"
  | TSlice rtype
  | TArray rtype
  | TPtr rtype
  | TMap rtype rtype
  | TOther string
and field = Field (f_Name: string) (f_Embedded: bool) (f_Type: rtype)

type_synonym types = "(string \<times> rtype) list"

fun underlying :: "types \<Rightarrow> rtype \<Rightarrow> rtype" where
  "underlying T (Named i) = (if i < length T then snd (T ! i) else TOther [])"
| "underlying T t = t"

fun typeName :: "types \<Rightarrow> rtype \<Rightarrow> string" where
  "typeName T (Named i) = (if i < length T then fst (T ! i) else [])"
| "typeName T (TScalar s) = s"
| "typeName T t = []"

datatype Scalar = SBool bool | SInt int | SFloat int int | SString string

fun isZero :: "Scalar \<Rightarrow> bool" where
  "isZero (SBool b) \<longleftrightarrow> \<not> b"
| "isZero (SInt i) \<longleftrightarrow> i = 0"
| "isZero (SFloat mantissa exponent) \<longleftrightarrow> mantissa = 0"
| "isZero (SString s) \<longleftrightarrow> s = []"

datatype Value =
    VScalar rtype Scalar
  | VStruct rtype "Value list"
  | VPtr rtype "Value option"
  | VSlice rtype "Value list"
  | VMap rtype "(Value \<times> Value) list"
  | VOther rtype

fun TypeOf :: "Value \<Rightarrow> rtype" where
  "TypeOf (VScalar t s) = t"
| "TypeOf (VStruct t vs) = t"
| "TypeOf (VPtr t p) = t"
| "TypeOf (VSlice t vs) = t"
| "TypeOf (VMap t kvs) = t"
| "TypeOf (VOther t) = t"

text \<open>
  What \<^verbatim>\<open>reflect.New\<close> allocates: a pointer to the zero value of a type. A struct does not contain itself, so
  fuel for the types there are is enough for its depth.
\<close>

definition zeroScalar :: "string \<Rightarrow> Scalar" where
  "zeroScalar s =
     (if s = ''bool'' then SBool False
      else if s = ''string'' then SString []
      else if s = ''float32'' \<or> s = ''float64'' then SFloat 0 0
      else SInt 0)"

primrec zeroValue :: "types \<Rightarrow> nat \<Rightarrow> rtype \<Rightarrow> Value" where
  "zeroValue T 0 t = VOther t"
| "zeroValue T (Suc n) t =
     (case underlying T t of
        TScalar s \<Rightarrow> VScalar t (zeroScalar s)
      | TStruct fs \<Rightarrow> VStruct t (map (\<lambda>f. zeroValue T n (f_Type f)) fs)
      | TPtr e \<Rightarrow> VPtr t None
      | TSlice e \<Rightarrow> VSlice t []
      | TMap k e \<Rightarrow> VMap t []
      | _ \<Rightarrow> VOther t)"

definition reflectNew :: "types \<Rightarrow> rtype \<Rightarrow> Value" where
  "reflectNew T t = VPtr (TPtr t) (Some (zeroValue T (Suc (length T)) t))"

text \<open>The globals of the package, with what it has printed.\<close>

record labgob =
  lg_errorCount :: int
  lg_checked :: "rtype list"
  lg_printed :: "string list"

definition labgob0 :: labgob where
  "labgob0 = \<lparr>lg_errorCount = 0, lg_checked = [], lg_printed = []\<rparr>"

subsection \<open>The walk over a type\<close>

definition isUpper :: "string \<Rightarrow> bool" where
  "isUpper name \<longleftrightarrow> name \<noteq> [] \<and> 65 \<le> (of_char (hd name) :: nat) \<and> (of_char (hd name) :: nat) \<le> 90"

definition checkName :: "types \<Rightarrow> rtype \<Rightarrow> field \<Rightarrow> labgob \<Rightarrow> labgob" where
  "checkName T t f g =
     (if isUpper (f_Name f) then g
      else g\<lparr>lg_printed := lg_printed g @ [''labgob error: lower-case field '' @ f_Name f @ '' of '' @ typeName T t
                @ '' in RPC or persist/snapshot will break your Raft''],
             lg_errorCount := lg_errorCount g + 1\<rparr>)"

primrec checkFields ::
  "(rtype \<Rightarrow> labgob \<Rightarrow> labgob option) \<Rightarrow> types \<Rightarrow> rtype \<Rightarrow> field list \<Rightarrow> labgob \<Rightarrow> labgob option" where
  "checkFields check T t [] g = Some g"
| "checkFields check T t (f # fs) g =
     do { g \<leftarrow> check (f_Type f) (checkName T t f g); checkFields check T t fs g }"

primrec checkType :: "types \<Rightarrow> nat \<Rightarrow> rtype \<Rightarrow> labgob \<Rightarrow> labgob option" where
  "checkType T 0 t g = None"
| "checkType T (Suc n) t g =
     (if t \<in> set (lg_checked g) then Some g
      else let g = g\<lparr>lg_checked := t # lg_checked g\<rparr> in
        (case underlying T t of
           TStruct fs \<Rightarrow> checkFields (checkType T n) T t fs g
         | TSlice e \<Rightarrow> checkType T n e g
         | TArray e \<Rightarrow> checkType T n e g
         | TPtr e \<Rightarrow> checkType T n e g
         | TMap k e \<Rightarrow> do { g \<leftarrow> checkType T n e g; checkType T n k g }
         | _ \<Rightarrow> Some g))"

text \<open>
  The types a walk can meet: the parts of the type it starts from, the declared types, and the parts of
  their underlying types.
\<close>

lemma size_f_Type [termination_simp]: "f \<in> set fs \<Longrightarrow> size (f_Type f) < Suc (size_list size fs)"
proof -
  assume "f \<in> set fs"
  then have "size f \<le> size_list size fs" by (simp add: size_list_estimation')
  then show ?thesis by (cases f) simp
qed

fun parts :: "rtype \<Rightarrow> rtype list" where
  "parts (TStruct fs) = TStruct fs # concat (map (\<lambda>f. parts (f_Type f)) fs)"
| "parts (TSlice e) = TSlice e # parts e"
| "parts (TArray e) = TArray e # parts e"
| "parts (TPtr e) = TPtr e # parts e"
| "parts (TMap k e) = TMap k e # parts k @ parts e"
| "parts t = [t]"

definition universe :: "types \<Rightarrow> rtype \<Rightarrow> rtype list" where
  "universe T t = parts t @ concat (map (parts \<circ> snd) T) @ map Named [0..<length T]"

text \<open>An argument is an interface value; \<open>None\<close> is \<^verbatim>\<open>nil\<close>, whose type has no kind.\<close>

definition checkValue :: "types \<Rightarrow> Value option \<Rightarrow> labgob \<Rightarrow> labgob option" where
  "checkValue T value g =
     (case value of
        None \<Rightarrow> None
      | Some v \<Rightarrow> checkType T (Suc (length (universe T (TypeOf v)))) (TypeOf v) g)"

subsection \<open>The search for non-default values\<close>

text \<open>
  A value read out of a field that is not exported may not leave \<^verbatim>\<open>reflect\<close>: \<^verbatim>\<open>Interface()\<close> panics. The
  mark is inherited by what is read out of such a value, except that a field of an embedded struct is as its
  own name says. \<open>fieldRO\<close> is that rule of \<^verbatim>\<open>Value.Field\<close>, on the pair of the inherited mark and that of an
  embedded field.
\<close>

definition fieldRO :: "field \<Rightarrow> bool \<times> bool \<Rightarrow> bool \<times> bool" where
  "fieldRO f ro = (fst ro \<or> (\<not> isUpper (f_Name f) \<and> \<not> f_Embedded f), \<not> isUpper (f_Name f) \<and> f_Embedded f)"

fun structFields :: "types \<Rightarrow> rtype \<Rightarrow> field list" where
  "structFields T t = (case underlying T t of TStruct fs \<Rightarrow> fs | _ \<Rightarrow> [])"

definition warnDefault :: "string \<Rightarrow> labgob \<Rightarrow> labgob" where
  "warnDefault what g =
     (if lg_errorCount g < 1
      then g\<lparr>lg_printed := lg_printed g @ [''labgob warning: Decoding into a non-default variable/field '' @ what
               @ '' may not work''], lg_errorCount := lg_errorCount g + 1\<rparr>
      else g\<lparr>lg_errorCount := lg_errorCount g + 1\<rparr>)"

fun checkDefault1 :: "types \<Rightarrow> bool \<times> bool \<Rightarrow> Value \<Rightarrow> nat \<Rightarrow> string \<Rightarrow> labgob \<Rightarrow> labgob option"
  and checkDefaultFields ::
    "types \<Rightarrow> bool \<times> bool \<Rightarrow> field list \<Rightarrow> Value list \<Rightarrow> nat \<Rightarrow> string \<Rightarrow> labgob \<Rightarrow> labgob option" where
  "checkDefault1 T ro (VStruct t vs) depth name g =
     (if depth > 3 then Some g else checkDefaultFields T ro (structFields T t) vs depth name g)"
| "checkDefault1 T ro (VPtr t None) depth name g = Some g"
| "checkDefault1 T ro (VPtr t (Some v)) depth name g =
     (if depth > 3 then Some g else checkDefault1 T ro v (depth + 1) name g)"
| "checkDefault1 T ro (VScalar t s) depth name g =
     (if depth > 3 then Some g
      else if fst ro \<or> snd ro then None
      else if isZero s then Some g
      else Some (warnDefault (if name = [] then typeName T t else name) g))"
| "checkDefault1 T ro (VSlice t vs) depth name g = Some g"
| "checkDefault1 T ro (VMap t kvs) depth name g = Some g"
| "checkDefault1 T ro (VOther t) depth name g = Some g"
| "checkDefaultFields T ro (f # fs) (v # vs) depth name g =
     do { let name1 = (if name = [] then f_Name f else name @ ''.'' @ f_Name f);
          g \<leftarrow> checkDefault1 T (fieldRO f ro) v (depth + 1) name1 g;
          checkDefaultFields T ro fs vs depth name g }"
| "checkDefaultFields T ro [] vs depth name g = Some g"
| "checkDefaultFields T ro fs [] depth name g = Some g"

definition checkDefault :: "types \<Rightarrow> Value option \<Rightarrow> labgob \<Rightarrow> labgob option" where
  "checkDefault T value g = (case value of None \<Rightarrow> Some g | Some v \<Rightarrow> checkDefault1 T (False, False) v 1 [] g)"

subsection \<open>Encoders and decoders\<close>

text \<open>
  An encoder of \<^verbatim>\<open>gob\<close> has a state (the types it has described) and appends to a buffer, a decoder
  takes from the front of one and stores into the value a pointer points to. The boolean is that
  there was no error.
\<close>

record ('e, 'd) gob =
  gob_NewEncoder :: 'e
  gob_Encode :: "'e \<Rightarrow> Value \<Rightarrow> 'e \<times> string \<times> bool"
  gob_NewDecoder :: 'd
  gob_Decode :: "'d \<Rightarrow> string \<Rightarrow> Value \<Rightarrow> 'd \<times> string \<times> Value \<times> bool"

record 'e LabEncoder =
  le_gob :: 'e
  le_buf :: string

record 'd LabDecoder =
  ld_gob :: 'd
  ld_buf :: string

definition NewEncoder :: "('e, 'd) gob \<Rightarrow> string \<Rightarrow> 'e LabEncoder" where
  "NewEncoder G w = \<lparr>le_gob = gob_NewEncoder G, le_buf = w\<rparr>"

definition Encode ::
  "('e, 'd) gob \<Rightarrow> types \<Rightarrow> Value option \<Rightarrow> 'e LabEncoder \<Rightarrow> labgob \<Rightarrow> ('e LabEncoder \<times> bool \<times> labgob) option" where
  "Encode G T e enc g =
     do { g \<leftarrow> checkValue T e g;
          let (st, out, ok) = gob_Encode G (le_gob enc) (the e);
          Some (\<lparr>le_gob = st, le_buf = le_buf enc @ out\<rparr>, ok, g) }"

definition EncodeValue ::
  "('e, 'd) gob \<Rightarrow> types \<Rightarrow> Value \<Rightarrow> 'e LabEncoder \<Rightarrow> labgob \<Rightarrow> ('e LabEncoder \<times> bool \<times> labgob) option" where
  "EncodeValue G T value enc g =
     do { g \<leftarrow> checkValue T (Some value) g;
          let (st, out, ok) = gob_Encode G (le_gob enc) value;
          Some (\<lparr>le_gob = st, le_buf = le_buf enc @ out\<rparr>, ok, g) }"

definition NewDecoder :: "('e, 'd) gob \<Rightarrow> string \<Rightarrow> 'd LabDecoder" where
  "NewDecoder G r = \<lparr>ld_gob = gob_NewDecoder G, ld_buf = r\<rparr>"

definition Decode ::
  "('e, 'd) gob \<Rightarrow> types \<Rightarrow> Value option \<Rightarrow> 'd LabDecoder \<Rightarrow> labgob \<Rightarrow>
   (Value \<times> 'd LabDecoder \<times> bool \<times> labgob) option" where
  "Decode G T e dec g =
     do { g \<leftarrow> checkValue T e g;
          g \<leftarrow> checkDefault T e g;
          let (st, rest, v, ok) = gob_Decode G (ld_gob dec) (ld_buf dec) (the e);
          Some (v, \<lparr>ld_gob = st, ld_buf = rest\<rparr>, ok, g) }"

definition Register :: "types \<Rightarrow> Value option \<Rightarrow> labgob \<Rightarrow> labgob option" where
  "Register T value g = checkValue T value g"

definition RegisterName :: "types \<Rightarrow> string \<Rightarrow> Value option \<Rightarrow> labgob \<Rightarrow> labgob option" where
  "RegisterName T name value g = checkValue T value g"

subsection \<open>What the walk over a type does\<close>

definition children :: "types \<Rightarrow> rtype \<Rightarrow> rtype list" where
  "children T t =
     (case underlying T t of
        TStruct fs \<Rightarrow> map f_Type fs | TSlice e \<Rightarrow> [e] | TArray e \<Rightarrow> [e] | TPtr e \<Rightarrow> [e] | TMap k e \<Rightarrow> [e, k] | _ \<Rightarrow> [])"

definition mentions :: "types \<Rightarrow> (rtype \<times> rtype) set" where
  "mentions T = {(t, u). u \<in> set (children T t)}\<^sup>*"

definition lowers :: "types \<Rightarrow> rtype \<Rightarrow> int" where
  "lowers T t = int (length (filter (\<lambda>f. \<not> isUpper (f_Name f)) (structFields T t)))"

lemma parts_refl [intro]: "t \<in> set (parts t)"
  by (cases t) auto

lemma parts_children:
  "u \<in> set (parts t) \<Longrightarrow> (\<And>i. u \<noteq> Named i) \<Longrightarrow> c \<in> set (children T u) \<Longrightarrow> c \<in> set (parts t)"
  by (induction t rule: parts.induct) (auto simp: children_def, blast)

lemma universe_children: "u \<in> set (universe T t) \<Longrightarrow> c \<in> set (children T u) \<Longrightarrow> c \<in> set (universe T t)"
proof (cases "\<exists>i. u = Named i")
  case True
  assume "c \<in> set (children T u)"
  with True obtain i where i: "u = Named i" "i < length T" "c \<in> set (children T (Named i))"
    by (auto simp: children_def split: if_splits)
  have mem: "T ! i \<in> set T" using i(2) by simp
  show ?thesis
  proof (cases "\<exists>j. snd (T ! i) = Named j")
    case True
    with i show ?thesis by (auto simp: children_def)
  next
    case False
    then have "children T (Named i) = children T (snd (T ! i))"
      using i(2) by (cases "snd (T ! i)") (auto simp: children_def)
    then have "c \<in> set (parts (snd (T ! i)))"
      using parts_children [OF parts_refl, of "snd (T ! i)" c T] False i(3) by auto
    with mem show ?thesis by (auto simp: universe_def)
  qed
next
  case False
  assume "u \<in> set (universe T t)" "c \<in> set (children T u)"
  with False show ?thesis using parts_children [of u _ c T] by (force simp: universe_def)
qed

text \<open>
  \<open>walked T g ts k g'\<close>: from \<open>g\<close> to \<open>g'\<close> the types \<open>ts\<close> have been checked, with what they mention and
  nothing else; what is new has no child unchecked; and the fields counted are those of what is new,
  and \<open>k\<close> others.
\<close>

definition walked :: "types \<Rightarrow> labgob \<Rightarrow> rtype set \<Rightarrow> int \<Rightarrow> labgob \<Rightarrow> bool" where
  "walked T g ts k g' \<longleftrightarrow>
     (let C = set (lg_checked g); C' = set (lg_checked g') in
      C \<subseteq> C' \<and> ts \<subseteq> C' \<and> (\<forall>u \<in> C' - C. (\<exists>t \<in> ts. (t, u) \<in> mentions T) \<and> set (children T u) \<subseteq> C') \<and>
      lg_errorCount g' = lg_errorCount g + k + (\<Sum>u \<in> C' - C. lowers T u))"

lemma walked_refl: "ts \<subseteq> set (lg_checked g) \<Longrightarrow> walked T g ts 0 g"
  by (simp add: walked_def)

lemma walked_trans:
  assumes "walked T g ts k g'" and "walked T g' us l g''"
  shows "walked T g (ts \<union> us) (k + l) g''"
proof -
  let ?C = "set (lg_checked g)" and ?C' = "set (lg_checked g')" and ?C'' = "set (lg_checked g'')"
  have sub: "?C \<subseteq> ?C'" "?C' \<subseteq> ?C''" using assms by (simp_all add: walked_def Let_def)
  then have new: "?C'' - ?C = (?C' - ?C) \<union> (?C'' - ?C')" by auto
  have "(\<Sum>u \<in> ?C'' - ?C. lowers T u) = (\<Sum>u \<in> ?C' - ?C. lowers T u) + (\<Sum>u \<in> ?C'' - ?C'. lowers T u)"
    unfolding new by (rule sum.union_disjoint) auto
  moreover have "(\<exists>t \<in> ts \<union> us. (t, u) \<in> mentions T) \<and> set (children T u) \<subseteq> ?C''" if "u \<in> ?C'' - ?C" for u
    using that assms unfolding walked_def Let_def by blast
  ultimately show ?thesis using assms sub unfolding walked_def Let_def by auto
qed

lemma walked_checkName: "walked T g {} (if isUpper (f_Name f) then 0 else 1) (checkName T t f g)"
  by (simp add: walked_def checkName_def)

lemma walked_mark:
  assumes "t \<notin> set (lg_checked g)" and "walked T (g\<lparr>lg_checked := t # lg_checked g\<rparr>) (set (children T t)) (lowers T t) g'"
  shows "walked T g {t} 0 g'"
proof -
  let ?C = "set (lg_checked g)" and ?C' = "set (lg_checked g')"
  have C': "insert t ?C \<subseteq> ?C'" "set (children T t) \<subseteq> ?C'" using assms(2) by (simp_all add: walked_def Let_def)
  then have new: "?C' - ?C = insert t (?C' - insert t ?C)" using assms(1) by auto
  then have "(\<Sum>u \<in> ?C' - ?C. lowers T u) = lowers T t + (\<Sum>u \<in> ?C' - insert t ?C. lowers T u)"
    by (metis Diff_iff finite_Diff finite_set insertI1 sum.insert)
  moreover have "(t, u) \<in> mentions T \<and> set (children T u) \<subseteq> ?C'" if u: "u \<in> ?C' - ?C" for u
  proof (cases "u = t")
    case False
    with u have "u \<in> ?C' - insert t ?C" by blast
    moreover have "\<forall>u \<in> ?C' - insert t ?C. (\<exists>c \<in> set (children T t). (c, u) \<in> mentions T) \<and> set (children T u) \<subseteq> ?C'"
      using assms(2) by (simp add: walked_def Let_def)
    ultimately obtain c where c: "c \<in> set (children T t)" "(c, u) \<in> mentions T" "set (children T u) \<subseteq> ?C'"
      by blast
    then have "(t, u) \<in> mentions T"
      by (auto simp: mentions_def intro: converse_rtrancl_into_rtrancl)
    with c(3) show ?thesis by simp
  qed (use C' in \<open>simp add: mentions_def\<close>)
  ultimately show ?thesis using assms(2) C' by (simp add: walked_def Let_def)
qed

definition pending :: "rtype set \<Rightarrow> labgob \<Rightarrow> nat" where
  "pending U g = card (U - set (lg_checked g))"

lemma pending_mono: "finite U \<Longrightarrow> walked T g ts k g' \<Longrightarrow> pending U g' \<le> pending U g"
  unfolding pending_def walked_def Let_def by (intro card_mono) auto

lemma pending_mark:
  assumes "finite U" and "t \<in> U" and "t \<notin> set (lg_checked g)"
  shows "pending U (g\<lparr>lg_checked := t # lg_checked g\<rparr>) < pending U g"
  unfolding pending_def using assms by (intro psubset_card_mono) auto

text \<open>Inside a set that is closed under \<open>children\<close>, fuel for the unchecked types is enough.\<close>

definition enough :: "types \<Rightarrow> rtype set \<Rightarrow> nat \<Rightarrow> (rtype \<Rightarrow> labgob \<Rightarrow> labgob option) \<Rightarrow> bool" where
  "enough T U n check \<longleftrightarrow>
     (\<forall>t g. t \<in> U \<longrightarrow> pending U g < n \<longrightarrow> (\<exists>g'. check t g = Some g' \<and> walked T g {t} 0 g'))"

lemma enoughD:
  "enough T U n check \<Longrightarrow> t \<in> U \<Longrightarrow> pending U g < n \<Longrightarrow> \<exists>g'. check t g = Some g' \<and> walked T g {t} 0 g'"
  unfolding enough_def by blast

lemma checkFields_walks:
  assumes "finite U" and "enough T U n check"
  shows "f_Type ` set fs \<subseteq> U \<Longrightarrow> pending U g < n \<Longrightarrow>
    \<exists>g'. checkFields check T t fs g = Some g' \<and>
      walked T g (f_Type ` set fs) (int (length (filter (\<lambda>f. \<not> isUpper (f_Name f)) fs))) g'"
proof (induction fs arbitrary: g)
  case Nil
  then show ?case by (simp add: walked_refl)
next
  case (Cons f fs)
  note nm = walked_checkName [of T g f t]
  have f: "f_Type f \<in> U" "f_Type ` set fs \<subseteq> U" using Cons.prems(1) by auto
  obtain g1 where g1: "check (f_Type f) (checkName T t f g) = Some g1" "walked T (checkName T t f g) {f_Type f} 0 g1"
    using enoughD [OF assms(2) f(1)] pending_mono [OF assms(1) nm] Cons.prems(2) by (meson le_less_trans)
  note w1 = walked_trans [OF nm g1(2)]
  obtain g2 where g2: "checkFields check T t fs g1 = Some g2"
      "walked T g1 (f_Type ` set fs) (int (length (filter (\<lambda>f. \<not> isUpper (f_Name f)) fs))) g2"
    using Cons.IH [OF f(2)] pending_mono [OF assms(1) w1] Cons.prems(2) by (meson le_less_trans)
  from walked_trans [OF w1 g2(2)] g1(1) g2(1) show ?case by (auto simp: add.commute)
qed

lemma checkType_walks:
  assumes "finite U" and closed: "\<And>u c. u \<in> U \<Longrightarrow> c \<in> set (children T u) \<Longrightarrow> c \<in> U"
  shows "enough T U n (checkType T n)"
proof (induction n)
  case 0
  show ?case by (simp add: enough_def)
next
  case (Suc n)
  show ?case unfolding enough_def
  proof (intro allI impI)
    fix t g assume t: "t \<in> U" and fuel: "pending U g < Suc n"
    show "\<exists>g'. checkType T (Suc n) t g = Some g' \<and> walked T g {t} 0 g'"
    proof (cases "t \<in> set (lg_checked g)")
      case True
      then show ?thesis by (simp add: walked_refl)
    next
      case False
      define g1 where "g1 = g\<lparr>lg_checked := t # lg_checked g\<rparr>"
      have n: "pending U g1 < n" using pending_mark [OF assms(1) t False] fuel by (simp add: g1_def)
      have one: "\<exists>g'. checkType T n e g1 = Some g' \<and> walked T g1 {e} 0 g'" if "e \<in> set (children T t)" for e
        by (rule enoughD [OF Suc closed [OF t that] n])
      have "\<exists>g'. checkType T (Suc n) t g = Some g' \<and> walked T g1 (set (children T t)) (lowers T t) g'"
      proof (cases "underlying T t")
        case (TStruct fs)
        then have "f_Type ` set fs \<subseteq> U" using closed [OF t] by (auto simp: children_def)
        from checkFields_walks [OF assms(1) Suc this n, of t] TStruct False show ?thesis
          by (simp add: children_def lowers_def g1_def [symmetric] Let_def)
      next
        case (TMap k e)
        then have ke: "k \<in> set (children T t)" "e \<in> set (children T t)" by (simp_all add: children_def)
        obtain g2 where g2: "checkType T n e g1 = Some g2" "walked T g1 {e} 0 g2" using one [OF ke(2)] by blast
        then have "pending U g2 < n" using pending_mono [OF assms(1) g2(2)] n by simp
        then obtain g3 where g3: "checkType T n k g2 = Some g3" "walked T g2 {k} 0 g3"
          using enoughD [OF Suc closed [OF t ke(1)]] by blast
        from walked_trans [OF g2(2) g3(2)] g2(1) g3(1) TMap False show ?thesis
          by (simp add: children_def lowers_def g1_def [symmetric] Let_def insert_commute)
      qed (use one False in \<open>simp_all add: children_def lowers_def walked_refl g1_def [symmetric] Let_def\<close>)
      then show ?thesis using walked_mark [OF False] unfolding g1_def by blast
    qed
  qed
qed

text \<open>Between calls the checked types are closed: what a checked type mentions is checked.\<close>

definition settled :: "types \<Rightarrow> labgob \<Rightarrow> bool" where
  "settled T g \<longleftrightarrow> (\<forall>u \<in> set (lg_checked g). set (children T u) \<subseteq> set (lg_checked g))"

lemma settled_mentions:
  assumes "settled T g" and "(t, u) \<in> mentions T" and "t \<in> set (lg_checked g)"
  shows "u \<in> set (lg_checked g)"
  using assms(2,3) unfolding mentions_def
  by (induction rule: rtrancl_induct) (use assms(1) in \<open>auto simp: settled_def\<close>)

lemma checkValue_walks: "\<exists>g'. checkValue T (Some v) g = Some g' \<and> walked T g {TypeOf v} 0 g'"
proof -
  let ?U = "set (universe T (TypeOf v))"
  have "TypeOf v \<in> ?U" by (auto simp: universe_def)
  moreover have "pending ?U g < Suc (length (universe T (TypeOf v)))"
    unfolding pending_def by (meson card_length card_mono Diff_subset List.finite_set le_trans less_Suc_eq_le)
  ultimately show ?thesis
    using enoughD [OF checkType_walks [of ?U T]] universe_children by (simp add: checkValue_def del: checkType.simps)
qed

lemma checkValue_spec:
  assumes "settled T g"
  obtains g' where "checkValue T (Some v) g = Some g'" and "settled T g'"
    and "set (lg_checked g') = set (lg_checked g) \<union> mentions T `` {TypeOf v}"
    and "lg_errorCount g' = lg_errorCount g + (\<Sum>u \<in> mentions T `` {TypeOf v} - set (lg_checked g). lowers T u)"
proof -
  let ?t = "TypeOf v"
  obtain g' where g': "checkValue T (Some v) g = Some g'" and w: "walked T g {?t} 0 g'"
    using checkValue_walks [of T v g] by blast
  have st: "settled T g'" using w assms unfolding settled_def walked_def Let_def by blast
  have "mentions T `` {?t} \<subseteq> set (lg_checked g')"
    using settled_mentions [OF st] w by (auto simp: walked_def Let_def)
  then have C: "set (lg_checked g') = set (lg_checked g) \<union> mentions T `` {?t}"
    using w by (auto simp: walked_def Let_def)
  then have "set (lg_checked g') - set (lg_checked g) = mentions T `` {?t} - set (lg_checked g)" by blast
  with w C that [OF g' st] show thesis by (simp add: walked_def Let_def)
qed

text \<open>A sequence of values given to the package, and what is counted for them in all.\<close>

primrec checkAll :: "types \<Rightarrow> Value list \<Rightarrow> labgob \<Rightarrow> labgob option" where
  "checkAll T [] g = Some g"
| "checkAll T (v # vs) g = do { g \<leftarrow> checkValue T (Some v) g; checkAll T vs g }"

lemma checkAll_counts:
  assumes "settled T g"
  shows "\<exists>g'. checkAll T vs g = Some g' \<and> finite (mentions T `` (TypeOf ` set vs)) \<and>
    lg_errorCount g' = lg_errorCount g + (\<Sum>u \<in> mentions T `` (TypeOf ` set vs) - set (lg_checked g). lowers T u)"
  using assms
proof (induction vs arbitrary: g)
  case (Cons v vs)
  let ?A = "mentions T `` {TypeOf v}" and ?B = "mentions T `` (TypeOf ` set vs)" and ?C = "set (lg_checked g)"
  obtain g1 where g1: "checkValue T (Some v) g = Some g1" "settled T g1" "set (lg_checked g1) = ?C \<union> ?A"
      "lg_errorCount g1 = lg_errorCount g + (\<Sum>u \<in> ?A - ?C. lowers T u)"
    using checkValue_spec [OF Cons.prems] by blast
  from Cons.IH [OF g1(2)] obtain g2 where g2: "checkAll T vs g1 = Some g2" "finite ?B"
      "lg_errorCount g2 = lg_errorCount g1 + (\<Sum>u \<in> ?B - (?C \<union> ?A). lowers T u)"
    unfolding g1(3) by blast
  have all: "mentions T `` (TypeOf ` set (v # vs)) = ?A \<union> ?B" by auto
  have "finite ?A" using g1(3) by (metis List.finite_set finite_Un)
  moreover have "(?A \<union> ?B) - ?C = (?A - ?C) \<union> (?B - (?C \<union> ?A))" by auto
  ultimately have "(\<Sum>u \<in> (?A \<union> ?B) - ?C. lowers T u) = (\<Sum>u \<in> ?A - ?C. lowers T u) + (\<Sum>u \<in> ?B - (?C \<union> ?A). lowers T u)"
    using g2(2) sum.union_disjoint [of "?A - ?C" "?B - (?C \<union> ?A)" "lowers T"] by auto
  with g1 g2 \<open>finite ?A\<close> show ?case unfolding all by simp
qed simp

subsection \<open>Values of capitalized types\<close>

text \<open>A value that is built as its type says, as far as \<open>checkDefault1\<close> looks.\<close>

fun typed :: "types \<Rightarrow> Value \<Rightarrow> bool" and typedFields :: "types \<Rightarrow> field list \<Rightarrow> Value list \<Rightarrow> bool" where
  "typed T (VStruct t vs) \<longleftrightarrow> typedFields T (structFields T t) vs"
| "typed T (VPtr t None) \<longleftrightarrow> True"
| "typed T (VPtr t (Some v)) \<longleftrightarrow> underlying T t = TPtr (TypeOf v) \<and> typed T v"
| "typed T (VScalar t s) \<longleftrightarrow> True"
| "typed T (VSlice t vs) \<longleftrightarrow> True"
| "typed T (VMap t kvs) \<longleftrightarrow> True"
| "typed T (VOther t) \<longleftrightarrow> True"
| "typedFields T (f # fs) (v # vs) \<longleftrightarrow> TypeOf v = f_Type f \<and> typed T v \<and> typedFields T fs vs"
| "typedFields T [] [] \<longleftrightarrow> True"
| "typedFields T _ _ \<longleftrightarrow> False"

definition capitalized :: "types \<Rightarrow> rtype \<Rightarrow> bool" where
  "capitalized T t \<longleftrightarrow> (\<forall>u. (t, u) \<in> mentions T \<longrightarrow> list_all (\<lambda>f. isUpper (f_Name f)) (structFields T u))"

lemma capitalized_child: "capitalized T t \<Longrightarrow> u \<in> set (children T t) \<Longrightarrow> capitalized T u"
  unfolding capitalized_def mentions_def by (blast intro: converse_rtrancl_into_rtrancl)

lemma structFields_child: "f \<in> set (structFields T t) \<Longrightarrow> f_Type f \<in> set (children T t)"
  by (auto simp: children_def split: rtype.splits)

lemma capitalized_fields:
  "capitalized T t \<Longrightarrow> list_all (\<lambda>f. isUpper (f_Name f) \<and> capitalized T (f_Type f)) (structFields T t)"
proof -
  assume t: "capitalized T t"
  then have "list_all (\<lambda>f. isUpper (f_Name f)) (structFields T t)" by (simp add: capitalized_def mentions_def)
  then show ?thesis using capitalized_child [OF t structFields_child] by (simp add: list_all_iff del: structFields.simps)
qed

lemma checkDefault1_returns:
  "typed T v \<Longrightarrow> capitalized T (TypeOf v) \<Longrightarrow> \<not> fst ro \<Longrightarrow> \<not> snd ro \<Longrightarrow> \<exists>g'. checkDefault1 T ro v depth name g = Some g'"
  "typedFields T fs vs \<Longrightarrow> list_all (\<lambda>f. isUpper (f_Name f) \<and> capitalized T (f_Type f)) fs \<Longrightarrow> \<not> fst ro \<Longrightarrow> \<not> snd ro \<Longrightarrow>
   \<exists>g'. checkDefaultFields T ro fs vs depth name g = Some g'"
proof (induction T ro v depth name g and T ro fs vs depth name g rule: checkDefault1_checkDefaultFields.induct)
  case (1 T ro t vs depth name g)
  then show ?case using capitalized_fields [of T t] by (auto simp del: structFields.simps)
next
  case (3 T ro t v depth name g)
  then show ?case using capitalized_child [of T t "TypeOf v"] by (auto simp: children_def)
next
  case (8 T ro f fs v vs depth name g)
  then show ?case by (fastforce simp: fieldRO_def Let_def)
qed auto

lemma checkDefaultFields_panics:
  assumes "depth < 3" and "i < length fs" and "length vs = length fs" and "vs ! i = VScalar u s"
    and "\<not> isUpper (f_Name (fs ! i))"
  shows "checkDefaultFields T ro fs vs depth name g = None"
  using assms(2-5)
proof (induction fs arbitrary: vs i g)
  case (Cons f fs)
  then obtain v ws where vs: "vs = v # ws" by (cases vs) auto
  show ?case
  proof (cases i)
    case 0
    with Cons.prems vs assms(1) show ?thesis by (simp add: fieldRO_def)
  next
    case (Suc j)
    with Cons.prems vs have "checkDefaultFields T ro fs ws depth name g' = None" for g'
      by (intro Cons.IH [of j]) simp_all
    with vs show ?thesis by (simp add: bind_eq_None_conv)
  qed
qed simp

subsection \<open>Properties\<close>

text \<open>
  (C40) The walk over types always ends, recursive types included, and however many values are encoded,
  decoded or registered, each lower-case field of each type that their types mention is counted once.
\<close>

theorem lower_case_counted_once:
  "\<exists>g. checkAll T vs labgob0 = Some g \<and> lg_errorCount g = (\<Sum>u \<in> mentions T `` (TypeOf ` set vs). lowers T u)"
  using checkAll_counts [of T labgob0 vs] by (auto simp: labgob0_def settled_def)

text \<open>
  Decoding into a value of a type all of whose fields are capitalized does not panic, whatever the
  value holds.
\<close>

lemma decode_capitalized:
  assumes "typed T v" and "capitalized T (TypeOf v)"
  shows "\<exists>r. Decode G T (Some v) dec g = Some r"
proof -
  obtain g1 where g1: "checkValue T (Some v) g = Some g1" using checkValue_walks [of T v g] by blast
  obtain g2 where "checkDefault T (Some v) g1 = Some g2"
    using checkDefault1_returns(1) [OF assms, of "(False, False)" 1 "[]" g1] by (auto simp: checkDefault_def)
  with g1 show ?thesis by (simp add: Decode_def split: prod.splits)
qed

text \<open>
  Decoding into a struct with a lower-case field of a basic type panics: the package does not
  only warn about such a field.
\<close>

lemma decode_lower_case_panics:
  assumes "i < length (structFields T t)" and "length vs = length (structFields T t)"
    and "\<not> isUpper (f_Name (structFields T t ! i))" and "vs ! i = VScalar u s"
  shows "Decode G T (Some (VPtr p (Some (VStruct t vs)))) dec g = None"
  using checkDefaultFields_panics [OF _ assms(1,2,4,3), of "Suc (Suc 0)"]
  by (simp add: Decode_def checkDefault_def bind_eq_None_conv del: structFields.simps)

text \<open>
  Two types like those of the package's tests, the second with a pointer to itself, and an encoder that knows
  strings only.
\<close>

definition testTypes :: types where
  "testTypes =
     [(''T4'', TStruct [Field ''Yes'' False (TScalar ''int''), Field ''no'' False (TScalar ''int'')]),
      (''DD'', TStruct [Field ''X'' False (TScalar ''int''), Field ''Next'' False (TPtr (Named 1))])]"

definition toDD :: Value where
  "toDD = VPtr (TPtr (Named 1)) (Some (VStruct (Named 1) [VScalar (TScalar ''int'') (SInt 99), VPtr (TPtr (Named 1)) None]))"

definition toT4 :: Value where
  "toT4 = VPtr (TPtr (Named 0)) (Some (VStruct (Named 0) [VScalar (TScalar ''int'') (SInt 0), VScalar (TScalar ''int'') (SInt 0)]))"

definition textGob :: "(unit, unit) gob" where
  "textGob =
     \<lparr>gob_NewEncoder = (),
      gob_Encode = (\<lambda>_ v. case v of
          VScalar t (SString s) \<Rightarrow> ((), s, True)
        | VPtr t (Some (VScalar u (SString s))) \<Rightarrow> ((), s, True)
        | _ \<Rightarrow> ((), [], False)),
      gob_NewDecoder = (),
      gob_Decode = (\<lambda>_ b v. case v of
          VPtr t (Some (VScalar u (SString s))) \<Rightarrow> ((), [], VPtr t (Some (VScalar u (SString b))), True)
        | _ \<Rightarrow> ((), b, v, False))\<rparr>"

lemma DD_capitalized: "capitalized testTypes (TPtr (Named 1))"
  unfolding capitalized_def
proof (intro allI impI)
  fix u assume "(TPtr (Named 1), u) \<in> mentions testTypes"
  then have "u \<in> {TPtr (Named 1), Named 1, TScalar ''int''}"
    unfolding mentions_def by (induction rule: rtrancl_induct) (auto simp: children_def testTypes_def)
  then show "list_all (\<lambda>f. isUpper (f_Name f)) (structFields testTypes u)" by (auto simp: testTypes_def isUpper_def)
qed

lemma decode_DD:
  "\<exists>r. Decode textGob testTypes (Some toDD) (NewDecoder textGob ''99'') labgob0 = Some r"
  unfolding toDD_def by (rule decode_capitalized) (simp add: testTypes_def, use DD_capitalized in simp)

lemma decode_T4_panics:
  "Decode textGob testTypes (Some toT4) (NewDecoder textGob ''99'') labgob0 = None"
  unfolding toT4_def by (rule decode_lower_case_panics [of 1]) (simp_all add: testTypes_def isUpper_def)

end
