(* ===== verification/LabRpc.thy ===== *)
theory LabRpc
  imports LabGob "HOL-Library.Word"
begin

section \<open>The simulated network (\<open>labrpc\<close>)\<close>

text \<open>
  The package \<^verbatim>\<open>labrpc\<close>: client ends send requests over one channel to a network, which hands each to a
  goroutine \<^verbatim>\<open>processReq\<close>; that looks up the server of the end, has the server dispatch the request to a
  method of a service, and answers, unless the network loses the request or the reply or the server is
  gone by then.

  Ends and servers are named by values of any type; \<open>nat\<close> numbers are the addresses of servers and
  of receivers. A map entry with the value \<^verbatim>\<open>nil\<close> reads like a missing one. Random numbers are
  arguments; time is not modelled, so a sleep or a timer ends at any later step. A method handler is a
  function of the receiver, the argument and the reply (\<open>m_Func\<close>), and runs in one step.
  \<open>None\<close> is the end of the program by a panic or \<^verbatim>\<open>log.Fatalf\<close>. Each goroutine takes the steps between two
  points where it sleeps, waits or releases the network's mutex as one step (\<open>netStep\<close>); a step that is not
  enabled changes nothing.
\<close>

subsection \<open>Messages, ends and the network\<close>

record 'n reqMsg =
  rq_endname :: 'n
  rq_svcMeth :: string
  rq_argsType :: rtype
  rq_args :: string

record replyMsg =
  rm_ok :: bool
  rm_reply :: string

record 'n ClientEnd =
  ce_endname :: 'n

record 'n Network =
  nw_reliable :: bool
  nw_longDelays :: bool
  nw_longReordering :: bool
  nw_ends :: "'n \<rightharpoonup> 'n ClientEnd"
  nw_enabled :: "'n \<Rightarrow> bool"
  nw_servers :: "'n \<rightharpoonup> nat"
  nw_connections :: "'n \<rightharpoonup> 'n"
  nw_done :: bool
  nw_count :: "32 word"
  nw_bytes :: "64 word"

definition MakeNetwork :: "'n Network" where
  "MakeNetwork =
     \<lparr>nw_reliable = True, nw_longDelays = False, nw_longReordering = False, nw_ends = Map.empty,
      nw_enabled = (\<lambda>_. False), nw_servers = Map.empty, nw_connections = Map.empty, nw_done = False,
      nw_count = 0, nw_bytes = 0\<rparr>"

text \<open>The goroutine that takes the requests off the channel counts them.\<close>

definition takeReq :: "'n reqMsg \<Rightarrow> 'n Network \<Rightarrow> 'n Network" where
  "takeReq req rn = rn\<lparr>nw_count := nw_count rn + 1, nw_bytes := nw_bytes rn + of_nat (length (rq_args req))\<rparr>"

definition Cleanup :: "'n Network \<Rightarrow> 'n Network option" where
  "Cleanup rn = (if nw_done rn then None else Some (rn\<lparr>nw_done := True\<rparr>))"

definition Reliable :: "bool \<Rightarrow> 'n Network \<Rightarrow> 'n Network" where
  "Reliable yes rn = rn\<lparr>nw_reliable := yes\<rparr>"

definition LongReordering :: "bool \<Rightarrow> 'n Network \<Rightarrow> 'n Network" where
  "LongReordering yes rn = rn\<lparr>nw_longReordering := yes\<rparr>"

definition LongDelays :: "bool \<Rightarrow> 'n Network \<Rightarrow> 'n Network" where
  "LongDelays yes rn = rn\<lparr>nw_longDelays := yes\<rparr>"

definition readEndnameInfo :: "'n \<Rightarrow> 'n Network \<Rightarrow> bool \<times> 'n option \<times> nat option \<times> bool \<times> bool" where
  "readEndnameInfo endname rn =
     (let servername = nw_connections rn endname in
      (nw_enabled rn endname, servername,
       (case servername of None \<Rightarrow> None | Some name \<Rightarrow> nw_servers rn name),
       nw_reliable rn, nw_longReordering rn))"

definition isServerDead :: "'n \<Rightarrow> 'n \<Rightarrow> nat \<Rightarrow> 'n Network \<Rightarrow> bool" where
  "isServerDead endname servername server rn \<longleftrightarrow>
     nw_enabled rn endname = False \<or> nw_servers rn servername \<noteq> Some server"

definition MakeEnd :: "'n \<Rightarrow> 'n Network \<Rightarrow> ('n ClientEnd \<times> 'n Network) option" where
  "MakeEnd endname rn =
     (if nw_ends rn endname \<noteq> None then None
      else let e = \<lparr>ce_endname = endname\<rparr> in
        Some (e, rn\<lparr>nw_ends := (nw_ends rn)(endname \<mapsto> e), nw_enabled := (nw_enabled rn)(endname := False),
                    nw_connections := (nw_connections rn)(endname := None)\<rparr>))"

definition DeleteEnd :: "'n \<Rightarrow> 'n Network \<Rightarrow> 'n Network option" where
  "DeleteEnd endname rn =
     (if nw_ends rn endname = None then None
      else Some (rn\<lparr>nw_ends := (nw_ends rn)(endname := None), nw_enabled := (nw_enabled rn)(endname := False),
                    nw_connections := (nw_connections rn)(endname := None)\<rparr>))"

definition AddServer :: "'n \<Rightarrow> nat \<Rightarrow> 'n Network \<Rightarrow> 'n Network" where
  "AddServer servername rs rn = rn\<lparr>nw_servers := (nw_servers rn)(servername \<mapsto> rs)\<rparr>"

definition DeleteServer :: "'n \<Rightarrow> 'n Network \<Rightarrow> 'n Network" where
  "DeleteServer servername rn = rn\<lparr>nw_servers := (nw_servers rn)(servername := None)\<rparr>"

definition Connect :: "'n \<Rightarrow> 'n option \<Rightarrow> 'n Network \<Rightarrow> 'n Network" where
  "Connect endname servername rn = rn\<lparr>nw_connections := (nw_connections rn)(endname := servername)\<rparr>"

definition Enable :: "'n \<Rightarrow> bool \<Rightarrow> 'n Network \<Rightarrow> 'n Network" where
  "Enable endname enabled rn = rn\<lparr>nw_enabled := (nw_enabled rn)(endname := enabled)\<rparr>"

definition GetTotalCount :: "'n Network \<Rightarrow> int" where
  "GetTotalCount rn = sint (nw_count rn)"

definition GetTotalBytes :: "'n Network \<Rightarrow> int" where
  "GetTotalBytes rn = sint (nw_bytes rn)"

subsection \<open>Servers and services\<close>

text \<open>The types of the parameters of a method, \<open>m_In\<close>, start with the receiver's.\<close>

record 'o Method =
  m_Name :: string
  m_PkgPath :: string
  m_In :: "rtype list"
  m_NumOut :: nat
  m_Func :: "'o \<Rightarrow> Value \<Rightarrow> Value \<Rightarrow> ('o \<times> Value) option"

record 'o Service =
  sv_name :: string
  sv_rcvr :: nat
  sv_methods :: "string \<rightharpoonup> 'o Method"

record 'o Server =
  rs_services :: "string \<rightharpoonup> 'o Service"
  rs_count :: int

fun ptrElem :: "types \<Rightarrow> rtype \<Rightarrow> rtype option" where
  "ptrElem T t = (case underlying T t of TPtr e \<Rightarrow> Some e | _ \<Rightarrow> None)"

definition suitable :: "types \<Rightarrow> 'o Method \<Rightarrow> bool" where
  "suitable T m \<longleftrightarrow>
     \<not> (m_PkgPath m \<noteq> [] \<or> length (m_In m) \<noteq> 3 \<or> ptrElem T (m_In m ! 2) = None \<or> m_NumOut m \<noteq> 0)"

definition MakeService :: "types \<Rightarrow> string \<Rightarrow> nat \<Rightarrow> 'o Method list \<Rightarrow> 'o Service" where
  "MakeService T name rcvr methods =
     \<lparr>sv_name = name, sv_rcvr = rcvr,
      sv_methods = fold (\<lambda>m ms. if suitable T m then ms(m_Name m \<mapsto> m) else ms) methods Map.empty\<rparr>"

definition MakeServer :: "'o Server" where
  "MakeServer = \<lparr>rs_services = Map.empty, rs_count = 0\<rparr>"

definition AddService :: "'o Service \<Rightarrow> 'o Server \<Rightarrow> 'o Server" where
  "AddService svc rs = rs\<lparr>rs_services := (rs_services rs)(sv_name svc \<mapsto> svc)\<rparr>"

definition Server_GetCount :: "'o Server \<Rightarrow> int" where
  "Server_GetCount rs = rs_count rs"

definition GetCount :: "'n \<Rightarrow> 'o Server list \<Rightarrow> 'n Network \<Rightarrow> int option" where
  "GetCount servername srvs rn =
     do { a \<leftarrow> nw_servers rn servername;
          svr \<leftarrow> slice_get srvs (int a);
          Some (Server_GetCount svr) }"

text \<open>
  The methods of a service have parameters of concrete types, so a call is accepted when the type of the
  argument is the type of the parameter.
\<close>

fun pointee :: "Value \<Rightarrow> Value option" where
  "pointee (VPtr t p) = p"
| "pointee v = None"

definition Service_dispatch ::
  "('e, 'd) gob \<Rightarrow> types \<Rightarrow> 'o Service \<Rightarrow> string \<Rightarrow> 'n reqMsg \<Rightarrow> (nat \<Rightarrow> 'o) \<Rightarrow> labgob \<Rightarrow>
   (replyMsg \<times> (nat \<Rightarrow> 'o) \<times> labgob) option" where
  "Service_dispatch G T svc methname req objs g =
     do { method \<leftarrow> sv_methods svc methname;
          let args = reflectNew T (rq_argsType req);
          let ad = NewDecoder G (rq_args req);
          (args, ad, ok, g) \<leftarrow> Decode G T (Some args) ad g;
          replyType \<leftarrow> ptrElem T (m_In method ! 2);
          let replyv = reflectNew T replyType;
          if m_In method ! 1 = rq_argsType req then
            do { argv \<leftarrow> pointee args;
                 (obj, replyv) \<leftarrow> m_Func method (objs (sv_rcvr svc)) argv replyv;
                 (re, ok, g) \<leftarrow> EncodeValue G T replyv (NewEncoder G []) g;
                 Some (\<lparr>rm_ok = True, rm_reply = le_buf re\<rparr>, objs(sv_rcvr svc := obj), g) }
          else None }"

fun lastDot :: "string \<Rightarrow> int" where
  "lastDot [] = -1"
| "lastDot (c # cs) = (let i = lastDot cs in if 0 \<le> i then i + 1 else if c = CHR ''.'' then 0 else -1)"

definition Server_dispatch ::
  "('e, 'd) gob \<Rightarrow> types \<Rightarrow> 'n reqMsg \<Rightarrow> 'o Server \<Rightarrow> (nat \<Rightarrow> 'o) \<Rightarrow> labgob \<Rightarrow>
   (replyMsg \<times> 'o Server \<times> (nat \<Rightarrow> 'o) \<times> labgob) option" where
  "Server_dispatch G T req rs objs g =
     do { let rs = rs\<lparr>rs_count := rs_count rs + 1\<rparr>;
          let dot = lastDot (rq_svcMeth req);
          serviceName \<leftarrow> slice_upto (rq_svcMeth req) dot;
          methodName \<leftarrow> slice_from (rq_svcMeth req) (dot + 1);
          service \<leftarrow> rs_services rs serviceName;
          (reply, objs, g) \<leftarrow> Service_dispatch G T service methodName req objs g;
          Some (reply, rs, objs, g) }"

subsection \<open>The life of a request\<close>

text \<open>
  The goroutine of a request: it has just been started; it waits for the handler, with what it has read of the
  network; it has the reply of the handler; a timer will send the reply; the reply has been sent. The goroutine
  of the handler: not started, running at a server, blocked with the reply on the channel between the two, and finished,
  after its reply was received or thrown away.
\<close>

datatype 'n phase =
    Arrived
  | Serving 'n nat bool bool
  | Answered 'n nat bool bool replyMsg
  | Timer nat replyMsg
  | Replied replyMsg

datatype handler = Idle | Running nat | Handed replyMsg | Received replyMsg | Drained

record 'n process =
  pr_req :: "'n reqMsg"
  pr_reply :: Value
  pr_phase :: "'n phase"
  pr_handler :: handler
  pr_result :: "(bool \<times> Value) option"

definition noReply :: replyMsg where
  "noReply = \<lparr>rm_ok = False, rm_reply = []\<rparr>"

definition processNoServer :: "nat \<Rightarrow> 'n Network \<Rightarrow> 'n process \<Rightarrow> 'n process" where
  "processNoServer roll rn p =
     (let ms = (if nw_longDelays rn then roll mod 7000 else roll mod 100) in p\<lparr>pr_phase := Timer ms noReply\<rparr>)"

definition processStart :: "nat \<Rightarrow> 'n Network \<Rightarrow> 'n process \<Rightarrow> 'n process" where
  "processStart roll rn p =
     (case readEndnameInfo (rq_endname (pr_req p)) rn of
        (True, Some servername, Some server, reliable, longreordering) \<Rightarrow>
          if \<not> reliable \<and> roll mod 1000 < 100 then p\<lparr>pr_phase := Replied noReply\<rparr>
          else p\<lparr>pr_phase := Serving servername server reliable longreordering, pr_handler := Running server\<rparr>
      | _ \<Rightarrow> processNoServer roll rn p)"

definition processTick :: "'n Network \<Rightarrow> 'n process \<Rightarrow> 'n process" where
  "processTick rn p =
     (case pr_phase p of
        Serving servername server reliable longreordering \<Rightarrow>
          if isServerDead (rq_endname (pr_req p)) servername server rn
          then p\<lparr>pr_phase := Replied noReply, pr_handler := (case pr_handler p of Handed r \<Rightarrow> Drained | h \<Rightarrow> h)\<rparr>
          else p
      | _ \<Rightarrow> p)"

definition processReceive :: "'n process \<Rightarrow> 'n process" where
  "processReceive p =
     (case (pr_phase p, pr_handler p) of
        (Serving servername server reliable longreordering, Handed reply) \<Rightarrow>
          p\<lparr>pr_phase := Answered servername server reliable longreordering reply, pr_handler := Received reply\<rparr>
      | _ \<Rightarrow> p)"

definition countBytes :: "replyMsg \<Rightarrow> 'n Network \<Rightarrow> 'n Network" where
  "countBytes reply rn = rn\<lparr>nw_bytes := nw_bytes rn + of_nat (length (rm_reply reply))\<rparr>"

definition processFinish :: "nat \<Rightarrow> nat \<Rightarrow> nat \<Rightarrow> nat \<Rightarrow> 'n Network \<Rightarrow> 'n process \<Rightarrow> 'n Network \<times> 'n process" where
  "processFinish r1 r2 r3 r4 rn p =
     (case pr_phase p of
        Answered servername server reliable longreordering reply \<Rightarrow>
          if isServerDead (rq_endname (pr_req p)) servername server rn then (rn, p\<lparr>pr_phase := Replied noReply\<rparr>)
          else if \<not> reliable \<and> r1 mod 1000 < 100 then (rn, p\<lparr>pr_phase := Replied noReply\<rparr>)
          else if longreordering \<and> r2 mod 900 < 600
          then (rn, p\<lparr>pr_phase := Timer (200 + r3 mod (1 + r4 mod 2000)) reply\<rparr>)
          else (countBytes reply rn, p\<lparr>pr_phase := Replied reply\<rparr>)
      | _ \<Rightarrow> (rn, p))"

text \<open>A timer of a failed request counts no bytes; its reply has none.\<close>

definition processTimer :: "'n Network \<Rightarrow> 'n process \<Rightarrow> 'n Network \<times> 'n process" where
  "processTimer rn p =
     (case pr_phase p of
        Timer ms reply \<Rightarrow> (countBytes reply rn, p\<lparr>pr_phase := Replied reply\<rparr>)
      | _ \<Rightarrow> (rn, p))"

text \<open>A call: the request it builds, and what it does with the reply.\<close>

definition callRequest ::
  "('e, 'd) gob \<Rightarrow> types \<Rightarrow> 'n ClientEnd \<Rightarrow> string \<Rightarrow> Value \<Rightarrow> labgob \<Rightarrow> ('n reqMsg \<times> labgob) option" where
  "callRequest G T e svcMeth args g =
     do { (qe, ok, g) \<leftarrow> Encode G T (Some args) (NewEncoder G []) g;
          if ok then Some (\<lparr>rq_endname = ce_endname e, rq_svcMeth = svcMeth, rq_argsType = TypeOf args, rq_args = le_buf qe\<rparr>, g)
          else None }"

definition callReply ::
  "('e, 'd) gob \<Rightarrow> types \<Rightarrow> replyMsg \<Rightarrow> Value \<Rightarrow> labgob \<Rightarrow> ((bool \<times> Value) \<times> labgob) option" where
  "callReply G T rep reply g =
     (if rm_ok rep
      then do { (v, rd, ok, g) \<leftarrow> Decode G T (Some reply) (NewDecoder G (rm_reply rep)) g;
                if ok then Some ((True, v), g) else None }
      else Some ((False, reply), g))"

subsection \<open>Steps of the network\<close>

record ('n, 'o) sys =
  y_net :: "'n Network"
  y_servers :: "'o Server list"
  y_objs :: "nat \<Rightarrow> 'o"
  y_gob :: labgob
  y_procs :: "'n process list"

datatype ('n, 'o) admin =
    SetReliable bool | SetLongReordering bool | SetLongDelays bool
  | NewEnd 'n | DropEnd 'n
  | NewServer | NewService nat "'o Service" | PutServer 'n nat | DropServer 'n
  | Link 'n "'n option" | Switch 'n bool | Close

datatype ('n, 'o) action =
    Admin "('n, 'o) admin"
  | Invoke bool "'n ClientEnd" string Value Value
  | Start nat nat | Serve nat | Tick nat | Receive nat | Finish nat nat nat nat nat | Fire nat | Return nat

definition onNet :: "('n Network \<Rightarrow> 'n Network) \<Rightarrow> ('n, 'o) sys \<Rightarrow> ('n, 'o) sys" where
  "onNet f y = y\<lparr>y_net := f (y_net y)\<rparr>"

definition onProc :: "nat \<Rightarrow> ('n process \<Rightarrow> 'n process) \<Rightarrow> ('n, 'o) sys \<Rightarrow> ('n, 'o) sys" where
  "onProc i f y = (if i < length (y_procs y) then y\<lparr>y_procs := (y_procs y)[i := f (y_procs y ! i)]\<rparr> else y)"

definition onBoth :: "nat \<Rightarrow> ('n Network \<Rightarrow> 'n process \<Rightarrow> 'n Network \<times> 'n process) \<Rightarrow> ('n, 'o) sys \<Rightarrow> ('n, 'o) sys" where
  "onBoth i f y =
     (if i < length (y_procs y)
      then (case f (y_net y) (y_procs y ! i) of (rn, p) \<Rightarrow> y\<lparr>y_net := rn, y_procs := (y_procs y)[i := p]\<rparr>)
      else y)"

fun adminStep :: "('n, 'o) admin \<Rightarrow> ('n, 'o) sys \<Rightarrow> ('n, 'o) sys option" where
  "adminStep (SetReliable yes) y = Some (onNet (Reliable yes) y)"
| "adminStep (SetLongReordering yes) y = Some (onNet (LongReordering yes) y)"
| "adminStep (SetLongDelays yes) y = Some (onNet (LongDelays yes) y)"
| "adminStep (NewEnd endname) y = map_option (\<lambda>(e, rn). y\<lparr>y_net := rn\<rparr>) (MakeEnd endname (y_net y))"
| "adminStep (DropEnd endname) y = map_option (\<lambda>rn. y\<lparr>y_net := rn\<rparr>) (DeleteEnd endname (y_net y))"
| "adminStep NewServer y = Some (y\<lparr>y_servers := y_servers y @ [MakeServer]\<rparr>)"
| "adminStep (NewService server svc) y =
     (if server < length (y_servers y)
      then Some (y\<lparr>y_servers := (y_servers y)[server := AddService svc (y_servers y ! server)]\<rparr>) else Some y)"
| "adminStep (PutServer servername server) y =
     (if server < length (y_servers y) then Some (onNet (AddServer servername server) y) else Some y)"
| "adminStep (DropServer servername) y = Some (onNet (DeleteServer servername) y)"
| "adminStep (Link endname servername) y = Some (onNet (Connect endname servername) y)"
| "adminStep (Switch endname enabled) y = Some (onNet (Enable endname enabled) y)"
| "adminStep Close y = map_option (\<lambda>rn. y\<lparr>y_net := rn\<rparr>) (Cleanup (y_net y))"

text \<open>
  A call gives its request to the network. When the network has been cleaned up the request may still be
  taken (\<open>taken\<close>), or the call returns false, which is modelled by a request that has its result at once.
\<close>

definition invoke ::
  "('e, 'd) gob \<Rightarrow> types \<Rightarrow> bool \<Rightarrow> 'n ClientEnd \<Rightarrow> string \<Rightarrow> Value \<Rightarrow> Value \<Rightarrow> ('n, 'o) sys \<Rightarrow> ('n, 'o) sys option" where
  "invoke G T taken e svcMeth args reply y =
     do { (req, g) \<leftarrow> callRequest G T e svcMeth args (y_gob y);
          let p = \<lparr>pr_req = req, pr_reply = reply, pr_phase = Arrived, pr_handler = Idle, pr_result = None\<rparr>;
          Some (if nw_done (y_net y) \<and> \<not> taken
                then y\<lparr>y_gob := g, y_procs := y_procs y @ [p\<lparr>pr_phase := Replied noReply, pr_result := Some (False, reply)\<rparr>]\<rparr>
                else y\<lparr>y_gob := g, y_net := takeReq req (y_net y), y_procs := y_procs y @ [p]\<rparr>) }"

text \<open>
  The goroutine of the handler runs the request at the server, also after the other goroutine has given up;
  then nobody waits for its reply.
\<close>

definition handOver :: "replyMsg \<Rightarrow> 'n process \<Rightarrow> 'n process" where
  "handOver reply p = p\<lparr>pr_handler := (if pr_phase p = Replied noReply then Drained else Handed reply)\<rparr>"

definition serve :: "('e, 'd) gob \<Rightarrow> types \<Rightarrow> nat \<Rightarrow> ('n, 'o) sys \<Rightarrow> ('n, 'o) sys option" where
  "serve G T i y =
     (if i < length (y_procs y)
      then (case pr_handler (y_procs y ! i) of
              Running server \<Rightarrow>
                do { rs \<leftarrow> slice_get (y_servers y) (int server);
                     (reply, rs, objs, g) \<leftarrow> Server_dispatch G T (pr_req (y_procs y ! i)) rs (y_objs y) (y_gob y);
                     Some (onProc i (handOver reply)
                       (y\<lparr>y_servers := (y_servers y)[server := rs], y_objs := objs, y_gob := g\<rparr>)) }
            | _ \<Rightarrow> Some y)
      else Some y)"

text \<open>A call returns once its request has been answered.\<close>

definition returnCall :: "('e, 'd) gob \<Rightarrow> types \<Rightarrow> nat \<Rightarrow> ('n, 'o) sys \<Rightarrow> ('n, 'o) sys option" where
  "returnCall G T i y =
     (if i < length (y_procs y) \<and> pr_result (y_procs y ! i) = None
      then (case pr_phase (y_procs y ! i) of
              Replied rep \<Rightarrow>
                do { (res, g) \<leftarrow> callReply G T rep (pr_reply (y_procs y ! i)) (y_gob y);
                     Some (onProc i (\<lambda>p. p\<lparr>pr_result := Some res\<rparr>) (y\<lparr>y_gob := g\<rparr>)) }
            | _ \<Rightarrow> Some y)
      else Some y)"

definition startProc :: "nat \<Rightarrow> 'n Network \<Rightarrow> 'n process \<Rightarrow> 'n process" where
  "startProc roll rn p = (if pr_phase p = Arrived then processStart roll rn p else p)"

fun netStep :: "('e, 'd) gob \<Rightarrow> types \<Rightarrow> ('n, 'o) action \<Rightarrow> ('n, 'o) sys \<Rightarrow> ('n, 'o) sys option" where
  "netStep G T (Admin a) y = adminStep a y"
| "netStep G T (Invoke taken e svcMeth args reply) y = invoke G T taken e svcMeth args reply y"
| "netStep G T (Start i roll) y = Some (onProc i (startProc roll (y_net y)) y)"
| "netStep G T (Serve i) y = serve G T i y"
| "netStep G T (Tick i) y = Some (onProc i (processTick (y_net y)) y)"
| "netStep G T (Receive i) y = Some (onProc i processReceive y)"
| "netStep G T (Finish i r1 r2 r3 r4) y = Some (onBoth i (processFinish r1 r2 r3 r4) y)"
| "netStep G T (Fire i) y = Some (onBoth i processTimer y)"
| "netStep G T (Return i) y = returnCall G T i y"

primrec netRun :: "('e, 'd) gob \<Rightarrow> types \<Rightarrow> ('n, 'o) action list \<Rightarrow> ('n, 'o) sys \<Rightarrow> ('n, 'o) sys option" where
  "netRun G T [] y = Some y"
| "netRun G T (a # as) y = do { y \<leftarrow> netStep G T a y; netRun G T as y }"

definition netInit :: "(nat \<Rightarrow> 'o) \<Rightarrow> ('n, 'o) sys" where
  "netInit objs = \<lparr>y_net = MakeNetwork, y_servers = [], y_objs = objs, y_gob = labgob0, y_procs = []\<rparr>"

end
