(* ===== verification/LabRpcRun.thy ===== *)
theory LabRpcRun
  imports LabRpc
begin

section \<open>Runs of the simulated network\<close>

text \<open>
  What a step of the network does to one request (\<open>moves\<close>), and the invariant \<open>remembers\<close> of its runs: the
  state of a request says which events must have happened before, in which order. In the end, a call that has
  returned true was connected, was executed by the server, found that server alive, and returned.
\<close>

subsection \<open>What a step does to a request\<close>

definition procOf :: "nat \<Rightarrow> ('n, 'o) sys \<Rightarrow> 'n process" where
  "procOf i y = y_procs y ! i"

lemma onNet_procs [simp]: "y_procs (onNet f y) = y_procs y" by (simp add: onNet_def)

lemma adminStep_procs: "adminStep a y = Some y' \<Longrightarrow> y_procs y' = y_procs y"
  by (cases a) (auto split: if_splits)

lemma onProc_procOf: "i < length (y_procs y) \<Longrightarrow> procOf i (onProc j f y) = (if i = j then f (procOf i y) else procOf i y)"
  by (auto simp: onProc_def procOf_def)

lemma onBoth_procOf:
  "i < length (y_procs y) \<Longrightarrow> procOf i (onBoth j f y) = (if i = j then snd (f (y_net y) (procOf i y)) else procOf i y)"
  by (auto simp: onBoth_def procOf_def split: prod.splits)

lemma onProc_length [simp]: "length (y_procs (onProc j f y)) = length (y_procs y)"
  by (simp add: onProc_def)

lemma onBoth_length [simp]: "length (y_procs (onBoth j f y)) = length (y_procs y)"
  by (auto simp: onBoth_def split: prod.splits)

text \<open>What one request sees of a step: nothing, or one of the steps of its goroutines.\<close>

inductive moves ::
  "('e, 'd) gob \<Rightarrow> types \<Rightarrow> nat \<Rightarrow> ('n, 'o) sys \<Rightarrow> ('n, 'o) action \<Rightarrow> 'n process \<Rightarrow> 'n process \<Rightarrow> bool"
  for G :: "('e, 'd) gob" and T :: types and i :: nat and y :: "('n, 'o) sys" where
  moves_none: "moves G T i y act p p"
| moves_start: "moves G T i y (Start i roll) p (startProc roll (y_net y) p)"
| moves_serve: "pr_handler p = Running server \<Longrightarrow> slice_get (y_servers y) (int server) = Some rs \<Longrightarrow>
    Server_dispatch G T (pr_req p) rs (y_objs y) (y_gob y) = Some (reply, rs', objs, g) \<Longrightarrow>
    moves G T i y (Serve i) p (handOver reply p)"
| moves_tick: "moves G T i y (Tick i) p (processTick (y_net y) p)"
| moves_receive: "moves G T i y (Receive i) p (processReceive p)"
| moves_finish: "moves G T i y (Finish i r1 r2 r3 r4) p (snd (processFinish r1 r2 r3 r4 (y_net y) p))"
| moves_fire: "moves G T i y (Fire i) p (snd (processTimer (y_net y) p))"
| moves_return: "pr_result p = None \<Longrightarrow> pr_phase p = Replied rep \<Longrightarrow>
    callReply G T rep (pr_reply p) (y_gob y) = Some (res, g) \<Longrightarrow> moves G T i y (Return i) p (p\<lparr>pr_result := Some res\<rparr>)"

text \<open>A new request is waiting for its goroutine, or is refused because the network is closed.\<close>

definition fresh :: "'n process \<Rightarrow> bool" where
  "fresh p \<longleftrightarrow> pr_handler p = Idle \<and>
     (pr_phase p = Arrived \<and> pr_result p = None \<or> pr_phase p = Replied noReply \<and> pr_result p = Some (False, pr_reply p))"

lemma invoke_procs: "invoke G T taken e svcMeth args reply y = Some y' \<Longrightarrow> \<exists>p. y_procs y' = y_procs y @ [p] \<and> fresh p"
  by (auto simp: invoke_def bind_eq_Some_conv Let_def fresh_def split: if_splits)

lemma serve_moves:
  assumes "serve G T j y = Some y'" and "i < length (y_procs y)"
  shows "length (y_procs y') = length (y_procs y) \<and> moves G T i y (Serve j) (procOf i y) (procOf i y')"
proof (cases "j < length (y_procs y) \<and> (\<exists>server. pr_handler (procOf j y) = Running server)")
  case True
  with assms(1) obtain server rs reply rs' objs g where s: "pr_handler (procOf j y) = Running server"
      "slice_get (y_servers y) (int server) = Some rs"
      "Server_dispatch G T (pr_req (procOf j y)) rs (y_objs y) (y_gob y) = Some (reply, rs', objs, g)"
    and y': "y' = onProc j (handOver reply)
                   (y\<lparr>y_servers := (y_servers y)[server := rs'], y_objs := objs, y_gob := g\<rparr>)"
    by (auto simp: serve_def procOf_def bind_eq_Some_conv)
  have "procOf i y' = (if i = j then handOver reply (procOf i y) else procOf i y)"
    unfolding y' using assms(2) by (subst onProc_procOf) (simp_all add: procOf_def)
  with s show ?thesis by (auto simp: y' intro: moves_none moves_serve)
next
  case False
  with assms(1) have "y' = y" by (auto simp: serve_def procOf_def split: if_splits handler.splits)
  then show ?thesis by (simp add: moves_none)
qed

lemma return_moves:
  assumes "returnCall G T j y = Some y'" and "i < length (y_procs y)"
  shows "length (y_procs y') = length (y_procs y) \<and> moves G T i y (Return j) (procOf i y) (procOf i y')"
proof (cases "j < length (y_procs y) \<and> pr_result (procOf j y) = None \<and> (\<exists>rep. pr_phase (procOf j y) = Replied rep)")
  case True
  with assms(1) obtain rep res g where r: "pr_result (procOf j y) = None" "pr_phase (procOf j y) = Replied rep"
      "callReply G T rep (pr_reply (procOf j y)) (y_gob y) = Some (res, g)"
    and y': "y' = onProc j (\<lambda>p. p\<lparr>pr_result := Some res\<rparr>) (y\<lparr>y_gob := g\<rparr>)"
    by (auto simp: returnCall_def procOf_def bind_eq_Some_conv)
  have "procOf i y' = (if i = j then (procOf i y)\<lparr>pr_result := Some res\<rparr> else procOf i y)"
    unfolding y' using assms(2) by (subst onProc_procOf) (simp_all add: procOf_def)
  with r show ?thesis by (auto simp: y' intro: moves_none moves_return)
next
  case False
  with assms(1) have "y' = y" by (auto simp: returnCall_def procOf_def split: if_splits phase.splits)
  then show ?thesis by (simp add: moves_none)
qed

lemma netStep_moves:
  assumes "netStep G T act y = Some y'" and "i < length (y_procs y)"
  shows "i < length (y_procs y') \<and> moves G T i y act (procOf i y) (procOf i y')"
proof (cases act)
  case (Admin a)
  with assms adminStep_procs [of a y y'] show ?thesis by (simp add: procOf_def moves_none)
next
  case (Invoke taken e svcMeth args reply)
  then obtain p where "y_procs y' = y_procs y @ [p]" using assms(1) invoke_procs by (metis netStep.simps(2))
  with assms(2) show ?thesis by (simp add: procOf_def nth_append moves_none)
qed (use assms serve_moves [of G T _ y y' i] return_moves [of G T _ y y' i] in
  \<open>auto simp: onProc_procOf onBoth_procOf intro: moves.intros\<close>)

subsection \<open>The history of a request\<close>

text \<open>
  \<open>happens G T y acts k P\<close>: in the run of the actions \<open>acts\<close> from \<open>y\<close>, the action number \<open>k\<close> and the
  state it is taken in satisfy \<open>P\<close>.
\<close>

definition happens ::
  "('e, 'd) gob \<Rightarrow> types \<Rightarrow> ('n, 'o) sys \<Rightarrow> ('n, 'o) action list \<Rightarrow> nat \<Rightarrow> (('n, 'o) action \<Rightarrow> ('n, 'o) sys \<Rightarrow> bool) \<Rightarrow> bool" where
  "happens G T y acts k P \<longleftrightarrow> k < length acts \<and> (\<exists>y'. netRun G T (take k acts) y = Some y' \<and> P (acts ! k) y')"

lemma netRun_append: "netRun G T (as @ bs) y = do { y \<leftarrow> netRun G T as y; netRun G T bs y }"
  by (induction as arbitrary: y) (auto split: Option.bind_split)

lemma happens_snoc: "happens G T y acts k P \<Longrightarrow> happens G T y (acts @ [a]) k P"
  by (auto simp: happens_def nth_append)

lemma happens_last: "netRun G T acts y = Some y' \<Longrightarrow> P a y' \<Longrightarrow> happens G T y (acts @ [a]) (length acts) P"
  by (auto simp: happens_def)

lemma happens_less: "happens G T y acts k P \<Longrightarrow> k < length acts"
  by (simp add: happens_def)

text \<open>The events in the life of request \<open>i\<close>: its end is found connected to a server; the handler runs there;
  the server is found alive when there is a reply; the call returns true.\<close>

definition startEv :: "nat \<Rightarrow> 'n \<Rightarrow> 'n \<Rightarrow> nat \<Rightarrow> ('n, 'o) action \<Rightarrow> ('n, 'o) sys \<Rightarrow> bool" where
  "startEv i e n a act y \<longleftrightarrow>
     (\<exists>roll. act = Start i roll) \<and> nw_enabled (y_net y) e \<and> nw_connections (y_net y) e = Some n \<and> nw_servers (y_net y) n = Some a"

definition serveEv ::
  "('e, 'd) gob \<Rightarrow> types \<Rightarrow> nat \<Rightarrow> 'n reqMsg \<Rightarrow> nat \<Rightarrow> replyMsg \<Rightarrow> ('n, 'o) action \<Rightarrow> ('n, 'o) sys \<Rightarrow> bool" where
  "serveEv G T i req a r act y \<longleftrightarrow>
     act = Serve i \<and> i < length (y_procs y) \<and> pr_handler (procOf i y) = Running a \<and> pr_phase (procOf i y) \<noteq> Arrived \<and>
     (\<exists>rs rs' objs g. slice_get (y_servers y) (int a) = Some rs \<and>
        Server_dispatch G T req rs (y_objs y) (y_gob y) = Some (r, rs', objs, g))"

definition finishEv :: "nat \<Rightarrow> 'n \<Rightarrow> 'n \<Rightarrow> nat \<Rightarrow> ('n, 'o) action \<Rightarrow> ('n, 'o) sys \<Rightarrow> bool" where
  "finishEv i e n a act y \<longleftrightarrow>
     (\<exists>r1 r2 r3 r4. act = Finish i r1 r2 r3 r4) \<and> nw_enabled (y_net y) e \<and> nw_servers (y_net y) n = Some a"

definition returnEv :: "('e, 'd) gob \<Rightarrow> types \<Rightarrow> nat \<Rightarrow> Value \<Rightarrow> replyMsg \<Rightarrow> Value \<Rightarrow> ('n, 'o) action \<Rightarrow> ('n, 'o) sys \<Rightarrow> bool" where
  "returnEv G T i reply r v act y \<longleftrightarrow> act = Return i \<and> (\<exists>g. callReply G T r reply (y_gob y) = Some ((True, v), g))"

definition connected where
  "connected G T y acts i p n a \<longleftrightarrow> (\<exists>k. happens G T y acts k (startEv i (rq_endname (pr_req p)) n a))"

definition served where
  "served G T y acts i p n a r \<longleftrightarrow>
     (\<exists>k k'. k < k' \<and> happens G T y acts k (startEv i (rq_endname (pr_req p)) n a) \<and>
        happens G T y acts k' (serveEv G T i (pr_req p) a r))"

definition granted where
  "granted G T y acts i p n a r \<longleftrightarrow>
     (\<exists>k k' k''. k < k' \<and> k' < k'' \<and> happens G T y acts k (startEv i (rq_endname (pr_req p)) n a) \<and>
        happens G T y acts k' (serveEv G T i (pr_req p) a r) \<and>
        happens G T y acts k'' (finishEv i (rq_endname (pr_req p)) n a))"

definition answered where
  "answered G T y acts i p n a r v \<longleftrightarrow>
     (\<exists>k k' k'' l. k < k' \<and> k' < k'' \<and> k'' < l \<and> happens G T y acts k (startEv i (rq_endname (pr_req p)) n a) \<and>
        happens G T y acts k' (serveEv G T i (pr_req p) a r) \<and>
        happens G T y acts k'' (finishEv i (rq_endname (pr_req p)) n a) \<and>
        happens G T y acts l (returnEv G T i (pr_reply p) r v))"

lemma connected_snoc: "connected G T y acts i p n a \<Longrightarrow> connected G T y (acts @ [act]) i p n a"
  unfolding connected_def by (elim exE, intro exI) (rule happens_snoc)

lemma served_snoc: "served G T y acts i p n a r \<Longrightarrow> served G T y (acts @ [act]) i p n a r"
  unfolding served_def by (elim exE conjE, intro exI conjI) (assumption | rule happens_snoc)+

lemma granted_snoc: "granted G T y acts i p n a r \<Longrightarrow> granted G T y (acts @ [act]) i p n a r"
  unfolding granted_def by (elim exE conjE, intro exI conjI) (assumption | rule happens_snoc)+

lemma answered_snoc: "answered G T y acts i p n a r v \<Longrightarrow> answered G T y (acts @ [act]) i p n a r v"
  unfolding answered_def by (elim exE conjE, intro exI conjI) (assumption | rule happens_snoc)+

lemmas history_snoc = connected_snoc served_snoc granted_snoc answered_snoc

lemma served_granted:
  assumes "served G T y acts i p n a r" and "netRun G T acts y = Some y'" and "finishEv i (rq_endname (pr_req p)) n a act y'"
  shows "granted G T y (acts @ [act]) i p n a r"
proof -
  let ?e = "rq_endname (pr_req p)"
  obtain k k' where k: "k < k'" "happens G T y acts k (startEv i ?e n a)" "happens G T y acts k' (serveEv G T i (pr_req p) a r)"
    using assms(1) by (auto simp: served_def)
  note f = happens_last [where P = "finishEv i ?e n a", OF assms(2,3)]
  show ?thesis unfolding granted_def
    by (intro exI conjI) (rule k(1), rule happens_less [OF k(3)], rule happens_snoc [OF k(2)], rule happens_snoc [OF k(3)], rule f)
qed

lemma granted_answered:
  assumes "granted G T y acts i p n a r" and "netRun G T acts y = Some y'" and "returnEv G T i (pr_reply p) r v act y'"
  shows "answered G T y (acts @ [act]) i p n a r v"
proof -
  let ?e = "rq_endname (pr_req p)"
  obtain k k' k'' where k: "k < k'" "k' < k''" "happens G T y acts k (startEv i ?e n a)"
      "happens G T y acts k' (serveEv G T i (pr_req p) a r)" "happens G T y acts k'' (finishEv i ?e n a)"
    using assms(1) by (auto simp: granted_def)
  note f = happens_last [where P = "returnEv G T i (pr_reply p) r v", OF assms(2,3)]
  show ?thesis unfolding answered_def
    by (intro exI conjI) (rule k(1), rule k(2), rule happens_less [OF k(5)], rule happens_snoc [OF k(3)],
      rule happens_snoc [OF k(4)], rule happens_snoc [OF k(5)], rule f)
qed

text \<open>What the state of a request says about its history.\<close>

definition remembers where
  "remembers G T y acts i p \<longleftrightarrow>
     (case pr_phase p of
        Arrived \<Rightarrow> True
      | Serving n a x z \<Rightarrow> connected G T y acts i p n a \<and>
          (pr_handler p = Running a \<or> (\<exists>r. pr_handler p = Handed r \<and> served G T y acts i p n a r))
      | Answered n a x z r \<Rightarrow> served G T y acts i p n a r
      | Timer ms r \<Rightarrow> rm_ok r \<longrightarrow> (\<exists>n a. granted G T y acts i p n a r)
      | Replied r \<Rightarrow> rm_ok r \<longrightarrow> (\<exists>n a. granted G T y acts i p n a r)) \<and>
     (\<forall>v. pr_result p = Some (True, v) \<longrightarrow> (\<exists>n a r. answered G T y acts i p n a r v))"

lemma remembers_snoc: "remembers G T y acts i p \<Longrightarrow> remembers G T y (acts @ [act]) i p"
  unfolding remembers_def by (fastforce intro: history_snoc split: phase.splits)

lemma history_cong [simp]:
  "connected G T y acts i (p\<lparr>pr_phase := x\<rparr>) n a = connected G T y acts i p n a"
  "connected G T y acts i (p\<lparr>pr_handler := h\<rparr>) n a = connected G T y acts i p n a"
  "served G T y acts i (p\<lparr>pr_phase := x\<rparr>) n a r = served G T y acts i p n a r"
  "served G T y acts i (p\<lparr>pr_handler := h\<rparr>) n a r = served G T y acts i p n a r"
  "granted G T y acts i (p\<lparr>pr_phase := x\<rparr>) n a r = granted G T y acts i p n a r"
  "granted G T y acts i (p\<lparr>pr_handler := h\<rparr>) n a r = granted G T y acts i p n a r"
  "granted G T y acts i (p\<lparr>pr_result := res\<rparr>) n a r = granted G T y acts i p n a r"
  "answered G T y acts i (p\<lparr>pr_phase := x\<rparr>) n a r v = answered G T y acts i p n a r v"
  "answered G T y acts i (p\<lparr>pr_handler := h\<rparr>) n a r v = answered G T y acts i p n a r v"
  "answered G T y acts i (p\<lparr>pr_result := res\<rparr>) n a r v = answered G T y acts i p n a r v"
  by (simp_all add: connected_def served_def granted_def answered_def)

lemma noReply_ok [simp]: "\<not> rm_ok noReply" by (simp add: noReply_def)

lemma phase_remembers:
  assumes "remembers G T y acts i p" and "x = Timer ms noReply \<or> x = Replied noReply"
  shows "remembers G T y acts i (p\<lparr>pr_phase := x\<rparr>)"
  using assms by (auto simp: remembers_def)

text \<open>An end that is enabled and connected to a server, and one that is not.\<close>

definition attached :: "'n Network \<Rightarrow> 'n \<Rightarrow> 'n \<Rightarrow> nat \<Rightarrow> bool" where
  "attached rn e n a \<longleftrightarrow> nw_enabled rn e \<and> nw_connections rn e = Some n \<and> nw_servers rn n = Some a"

lemma processStart_attached:
  "attached rn (rq_endname (pr_req p)) n a \<Longrightarrow>
   processStart roll rn p =
     (if \<not> nw_reliable rn \<and> roll mod 1000 < 100 then p\<lparr>pr_phase := Replied noReply\<rparr>
      else p\<lparr>pr_phase := Serving n a (nw_reliable rn) (nw_longReordering rn), pr_handler := Running a\<rparr>)"
  by (simp add: attached_def processStart_def readEndnameInfo_def Let_def)

lemma processStart_detached:
  assumes "\<nexists>n a. attached rn (rq_endname (pr_req p)) n a"
  shows "processStart roll rn p =
    p\<lparr>pr_phase := Timer (if nw_longDelays rn then roll mod 7000 else roll mod 100) noReply\<rparr>"
proof (cases "nw_enabled rn (rq_endname (pr_req p))")
  case True
  show ?thesis
  proof (cases "nw_connections rn (rq_endname (pr_req p))")
    case (Some n)
    with True assms have "nw_servers rn n = None" by (auto simp: attached_def)
    with True Some show ?thesis by (simp add: processStart_def processNoServer_def readEndnameInfo_def)
  qed (use True in \<open>simp add: processStart_def processNoServer_def readEndnameInfo_def\<close>)
qed (simp add: processStart_def processNoServer_def readEndnameInfo_def Let_def)

lemma start_remembers:
  assumes run: "netRun G T acts y = Some y'" and p: "remembers G T y acts i p"
  shows "remembers G T y (acts @ [Start i roll]) i (startProc roll (y_net y') p)"
proof (cases "pr_phase p = Arrived")
  case True
  let ?e = "rq_endname (pr_req p)" and ?rn = "y_net y'"
  note q = remembers_snoc [OF p, of "Start i roll"]
  show ?thesis
  proof (cases "\<exists>n a. attached ?rn ?e n a")
    case live: True
    then obtain n a where na: "attached ?rn ?e n a" by blast
    then have "startEv i ?e n a (Start i roll) y'" by (simp add: startEv_def attached_def)
    from happens_last [where P = "startEv i ?e n a", OF run this] have "connected G T y (acts @ [Start i roll]) i p n a"
      by (auto simp: connected_def)
    with True q show ?thesis by (simp add: startProc_def processStart_attached [OF na] remembers_def)
  next
    case False
    with True phase_remembers [OF q] show ?thesis by (simp add: startProc_def processStart_detached)
  qed
qed (use remembers_snoc [OF p] in \<open>simp add: startProc_def\<close>)

lemma serve_remembers:
  assumes run: "netRun G T acts y = Some y'" and i: "i < length (y_procs y')" and p: "remembers G T y acts i (procOf i y')"
    and h: "pr_handler (procOf i y') = Running a" and rs: "slice_get (y_servers y') (int a) = Some rs"
    and d: "Server_dispatch G T (pr_req (procOf i y')) rs (y_objs y') (y_gob y') = Some (r, rs', objs, g)"
  shows "remembers G T y (acts @ [Serve i]) i (handOver r (procOf i y'))"
proof (cases "pr_phase (procOf i y')")
  case (Serving n b x z)
  with p h have "b = a" and "connected G T y acts i (procOf i y') n a" by (auto simp: remembers_def)
  then obtain k where k: "happens G T y acts k (startEv i (rq_endname (pr_req (procOf i y'))) n a)"
    by (auto simp: connected_def)
  have "serveEv G T i (pr_req (procOf i y')) a r (Serve i) y'" using i h rs d Serving by (auto simp: serveEv_def)
  then have "served G T y (acts @ [Serve i]) i (procOf i y') n a r"
    unfolding served_def using happens_snoc [OF k] happens_less [OF k]
      happens_last [where P = "serveEv G T i (pr_req (procOf i y')) a r", OF run] by blast
  with Serving \<open>b = a\<close> remembers_snoc [OF p, of "Serve i"] show ?thesis by (simp add: remembers_def handOver_def)
qed (use remembers_snoc [OF p, of "Serve i"] in \<open>auto simp: remembers_def handOver_def\<close>)

lemma finish_remembers:
  assumes run: "netRun G T acts y = Some y'" and p: "remembers G T y acts i p"
  shows "remembers G T y (acts @ [Finish i r1 r2 r3 r4]) i (snd (processFinish r1 r2 r3 r4 (y_net y') p))"
proof (cases "pr_phase p")
  case (Answered n a x z r)
  let ?act = "Finish i r1 r2 r3 r4" and ?e = "rq_endname (pr_req p)"
  note q = remembers_snoc [OF p, of ?act]
  show ?thesis
  proof (cases "isServerDead ?e n a (y_net y')")
    case True
    with phase_remembers [OF q] Answered show ?thesis by (simp add: processFinish_def)
  next
    case False
    then have f: "finishEv i ?e n a ?act y'" by (simp add: finishEv_def isServerDead_def)
    have "served G T y acts i p n a r" using p Answered by (simp add: remembers_def)
    from served_granted [OF this run f] have "granted G T y (acts @ [?act]) i p n a r" .
    with q Answered False show ?thesis by (auto simp: processFinish_def remembers_def)
  qed
qed (use remembers_snoc [OF p] in \<open>simp_all add: processFinish_def\<close>)

lemma return_remembers:
  assumes run: "netRun G T acts y = Some y'" and p: "remembers G T y acts i p" and r: "pr_phase p = Replied r"
    and c: "callReply G T r (pr_reply p) (y_gob y') = Some (res, g)"
  shows "remembers G T y (acts @ [Return i]) i (p\<lparr>pr_result := Some res\<rparr>)"
proof -
  note q = remembers_snoc [OF p, of "Return i"]
  have "\<exists>n a r. answered G T y (acts @ [Return i]) i p n a r v" if v: "res = (True, v)" for v
  proof -
    from c v have ok: "rm_ok r" by (auto simp: callReply_def split: if_splits)
    from p r ok obtain n a where gr: "granted G T y acts i p n a r" by (auto simp: remembers_def)
    have "returnEv G T i (pr_reply p) r v (Return i) y'" using c v by (auto simp: returnEv_def)
    from granted_answered [OF gr run this] show ?thesis by blast
  qed
  with q r show ?thesis by (auto simp: remembers_def)
qed

lemma tick_remembers: "remembers G T y acts i p \<Longrightarrow> remembers G T y acts i (processTick rn p)"
  by (auto simp: processTick_def remembers_def split: phase.splits)

lemma receive_remembers: "remembers G T y acts i p \<Longrightarrow> remembers G T y acts i (processReceive p)"
  by (auto simp: processReceive_def remembers_def split: phase.splits handler.splits)

lemma timer_remembers: "remembers G T y acts i p \<Longrightarrow> remembers G T y acts i (snd (processTimer rn p))"
  by (auto simp: processTimer_def remembers_def split: phase.splits)

lemma moves_remembers:
  assumes run: "netRun G T acts y = Some y'" and i: "i < length (y_procs y')" and p: "remembers G T y acts i (procOf i y')"
    and m: "moves G T i y' act (procOf i y') p'"
  shows "remembers G T y (acts @ [act]) i p'"
  using m
proof cases
  case moves_none
  with remembers_snoc [OF p] show ?thesis by simp
next
  case (moves_start roll)
  with start_remembers [OF run p] show ?thesis by simp
next
  case (moves_serve a rs r rs' objs g)
  with serve_remembers [OF run i p] show ?thesis by simp
next
  case moves_tick
  with tick_remembers [OF remembers_snoc [OF p]] show ?thesis by simp
next
  case moves_receive
  with receive_remembers [OF remembers_snoc [OF p]] show ?thesis by simp
next
  case (moves_finish r1 r2 r3 r4)
  with finish_remembers [OF run p] show ?thesis by simp
next
  case moves_fire
  with timer_remembers [OF remembers_snoc [OF p]] show ?thesis by simp
next
  case (moves_return r res g)
  with return_remembers [OF run p] show ?thesis by simp
qed

lemma new_procs:
  assumes "netStep G T act y = Some y'" and "i < length (y_procs y')" and "\<not> i < length (y_procs y)"
  shows "fresh (procOf i y')"
proof (cases act)
  case (Invoke taken e svcMeth args reply)
  then obtain p where "y_procs y' = y_procs y @ [p]" "fresh p" using assms(1) invoke_procs by (metis netStep.simps(2))
  with assms(2,3) show ?thesis by (auto simp: procOf_def nth_append less_Suc_eq)
next
  case (Admin a)
  with assms adminStep_procs [of a y y'] show ?thesis by simp
next
  case (Serve j)
  with assms show ?thesis by (auto simp: serve_def bind_eq_Some_conv split: if_splits handler.splits)
next
  case (Return j)
  with assms show ?thesis by (auto simp: returnCall_def bind_eq_Some_conv split: if_splits phase.splits)
qed (use assms in auto)

lemma fresh_remembers: "fresh p \<Longrightarrow> remembers G T y acts i p"
  by (auto simp: fresh_def remembers_def)

lemma run_remembers:
  assumes "netRun G T acts (netInit objs) = Some y" and "i < length (y_procs y)"
  shows "remembers G T (netInit objs) acts i (procOf i y)"
  using assms
proof (induction acts arbitrary: y rule: rev_induct)
  case Nil
  then show ?case by (auto simp: netInit_def)
next
  case (snoc act acts)
  then obtain y' where y': "netRun G T acts (netInit objs) = Some y'" "netStep G T act y' = Some y"
    by (auto simp: netRun_append bind_eq_Some_conv)
  show ?case
  proof (cases "i < length (y_procs y')")
    case True
    from moves_remembers [OF y'(1) True snoc.IH [OF y'(1) True]] netStep_moves [OF y'(2) True] show ?thesis by blast
  next
    case False
    from new_procs [OF y'(2) snoc.prems(2) False] show ?thesis by (rule fresh_remembers)
  qed
qed

text \<open>The handler of a request runs at most once: a request does not go back to an earlier stage.\<close>

definition stage :: "'n process \<Rightarrow> nat" where
  "stage p = (if pr_phase p = Arrived then 0 else case pr_handler p of Running a \<Rightarrow> 1 | _ \<Rightarrow> 2)"

lemma stage_le: "stage p \<le> 2"
  by (simp add: stage_def split: handler.splits)

lemma moves_stage: "moves G T i y act p p' \<Longrightarrow> stage p \<le> stage p'"
proof (induction rule: moves.induct)
  case (moves_start roll p)
  show ?case by (simp add: startProc_def stage_def)
next
  case (moves_finish r1 r2 r3 r4 p)
  show ?case by (auto simp: processFinish_def stage_def split: phase.splits handler.splits)
qed (auto simp: stage_def handOver_def processTick_def processReceive_def processTimer_def split: phase.splits handler.splits)

lemma run_stage:
  "netRun G T acts y = Some y' \<Longrightarrow> i < length (y_procs y) \<Longrightarrow> stage (procOf i y) \<le> stage (procOf i y')"
proof (induction acts arbitrary: y)
  case (Cons act acts)
  then obtain y1 where y1: "netStep G T act y = Some y1" "netRun G T acts y1 = Some y'" by (auto simp: bind_eq_Some_conv)
  from netStep_moves [OF y1(1) Cons.prems(2)] have "i < length (y_procs y1)" "stage (procOf i y) \<le> stage (procOf i y1)"
    using moves_stage by blast+
  with Cons.IH [OF y1(2)] show ?case by simp
qed simp

lemma serve_stage:
  assumes "serveEv G T i req a r act y" and "netStep G T act y = Some y'"
  shows "stage (procOf i y) = 1" and "stage (procOf i y') = 2" and "i < length (y_procs y')"
proof -
  have act: "act = Serve i" and i: "i < length (y_procs y)" and h: "pr_handler (procOf i y) = Running a"
    and ph: "pr_phase (procOf i y) \<noteq> Arrived" using assms(1) by (auto simp: serveEv_def)
  show "stage (procOf i y) = 1" using h ph by (simp add: stage_def)
  show "i < length (y_procs y')" using netStep_moves [OF assms(2) i] by simp
  have "serve G T i y = Some y'" using assms(2) act by simp
  then obtain reply objs g srvs where "y' = onProc i (handOver reply) (y\<lparr>y_servers := srvs, y_objs := objs, y_gob := g\<rparr>)"
    using i h by (auto simp: serve_def procOf_def bind_eq_Some_conv)
  then have "procOf i y' = handOver reply (procOf i y)" using i by (simp add: onProc_def procOf_def)
  with ph show "stage (procOf i y') = 2" by (simp add: stage_def handOver_def)
qed

lemma serve_once:
  assumes "happens G T y acts k (serveEv G T i req a r)" and "happens G T y acts l (serveEv G T i req' a' r')"
    and "netRun G T acts y = Some z"
  shows "\<not> k < l"
proof
  assume kl: "k < l"
  obtain y1 where y1: "netRun G T (take k acts) y = Some y1" "serveEv G T i req a r (acts ! k) y1" "k < length acts"
    using assms(1) by (auto simp: happens_def)
  obtain y2 where y2: "netRun G T (take l acts) y = Some y2" "serveEv G T i req' a' r' (acts ! l) y2" "l < length acts"
    using assms(2) by (auto simp: happens_def)
  have "take l acts = take k acts @ acts ! k # take (l - Suc k) (drop (Suc k) acts)"
    using take_add [of "Suc k" "l - Suc k" acts] kl y1(3) by (simp add: take_Suc_conv_app_nth)
  then obtain y1' where s: "netStep G T (acts ! k) y1 = Some y1'" "netRun G T (take (l - Suc k) (drop (Suc k) acts)) y1' = Some y2"
    using y1(1) y2(1) by (auto simp: netRun_append bind_eq_Some_conv)
  have "netRun G T (take l acts @ acts ! l # drop (Suc l) acts) y = Some z"
    using assms(3) id_take_nth_drop [OF y2(3)] by simp
  then obtain y2' where "netStep G T (acts ! l) y2 = Some y2'"
    using y2(1) unfolding netRun_append by (auto simp: bind_eq_Some_conv)
  then have "stage (procOf i y2) = 1" by (rule serve_stage [OF y2(2)])
  moreover have "2 \<le> stage (procOf i y2)"
    using run_stage [OF s(2) serve_stage(3) [OF y1(2) s(1)]] serve_stage(2) [OF y1(2) s(1)] by simp
  ultimately show False by simp
qed

end
