(* ===== verification/LabRpcProps.thy ===== *)
theory LabRpcProps
  imports LabRpcRun
begin

section \<open>What the simulated network guarantees\<close>

text \<open>
  The three promises of the comment at the head of \<^verbatim>\<open>labrpc.go\<close>: a call that returns true was executed by
  the server; a call returns unless its handler does not; and, over a reliable network, a call is a call of
  the method.
\<close>

subsection \<open>A call returns\<close>

text \<open>The next step of request \<open>i\<close>, with any random numbers, and a number of these steps.\<close>

definition nextAct :: "(nat \<Rightarrow> nat) \<Rightarrow> nat \<Rightarrow> ('n, 'o) sys \<Rightarrow> ('n, 'o) action" where
  "nextAct roll i y =
     (case pr_phase (procOf i y) of
        Arrived \<Rightarrow> Start i (roll 0)
      | Serving n a x z \<Rightarrow> (case pr_handler (procOf i y) of Handed r \<Rightarrow> Receive i | _ \<Rightarrow> Serve i)
      | Answered n a x z r \<Rightarrow> Finish i (roll 1) (roll 2) (roll 3) (roll 4)
      | Timer ms r \<Rightarrow> Fire i
      | Replied r \<Rightarrow> Return i)"

primrec drive :: "('e, 'd) gob \<Rightarrow> types \<Rightarrow> (nat \<Rightarrow> nat) \<Rightarrow> nat \<Rightarrow> nat \<Rightarrow> ('n, 'o) sys \<Rightarrow> ('n, 'o) sys option" where
  "drive G T roll i 0 y = Some y"
| "drive G T roll i (Suc k) y =
     (if pr_result (procOf i y) \<noteq> None then Some y
      else do { y \<leftarrow> netStep G T (nextAct roll i y) y; drive G T roll i k y })"

definition dispatches :: "('e, 'd) gob \<Rightarrow> types \<Rightarrow> 'n reqMsg \<Rightarrow> nat \<Rightarrow> ('n, 'o) sys \<Rightarrow> bool" where
  "dispatches G T req a y \<longleftrightarrow>
     (\<exists>rs x. slice_get (y_servers y) (int a) = Some rs \<and> Server_dispatch G T req rs (y_objs y) (y_gob y) = Some x)"

definition replies :: "('e, 'd) gob \<Rightarrow> types \<Rightarrow> Value \<Rightarrow> bool" where
  "replies G T reply \<longleftrightarrow> (\<forall>r g. callReply G T r reply g \<noteq> None)"

definition returns where
  "returns G T roll i k y \<longleftrightarrow>
     (\<exists>y'. drive G T roll i k y = Some y' \<and> pr_result (procOf i y') \<noteq> None)"

lemma returns_done: "pr_result (procOf i y) \<noteq> None \<Longrightarrow> returns G T roll i k y"
  by (cases k) (auto simp: returns_def)

lemma returns_step:
  "netStep G T (nextAct roll i y) y = Some y' \<Longrightarrow> returns G T roll i k y' \<Longrightarrow> returns G T roll i (Suc k) y"
  using returns_done [of i y G T roll "Suc k"] by (cases "pr_result (procOf i y) = None") (auto simp: returns_def)

lemma returns_replied:
  assumes "i < length (y_procs y)" and "pr_phase (procOf i y) = Replied r" and "replies G T (pr_reply (procOf i y))"
  shows "returns G T roll i (Suc k) y"
proof (cases "pr_result (procOf i y) = None")
  case True
  obtain res g where "callReply G T r (pr_reply (procOf i y)) (y_gob y) = Some (res, g)"
    using assms(3) unfolding replies_def by (metis not_None_eq surj_pair)
  then have "netStep G T (nextAct roll i y) y = Some (onProc i (\<lambda>p. p\<lparr>pr_result := Some res\<rparr>) (y\<lparr>y_gob := g\<rparr>))"
    using assms(1,2) True by (simp add: nextAct_def returnCall_def procOf_def)
  then show ?thesis by (rule returns_step) (rule returns_done, use assms(1) in \<open>simp add: onProc_def procOf_def\<close>)
qed (simp add: returns_done)

lemma returns_timer:
  assumes "i < length (y_procs y)" and "pr_phase (procOf i y) = Timer ms r" and "replies G T (pr_reply (procOf i y))"
  shows "returns G T roll i (Suc (Suc k)) y"
proof (rule returns_step)
  show "netStep G T (nextAct roll i y) y = Some (onBoth i processTimer y)" using assms(2) by (simp add: nextAct_def)
  show "returns G T roll i (Suc k) (onBoth i processTimer y)"
    using assms by (auto intro!: returns_replied simp: onBoth_procOf processTimer_def)
qed

lemma returns_answered:
  assumes "i < length (y_procs y)" and "pr_phase (procOf i y) = Answered n a x z r" and "replies G T (pr_reply (procOf i y))"
  shows "returns G T roll i (Suc (Suc (Suc k))) y"
proof (rule returns_step)
  let ?y = "onBoth i (processFinish (roll 1) (roll 2) (roll 3) (roll 4)) y"
  show "netStep G T (nextAct roll i y) y = Some ?y" using assms(2) by (simp add: nextAct_def)
  have "(\<exists>ms r. pr_phase (procOf i ?y) = Timer ms r) \<or> (\<exists>r. pr_phase (procOf i ?y) = Replied r)"
    and "pr_reply (procOf i ?y) = pr_reply (procOf i y)"
    using assms(1,2) by (auto simp: onBoth_procOf processFinish_def)
  with assms show "returns G T roll i (Suc (Suc k)) ?y"
    using returns_timer [of i ?y _ _ G T roll k] returns_replied [of i ?y _ G T roll "Suc k"] by auto
qed

lemma returns_handed:
  assumes "i < length (y_procs y)" and "pr_phase (procOf i y) = Serving n a x z" and "pr_handler (procOf i y) = Handed r"
    and "replies G T (pr_reply (procOf i y))"
  shows "returns G T roll i (Suc (Suc (Suc (Suc k)))) y"
proof (rule returns_step)
  show "netStep G T (nextAct roll i y) y = Some (onProc i processReceive y)" using assms(2,3) by (simp add: nextAct_def)
  show "returns G T roll i (Suc (Suc (Suc k))) (onProc i processReceive y)"
    using assms by (intro returns_answered [of i _ n a x z r]) (simp_all add: onProc_procOf processReceive_def)
qed

lemma returns_running:
  assumes i: "i < length (y_procs y)" and ph: "pr_phase (procOf i y) = Serving n a x z" and h: "pr_handler (procOf i y) = Running b"
    and d: "dispatches G T (pr_req (procOf i y)) b y" and "replies G T (pr_reply (procOf i y))"
  shows "returns G T roll i (Suc (Suc (Suc (Suc (Suc k))))) y"
proof -
  obtain rs reply rs' objs g where "slice_get (y_servers y) (int b) = Some rs"
      "Server_dispatch G T (pr_req (procOf i y)) rs (y_objs y) (y_gob y) = Some (reply, rs', objs, g)"
    using d by (auto simp: dispatches_def)
  then have s: "netStep G T (nextAct roll i y) y =
      Some (onProc i (handOver reply) (y\<lparr>y_servers := (y_servers y)[b := rs'], y_objs := objs, y_gob := g\<rparr>))" (is "_ = Some ?y")
    using i ph h by (simp add: nextAct_def serve_def procOf_def)
  have "procOf i ?y = handOver reply (procOf i y)" using i by (simp add: onProc_def procOf_def)
  then have "returns G T roll i (Suc (Suc (Suc (Suc k)))) ?y"
    using assms by (intro returns_handed [of i _ n a x z reply]) (simp_all add: handOver_def)
  with s show ?thesis by (rule returns_step)
qed

lemma returns_arrived:
  assumes i: "i < length (y_procs y)" and ph: "pr_phase (procOf i y) = Arrived"
    and d: "\<And>n a. attached (y_net y) (rq_endname (pr_req (procOf i y))) n a \<Longrightarrow> dispatches G T (pr_req (procOf i y)) a y"
    and r: "replies G T (pr_reply (procOf i y))"
  shows "returns G T roll i (Suc (Suc (Suc (Suc (Suc (Suc k)))))) y"
proof (rule returns_step)
  let ?e = "rq_endname (pr_req (procOf i y))"
  let ?y = "onProc i (startProc (roll 0) (y_net y)) y"
  show "netStep G T (nextAct roll i y) y = Some ?y" using ph by (simp add: nextAct_def)
  have p: "procOf i ?y = processStart (roll 0) (y_net y) (procOf i y)" using i ph by (simp add: onProc_procOf startProc_def)
  have same: "y_servers ?y = y_servers y" "y_objs ?y = y_objs y" "y_gob ?y = y_gob y" by (simp_all add: onProc_def)
  show "returns G T roll i (Suc (Suc (Suc (Suc (Suc k))))) ?y"
  proof (cases "\<exists>n a. attached (y_net y) ?e n a")
    case True
    then obtain n a where na: "attached (y_net y) ?e n a" by blast
    show ?thesis
    proof (cases "\<not> nw_reliable (y_net y) \<and> roll 0 mod 1000 < 100")
      case True
      with p na r i show ?thesis by (intro returns_replied [of i _ noReply]) (simp_all add: processStart_attached)
    next
      case False
      with p na r i d [OF na] same show ?thesis
        by (intro returns_running [of i _ n a _ _ a]) (simp_all add: processStart_attached dispatches_def del: imp_disjL)
    qed
  next
    case False
    with p r i show ?thesis by (intro returns_timer [of i _ _ noReply]) (simp_all add: processStart_detached)
  qed
qed

subsection \<open>A call over a reliable network\<close>

text \<open>What the code relies on of \<^verbatim>\<open>gob\<close>: a value that is encoded and decoded into another value arrives.\<close>

definition transmits :: "('e, 'd) gob \<Rightarrow> Value \<Rightarrow> Value \<Rightarrow> Value \<Rightarrow> bool" where
  "transmits G v into out \<longleftrightarrow>
     (case gob_Encode G (gob_NewEncoder G) v of (st, b, ok) \<Rightarrow>
        ok \<and> (case gob_Decode G (gob_NewDecoder G) b into of (st', rest, v', ok') \<Rightarrow> v' = out \<and> ok'))"

lemma transmitsE:
  assumes "transmits G v into out"
  obtains st b st' rest where "gob_Encode G (gob_NewEncoder G) v = (st, b, True)"
    and "gob_Decode G (gob_NewDecoder G) b into = (st', rest, out, True)"
  using assms by (auto simp: transmits_def split: prod.splits)

lemma EncodeValue_ok:
  assumes "gob_Encode G (gob_NewEncoder G) v = (st, b, True)"
  obtains g' where "EncodeValue G T v (NewEncoder G []) g = Some (\<lparr>le_gob = st, le_buf = b\<rparr>, True, g')"
proof -
  obtain g' where "checkValue T (Some v) g = Some g'" using checkValue_walks [of T v g] by blast
  with assms that show thesis by (simp add: EncodeValue_def NewEncoder_def)
qed

lemma Encode_is_EncodeValue: "Encode G T (Some v) enc g = EncodeValue G T v enc g"
  by (simp add: Encode_def EncodeValue_def)

lemma Decode_ok:
  assumes "gob_Decode G (gob_NewDecoder G) b v = (st, rest, v', True)" and "typed T v" and "capitalized T (TypeOf v)"
  obtains g' where "Decode G T (Some v) (NewDecoder G b) g = Some (v', \<lparr>ld_gob = st, ld_buf = rest\<rparr>, True, g')"
proof -
  obtain g1 where g1: "checkValue T (Some v) g = Some g1" using checkValue_walks [of T v g] by blast
  obtain g2 where "checkDefault T (Some v) g1 = Some g2"
    using checkDefault1_returns(1) [OF assms(2,3), of "(False, False)" 1 "[]" g1] by (auto simp: checkDefault_def)
  with assms(1) g1 that show thesis by (simp add: Decode_def NewDecoder_def)
qed

lemma capitalized_ptr: "capitalized T t \<Longrightarrow> capitalized T (TPtr t)"
  unfolding capitalized_def
proof (intro allI impI)
  fix u assume t: "\<forall>u. (t, u) \<in> mentions T \<longrightarrow> list_all (\<lambda>f. isUpper (f_Name f)) (structFields T u)"
    and "(TPtr t, u) \<in> mentions T"
  then have "u = TPtr t \<or> (t, u) \<in> mentions T"
    unfolding mentions_def by (auto elim: converse_rtranclE simp: children_def)
  with t show "list_all (\<lambda>f. isUpper (f_Name f)) (structFields T u)" by auto
qed

lemma lastDot_none: "CHR ''.'' \<notin> set s \<Longrightarrow> lastDot s = - 1"
  by (induction s) (auto simp: Let_def)

lemma lastDot_split: "CHR ''.'' \<notin> set meth \<Longrightarrow> lastDot (svc @ ''.'' @ meth) = int (length svc)"
  by (induction svc) (simp_all add: lastDot_none Let_def)

text \<open>A method of a service at a server, as a call finds it.\<close>

definition offers :: "'o Server \<Rightarrow> string \<Rightarrow> string \<Rightarrow> 'o Service \<Rightarrow> 'o Method \<Rightarrow> rtype \<Rightarrow> rtype \<Rightarrow> bool" where
  "offers rs svcName methName svc m argsType replyType \<longleftrightarrow>
     rs_services rs svcName = Some svc \<and> sv_methods svc methName = Some m \<and> CHR ''.'' \<notin> set methName \<and>
     m_In m ! 1 = argsType \<and> m_In m ! 2 = TPtr replyType"

lemma dispatch_ok:
  assumes o: "offers rs svcName methName svc m (TypeOf args) rt" and b: "gob_Encode G (gob_NewEncoder G) args = (st, b, True)"
    and d: "gob_Decode G (gob_NewDecoder G) b (reflectNew T (TypeOf args)) = (st', rest, VPtr (TPtr (TypeOf args)) (Some args), True)"
    and t: "typed T (reflectNew T (TypeOf args))" "capitalized T (TypeOf args)"
    and m: "m_Func m (objs (sv_rcvr svc)) args (reflectNew T rt) = Some (obj, rv)"
    and r: "gob_Encode G (gob_NewEncoder G) rv = (st'', b', True)"
  obtains g' where "Server_dispatch G T \<lparr>rq_endname = e, rq_svcMeth = svcName @ ''.'' @ methName, rq_argsType = TypeOf args, rq_args = b\<rparr>
    rs objs g = Some (\<lparr>rm_ok = True, rm_reply = b'\<rparr>, rs\<lparr>rs_count := rs_count rs + 1\<rparr>, objs(sv_rcvr svc := obj), g')"
proof -
  let ?req = "\<lparr>rq_endname = e, rq_svcMeth = svcName @ ''.'' @ methName, rq_argsType = TypeOf args, rq_args = b\<rparr>"
  have "capitalized T (TypeOf (reflectNew T (TypeOf args)))" using capitalized_ptr [OF t(2)] by (simp add: reflectNew_def)
  from Decode_ok [OF d t(1) this, of g] obtain g1 where
    g1: "Decode G T (Some (reflectNew T (TypeOf args))) (NewDecoder G b) g = Some (VPtr (TPtr (TypeOf args)) (Some args), \<lparr>ld_gob = st', ld_buf = rest\<rparr>, True, g1)"
    by blast
  obtain g2 where g2: "EncodeValue G T rv (NewEncoder G []) g1 = Some (\<lparr>le_gob = st'', le_buf = b'\<rparr>, True, g2)"
    using EncodeValue_ok [OF r] by blast
  have s: "Service_dispatch G T svc methName ?req objs g = Some (\<lparr>rm_ok = True, rm_reply = b'\<rparr>, objs(sv_rcvr svc := obj), g2)"
    using o m g1 g2 by (simp add: Service_dispatch_def offers_def)
  have dot: "lastDot (svcName @ ''.'' @ methName) = int (length svcName)" using o by (intro lastDot_split) (simp add: offers_def)
  have "slice_upto (svcName @ ''.'' @ methName) (int (length svcName)) = Some svcName"
      "slice_from (svcName @ ''.'' @ methName) (int (length svcName) + 1) = Some methName"
    by (simp_all add: slice_upto_def slice_from_def nat_add_distrib)
  with o s dot that [of g2] show thesis by (simp add: Server_dispatch_def offers_def)
qed

lemma onProc_last: "onProc (length ps) f (y\<lparr>y_procs := ps @ [p]\<rparr>) = y\<lparr>y_procs := ps @ [f p]\<rparr>"
  by (simp add: onProc_def)

lemma onBoth_last:
  "f (y_net y) p = (rn, p') \<Longrightarrow> onBoth (length ps) f (y\<lparr>y_procs := ps @ [p]\<rparr>) = y\<lparr>y_net := rn, y_procs := ps @ [p']\<rparr>"
  by (simp add: onBoth_def)

text \<open>
  The steps of the last request, when its end stays attached to the server and the network is reliable and
  does not reorder.
\<close>

lemma serve_last:
  assumes "slice_get (y_servers y) (int a) = Some rs" and "Server_dispatch G T req rs (y_objs y) (y_gob y) = Some (r, rs', objs, g)"
    and "attached (y_net y) (rq_endname req) n a" and "nw_reliable (y_net y)" and "\<not> nw_longReordering (y_net y)"
    and "callReply G T r reply g = Some (res, g')"
  shows "netRun G T [Start (length ps) r0, Serve (length ps), Receive (length ps), Finish (length ps) r1 r2 r3 r4, Return (length ps)]
      (y\<lparr>y_procs := ps @ [\<lparr>pr_req = req, pr_reply = reply, pr_phase = Arrived, pr_handler = Idle, pr_result = None\<rparr>]\<rparr>) =
    Some (y\<lparr>y_net := countBytes r (y_net y), y_servers := (y_servers y)[a := rs'], y_objs := objs, y_gob := g',
            y_procs := ps @ [\<lparr>pr_req = req, pr_reply = reply, pr_phase = Replied r, pr_handler = Received r, pr_result = Some res\<rparr>]\<rparr>)"
proof -
  let ?p = "\<lambda>ph h res. \<lparr>pr_req = req, pr_reply = reply, pr_phase = ph, pr_handler = h, pr_result = res\<rparr>"
  let ?y = "y\<lparr>y_servers := (y_servers y)[a := rs'], y_objs := objs, y_gob := g\<rparr>"
  have alive: "\<not> isServerDead (rq_endname req) n a (y_net y)" using assms(3) by (simp add: isServerDead_def attached_def)
  have "startProc r0 (y_net y) (?p Arrived Idle None) = ?p (Serving n a True False) (Running a) None"
    using assms(3-5) by (simp add: startProc_def processStart_attached)
  then have 1: "netStep G T (Start (length ps) r0) (y\<lparr>y_procs := ps @ [?p Arrived Idle None]\<rparr>) =
      Some (y\<lparr>y_procs := ps @ [?p (Serving n a True False) (Running a) None]\<rparr>)" by (simp add: onProc_last)
  have 2: "netStep G T (Serve (length ps)) (y\<lparr>y_procs := ps @ [?p (Serving n a True False) (Running a) None]\<rparr>) =
      Some (?y\<lparr>y_procs := ps @ [?p (Serving n a True False) (Handed r) None]\<rparr>)"
    using assms(1,2) by (simp add: serve_def handOver_def onProc_def)
  have 3: "netStep G T (Receive (length ps)) (?y\<lparr>y_procs := ps @ [?p (Serving n a True False) (Handed r) None]\<rparr>) =
      Some (?y\<lparr>y_procs := ps @ [?p (Answered n a True False r) (Received r) None]\<rparr>)"
    unfolding netStep.simps onProc_last by (simp add: processReceive_def)
  have "processFinish r1 r2 r3 r4 (y_net ?y) (?p (Answered n a True False r) (Received r) None) =
      (countBytes r (y_net y), ?p (Replied r) (Received r) None)" using alive by (simp add: processFinish_def)
  from onBoth_last [where f = "processFinish r1 r2 r3 r4" and y = ?y, OF this] have 4: "netStep G T (Finish (length ps) r1 r2 r3 r4) (?y\<lparr>y_procs := ps @ [?p (Answered n a True False r) (Received r) None]\<rparr>) =
      Some (?y\<lparr>y_net := countBytes r (y_net y), y_procs := ps @ [?p (Replied r) (Received r) None]\<rparr>)" by simp
  have 5: "netStep G T (Return (length ps)) (?y\<lparr>y_net := countBytes r (y_net y), y_procs := ps @ [?p (Replied r) (Received r) None]\<rparr>) =
      Some (y\<lparr>y_net := countBytes r (y_net y), y_servers := (y_servers y)[a := rs'], y_objs := objs, y_gob := g',
            y_procs := ps @ [?p (Replied r) (Received r) (Some res)]\<rparr>)"
    using assms(6) by (simp add: returnCall_def onProc_def)
  from 1 2 3 4 5 show ?thesis by (simp del: netStep.simps)
qed

subsection \<open>Properties\<close>

text \<open>
  (C37) A call that returns true was executed. In any run of the network, if a call has returned true then,
  in this order: its end was enabled and connected to a name under which a server was registered; the
  server ran the request, and gave the reply; when the reply was ready the end was still enabled and the same
  server still registered, so it had not been deleted; and the call decoded that reply. No request is ever run
  twice.
\<close>

theorem call_true_executed:
  assumes "netRun G T acts (netInit objs) = Some y" and "i < length (y_procs y)" and "pr_result (procOf i y) = Some (True, v)"
  shows "\<exists>n a r k k' k'' l. k < k' \<and> k' < k'' \<and> k'' < l \<and>
    happens G T (netInit objs) acts k (startEv i (rq_endname (pr_req (procOf i y))) n a) \<and>
    happens G T (netInit objs) acts k' (serveEv G T i (pr_req (procOf i y)) a r) \<and>
    happens G T (netInit objs) acts k'' (finishEv i (rq_endname (pr_req (procOf i y))) n a) \<and>
    happens G T (netInit objs) acts l (returnEv G T i (pr_reply (procOf i y)) r v) \<and>
    (\<forall>m req a' r'. happens G T (netInit objs) acts m (serveEv G T i req a' r') \<longrightarrow> m = k')"
proof -
  let ?p = "procOf i y"
  obtain n a r where "answered G T (netInit objs) acts i ?p n a r v"
    using run_remembers [OF assms(1,2)] assms(3) by (auto simp: remembers_def)
  then obtain k k' k'' l where h: "k < k'" "k' < k''" "k'' < l"
      "happens G T (netInit objs) acts k (startEv i (rq_endname (pr_req ?p)) n a)"
      "happens G T (netInit objs) acts k' (serveEv G T i (pr_req ?p) a r)"
      "happens G T (netInit objs) acts k'' (finishEv i (rq_endname (pr_req ?p)) n a)"
      "happens G T (netInit objs) acts l (returnEv G T i (pr_reply ?p) r v)"
    by (auto simp: answered_def)
  have "m = k'" if "happens G T (netInit objs) acts m (serveEv G T i req a' r')" for m req a' r'
    using serve_once [OF that h(5) assms(1)] serve_once [OF h(5) that assms(1)] by simp
  with h show ?thesis by blast
qed


text \<open>
  (C39) Over a reliable network a call is a call of the method. When the end is attached to a server that
  offers the method, the call runs it once on the receiver with the arguments of the caller, returns true, and
  leaves the handler's reply in the reply of the caller; \<^verbatim>\<open>gob\<close> is assumed to carry the arguments and the reply.
\<close>

theorem reliable_call:
  assumes "nw_reliable (y_net y)" and "\<not> nw_longReordering (y_net y)" and "\<not> nw_done (y_net y)" and "attached (y_net y) e n a"
    and "slice_get (y_servers y) (int a) = Some rs" and "offers rs svcName methName svc m (TypeOf args) rt"
    and "m_Func m (y_objs y (sv_rcvr svc)) args (reflectNew T rt) = Some (obj, rv)"
    and "typed T (reflectNew T (TypeOf args))" and "capitalized T (TypeOf args)" and "typed T reply" and "capitalized T (TypeOf reply)"
    and "transmits G args (reflectNew T (TypeOf args)) (VPtr (TPtr (TypeOf args)) (Some args))" and "transmits G rv reply rv'"
  shows "\<exists>y'. netRun G T [Invoke taken \<lparr>ce_endname = e\<rparr> (svcName @ ''.'' @ methName) args reply,
        Start (length (y_procs y)) r0, Serve (length (y_procs y)), Receive (length (y_procs y)),
        Finish (length (y_procs y)) r1 r2 r3 r4, Return (length (y_procs y))] y = Some y' \<and>
      pr_result (procOf (length (y_procs y)) y') = Some (True, rv') \<and>
      y_objs y' = (y_objs y)(sv_rcvr svc := obj) \<and> nw_count (y_net y') = nw_count (y_net y) + 1"
proof -
  obtain st b st' rest where b: "gob_Encode G (gob_NewEncoder G) args = (st, b, True)"
      "gob_Decode G (gob_NewDecoder G) b (reflectNew T (TypeOf args)) = (st', rest, VPtr (TPtr (TypeOf args)) (Some args), True)"
    using assms(12) by (rule transmitsE)
  obtain st2 b' st3 rest' where b': "gob_Encode G (gob_NewEncoder G) rv = (st2, b', True)"
      "gob_Decode G (gob_NewDecoder G) b' reply = (st3, rest', rv', True)"
    using assms(13) by (rule transmitsE)
  let ?req = "\<lparr>rq_endname = e, rq_svcMeth = svcName @ ''.'' @ methName, rq_argsType = TypeOf args, rq_args = b\<rparr>"
  let ?p = "\<lparr>pr_req = ?req, pr_reply = reply, pr_phase = Arrived, pr_handler = Idle, pr_result = None\<rparr>"
  obtain g1 where "EncodeValue G T args (NewEncoder G []) (y_gob y) = Some (\<lparr>le_gob = st, le_buf = b\<rparr>, True, g1)"
    using EncodeValue_ok [OF b(1)] by blast
  then have inv: "netStep G T (Invoke taken \<lparr>ce_endname = e\<rparr> (svcName @ ''.'' @ methName) args reply) y =
      Some (y\<lparr>y_gob := g1, y_net := takeReq ?req (y_net y), y_procs := y_procs y @ [?p]\<rparr>)"
    using assms(3) by (simp add: invoke_def callRequest_def Encode_is_EncodeValue)
  obtain g2 where d: "Server_dispatch G T ?req rs (y_objs y) g1 =
      Some (\<lparr>rm_ok = True, rm_reply = b'\<rparr>, rs\<lparr>rs_count := rs_count rs + 1\<rparr>, (y_objs y)(sv_rcvr svc := obj), g2)"
    by (rule dispatch_ok [where objs = "y_objs y", OF assms(6) b assms(8,9,7) b'(1)])
  obtain g3 where "Decode G T (Some reply) (NewDecoder G b') g2 = Some (rv', \<lparr>ld_gob = st3, ld_buf = rest'\<rparr>, True, g3)"
    by (rule Decode_ok [OF b'(2) assms(10,11)])
  then have c: "callReply G T \<lparr>rm_ok = True, rm_reply = b'\<rparr> reply g2 = Some ((True, rv'), g3)"
    by (simp add: callReply_def)
  let ?y = "y\<lparr>y_gob := g1, y_net := takeReq ?req (y_net y)\<rparr>"
  have "slice_get (y_servers ?y) (int a) = Some rs" "attached (y_net ?y) (rq_endname ?req) n a" "nw_reliable (y_net ?y)"
      "\<not> nw_longReordering (y_net ?y)" using assms by (simp_all add: takeReq_def attached_def)
  from serve_last [where y = ?y and ps = "y_procs y", OF this(1) _ this(2-4) c] d inv show ?thesis
    by (simp add: procOf_def countBytes_def takeReq_def del: netStep.simps)
qed

text \<open>A server like that of the package's tests, with one method that logs its argument.\<close>

abbreviation stringT :: rtype where
  "stringT \<equiv> TScalar ''string''"

definition echo :: "Value list Method" where
  "echo = \<lparr>m_Name = ''Handler'', m_PkgPath = [], m_In = [TPtr (TOther ''JunkServer''), stringT, TPtr stringT], m_NumOut = 0,
     m_Func = (\<lambda>obj args reply. Some (obj @ [args], VPtr (TPtr stringT) (Some (VScalar stringT (SString ''done'')))))\<rparr>"

definition junkSetup :: "(nat, Value list) action list" where
  "junkSetup = map Admin [NewServer, NewService 0 (MakeService [] ''JunkServer'' 0 [echo]), PutServer 7 0, NewEnd 1,
     Link 1 (Some 7), Switch 1 True]"

definition junkArg :: Value where
  "junkArg = VScalar stringT (SString ''hello'')"

definition junkReply :: "string \<Rightarrow> Value" where
  "junkReply s = VPtr (TPtr stringT) (Some (VScalar stringT (SString s)))"

definition junkInvoke :: "(nat, Value list) action" where
  "junkInvoke = Invoke False \<lparr>ce_endname = 1\<rparr> ''JunkServer.Handler'' junkArg (junkReply [])"

definition junkCall :: "(nat, Value list) action list" where
  "junkCall = [Start 0 0, Serve 0, Receive 0, Finish 0 0 0 0 0, Return 0]"

definition junkRun :: "(nat, Value list) action list" where
  "junkRun = junkSetup @ junkInvoke # junkCall"

definition junkSys :: "(nat, Value list) sys" where
  "junkSys =
     \<lparr>y_net = MakeNetwork\<lparr>nw_ends := [1 \<mapsto> \<lparr>ce_endname = 1\<rparr>], nw_enabled := (\<lambda>_. False)(1 := True), nw_servers := [7 \<mapsto> 0],
                nw_connections := [1 \<mapsto> 7]\<rparr>,
      y_servers = [AddService (MakeService [] ''JunkServer'' 0 [echo]) MakeServer], y_objs = (\<lambda>_. []), y_gob = labgob0, y_procs = []\<rparr>"

lemma junk_setup: "netRun textGob [] junkSetup (netInit (\<lambda>_. [])) = Some junkSys"
  by (simp add: junkSys_def junkSetup_def netInit_def MakeEnd_def onNet_def MakeNetwork_def AddServer_def Connect_def Enable_def Let_def)

lemma junk_done:
  "\<exists>y. netRun textGob [] junkRun (netInit (\<lambda>_. [])) = Some y \<and> length (y_procs y) = 1 \<and> pr_result (procOf 0 y) = Some (True, junkReply ''done'')"
proof -
  have "map_option (\<lambda>y. (length (y_procs y), pr_result (procOf 0 y))) (netRun textGob [] junkRun (netInit (\<lambda>_. []))) =
      Some (1, Some (True, junkReply ''done''))" by code_simp
  then show ?thesis by auto
qed

theorem call_true_executed_witness:
  "\<exists>y. netRun textGob [] junkRun (netInit (\<lambda>_. [])) = Some y \<and> pr_result (procOf 0 y) = Some (True, junkReply ''done'') \<and>
     (\<exists>n a r k k'. k < k' \<and> happens textGob [] (netInit (\<lambda>_. [])) junkRun k (startEv 0 (rq_endname (pr_req (procOf 0 y))) n a) \<and>
        happens textGob [] (netInit (\<lambda>_. [])) junkRun k' (serveEv textGob [] 0 (pr_req (procOf 0 y)) a r))"
proof -
  obtain y where y: "netRun textGob [] junkRun (netInit (\<lambda>_. [])) = Some y" "0 < length (y_procs y)"
      "pr_result (procOf 0 y) = Some (True, junkReply ''done'')" using junk_done by (metis zero_less_one)
  from call_true_executed [OF y] y(1,3) show ?thesis by blast
qed

definition junkWait :: "(nat, Value list) sys" where
  "junkWait = the (netRun textGob [] (junkSetup @ [junkInvoke]) (netInit (\<lambda>_. [])))"

lemma string_capitalized: "capitalized [] stringT"
proof -
  have "u = stringT" if "(stringT, u) \<in> mentions []" for u
    using that unfolding mentions_def by (induction rule: rtrancl_induct) (auto simp: children_def)
  then have "list_all (\<lambda>f. isUpper (f_Name f)) (structFields [] u)" if "(stringT, u) \<in> mentions []" for u
    using that by fastforce
  then show ?thesis unfolding capitalized_def by blast
qed

lemma junkReply_ok: "typed [] (junkReply s)" "capitalized [] (TypeOf (junkReply s))"
  using capitalized_ptr [OF string_capitalized] by (simp_all add: junkReply_def)

lemma junk_replies: "replies textGob [] (junkReply [])"
  unfolding replies_def
proof (intro allI)
  fix r g
  show "callReply textGob [] r (junkReply []) g \<noteq> None"
  proof (cases "rm_ok r")
    case True
    have "gob_Decode textGob (gob_NewDecoder textGob) (rm_reply r) (junkReply []) = ((), [], junkReply (rm_reply r), True)"
      by (simp add: textGob_def junkReply_def)
    then obtain g' where "Decode textGob [] (Some (junkReply [])) (NewDecoder textGob (rm_reply r)) g =
        Some (junkReply (rm_reply r), \<lparr>ld_gob = (), ld_buf = []\<rparr>, True, g')"
      by (rule Decode_ok [OF _ junkReply_ok])
    with True show ?thesis by (simp add: callReply_def)
  qed (simp add: callReply_def)
qed


theorem reliable_call_witness:
  "\<exists>y'. netRun textGob [] [Invoke False \<lparr>ce_endname = 1\<rparr> (''JunkServer'' @ ''.'' @ ''Handler'') junkArg (junkReply []),
        Start 0 0, Serve 0, Receive 0, Finish 0 0 0 0 0, Return 0] junkSys = Some y' \<and>
      pr_result (procOf 0 y') = Some (True, junkReply ''done'') \<and> y_objs y' = (\<lambda>_. [])(0 := [junkArg]) \<and> nw_count (y_net y') = 1"
proof -
  let ?svc = "MakeService [] ''JunkServer'' 0 [echo] :: Value list Service"
  have o: "offers (AddService ?svc MakeServer) ''JunkServer'' ''Handler'' ?svc echo (TypeOf junkArg) stringT"
    by (simp add: offers_def AddService_def MakeServer_def MakeService_def suitable_def echo_def junkArg_def)
  have z: "reflectNew [] stringT = junkReply []" by (simp add: reflectNew_def zeroScalar_def junkReply_def)
  have t: "transmits textGob junkArg (junkReply []) (VPtr (TPtr (TypeOf junkArg)) (Some junkArg))"
      "transmits textGob (junkReply ''done'') (junkReply []) (junkReply ''done'')"
    by (simp_all add: transmits_def textGob_def junkArg_def junkReply_def)
  have m: "m_Func echo (y_objs junkSys (sv_rcvr ?svc)) junkArg (reflectNew [] stringT) = Some ([junkArg], junkReply ''done'')"
    by (simp add: echo_def junkSys_def junkReply_def)
  have net: "nw_reliable (y_net junkSys)" "\<not> nw_longReordering (y_net junkSys)" "\<not> nw_done (y_net junkSys)" "attached (y_net junkSys) 1 7 0"
      "slice_get (y_servers junkSys) (int 0) = Some (AddService ?svc MakeServer)" "y_procs junkSys = []" "y_objs junkSys = (\<lambda>_. [])"
      "nw_count (y_net junkSys) = 0" by (simp_all add: junkSys_def MakeNetwork_def attached_def slice_get_def)
  have arg: "typed [] (reflectNew [] (TypeOf junkArg))" "capitalized [] (TypeOf junkArg)"
      "transmits textGob junkArg (reflectNew [] (TypeOf junkArg)) (VPtr (TPtr (TypeOf junkArg)) (Some junkArg))"
    using junkReply_ok(1) string_capitalized t(1) z by (simp_all add: junkArg_def)
  from reliable_call [OF net(1-5) o m arg(1,2) junkReply_ok arg(3) t(2), of False 0 0 0 0 0] show ?thesis
    unfolding net(6-8) by (simp add: MakeService_def del: netRun.simps)
qed

end
