(* ===== verification/Spec2Isabelle.thy ===== *)
theory Spec2Isabelle
  imports KvSrv Replicated Harness ShardSystem ShardKvProps MrProps Visualization LabRpcProps
begin

text \<open>
  A verification library for the Go implementation of the MIT 6.824 labs under \<^verbatim>\<open>src/src\<close>: the
  Raft consensus module, the services built on it, MapReduce, the linearizability checker that the tests
  use, and the simulated network and its encoder.

  \<^bold>\<open>The parts and how they interact.\<close> A peer of \<^verbatim>\<open>raft\<close> keeps a log with its fellow peers by remote
  calls over \<^verbatim>\<open>labrpc\<close>, writes its state through \<^verbatim>\<open>labgob\<close> to a \<^verbatim>\<open>Persister\<close>, and hands committed commands and
  snapshots over a channel to a service. The services are the key/value server \<^verbatim>\<open>kvraft\<close>, the controller
  \<^verbatim>\<open>shardctrler\<close>, which assigns shards to groups, and the groups of \<^verbatim>\<open>shardkv\<close>, which store the shards
  and move them when the controller changes the assignment. \<^verbatim>\<open>kvsrv\<close> is a single key/value server without Raft.
  The tests record what the clerks see and give it to \<^verbatim>\<open>porcupine\<close> with the model of \<^verbatim>\<open>models/kv.go\<close>. \<^verbatim>\<open>mr\<close> is
  independent of these: a coordinator and workers that share a file system.

  \<^bold>\<open>How Go is modelled.\<close> (\<open>Prelude\<close>) What a goroutine does while it holds a lock is one
  function on the state of its object; a function that releases the lock is cut there. A run-time panic,
  \<^verbatim>\<open>log.Fatalf\<close>, and an operation that blocks for ever have the result \<open>None\<close>. What the program does not
  decide (the network, the scheduler, random numbers, clocks, the order in which a map is visited) is
  an argument or a step that may be taken at any time. Go's \<^verbatim>\<open>int\<close> is \<open>int\<close>; only the words of the bit sets
  and the hash of MapReduce have their width.

  \<^bold>\<open>Raft.\<close>
  \<^item> \<open>Persister\<close>: \<^verbatim>\<open>raft/persister.go\<close>, an instance of the contract \<open>stable_store\<close>.
  \<^item> \<open>RaftNode\<close>: \<^verbatim>\<open>raft/raft.go\<close>, with a function for each function of the file under its name; \<open>replicateTo\<close>,
    \<open>installReply\<close> and \<open>appendReply\<close>, and \<open>startElection\<close> and \<open>voteReply\<close>, are the parts around a remote call.
  \<^item> \<open>RaftCluster\<close>: any number of peers, with requests and replies lost, delayed and reordered, and
    crashes between any two steps (\<open>clusterStep\<close>); \<open>RaftRun\<close> runs an explicit schedule.
  \<^item> \<open>RaftSpec\<close>, \<open>RaftSpecInv\<close>: an abstract protocol of six actions and its invariant. \<open>RaftLog\<close>, \<open>RaftLeader\<close>: what
    each handler does to the whole log. \<open>RaftRefine\<close>, \<open>RaftSim\<close>, \<open>RaftSafety\<close>: every step of the cluster is a sequence of
    abstract actions. \<open>RaftProps\<close>: agreement on what is delivered, one leader in a term, matching logs, complete
    leaders, votes and terms across restarts, and that no index is out of bounds.
  \<^item> \<open>Harness\<close>: the checks of \<^verbatim>\<open>raft/config.go\<close> on a running cluster; they never fail without snapshots.

  \<^bold>\<open>Services.\<close>
  \<^item> The services share two contracts. \<open>Dedup\<close> (\<open>exactly_once\<close>): a request that is repeated takes effect once. \<open>Replica\<close>
    (\<open>command_machine\<close>, \<open>log_machine\<close>): a server that is fed a log holds the state that the log gives. They share \<open>Waiters\<close>: the
    handlers that wait for a result, and the channels they wait on; and \<open>Retry\<close>: the loop of the clerks.
  \<^item> \<open>KvSrv\<close>: \<^verbatim>\<open>kvsrv\<close>. \<open>KvRaft\<close>: \<^verbatim>\<open>kvraft\<close>; the apply loop never blocks, replies are those of the log, replicas
    agree, and a snapshot that is overtaken by a command is lost.
  \<^item> \<open>RaftService\<close>, \<open>Replicated\<close>: the key/value service and the controller fed by the cluster itself.
    They take no snapshots there, because with snapshots the order of delivery is not always that of the
    log: a command can overtake a snapshot.
  \<^item> \<open>ShardCtrler\<close>, \<open>Rebalance\<close>, \<open>CtrlerProps\<close>: \<^verbatim>\<open>shardctrler\<close>. \<open>rebalance\<close> ends and balances, and a group that holds
    no more than its target keeps its shards; the configurations are numbered and follow the log.
  \<^item> \<open>ShardKv\<close>, \<open>ShardSteps\<close>, \<open>ShardKvProps\<close>: one server of \<^verbatim>\<open>shardkv\<close>, its hand-over of a shard and two ways in which
    a group is left waiting for ever. \<open>Migration\<close>, \<open>MigrationInv\<close>, \<open>MigrationSteps\<close>, \<open>MigrationProps\<close>: all groups together; one group
    serves a shard, with exactly the writes that took effect. \<open>ShardSystem\<close>: the same under the
    configurations that the controller makes.

  \<^bold>\<open>MapReduce.\<close> \<open>MapReduce\<close>: \<^verbatim>\<open>mr/coordinator.go\<close>, \<^verbatim>\<open>mr/worker.go\<close>, \<^verbatim>\<open>mr/rpc.go\<close> and the computation of
  \<^verbatim>\<open>main/mrsequential.go\<close>; \<open>MrLemmas\<close>, \<open>MrJob\<close>: workers that may stop anywhere; \<open>MrWorker\<close>, \<open>MrProps\<close>: a finished job has the
  output of the sequential program, a worker that is not interrupted finishes the job, and \<^verbatim>\<open>mrapps/wc.go\<close> counts.

  \<^bold>\<open>The checker.\<close> \<open>Bitset\<close>: \<^verbatim>\<open>porcupine/bitset.go\<close>. \<open>Porcupine\<close>: \<^verbatim>\<open>model.go\<close>, \<^verbatim>\<open>checker.go\<close> and \<^verbatim>\<open>porcupine.go\<close>, with
  the doubly linked list in an explicit store; \<open>KvModel\<close>: \<^verbatim>\<open>models/kv.go\<close>. \<open>Linearizable\<close> defines what is decided; \<open>PorcList\<close>,
  \<open>PorcSearch\<close>, \<open>PorcStep\<close>, \<open>PorcOps\<close>, \<open>PorcProps\<close> show that the search returns and decides it. \<open>Visualization\<close>: the data of
  \<^verbatim>\<open>visualization.go\<close>.

  \<^bold>\<open>Encoder and network.\<close> \<open>LabGob\<close>: \<^verbatim>\<open>labgob/labgob.go\<close>, with \<^verbatim>\<open>encoding/gob\<close> as a parameter. \<open>LabRpc\<close>, \<open>LabRpcRun\<close>,
  \<open>LabRpcProps\<close>: \<^verbatim>\<open>labrpc/labrpc.go\<close>; a call that returns true was executed, a call returns, and a
  reliable network calls the method. The cluster of \<open>RaftCluster\<close> has its own, weaker network.

  \<^bold>\<open>Bounds and fuel.\<close> The loops of the program are structural recursion or have a termination
  proof, with two exceptions. The loops over the linked list in \<open>Porcupine\<close> are partial functions, and it is shown that
  they return. The walk over types in \<open>LabGob\<close> has fuel for each type that there is, which is always
  enough (\<open>checkValue_spec\<close>). In \<open>ShardCtrler\<close>, the loop that takes shards from a group (\<open>releaseLoop\<close>) would not end
  if it found none to take; this has the result \<open>None\<close> and is shown not to happen. A loop of a clerk
  runs over a list of what the network does to its calls.

  \<^bold>\<open>What is not modelled.\<close> Time: a timer may fire at any moment, so nothing is shown about how soon a leader is elected.
  The bytes of \<^verbatim>\<open>encoding/gob\<close>, the transport of MapReduce, command lines, plugins, logging, and the HTML page of
  the visualization. Of the test harnesses, the starting, crashing and wiring of servers, whose effects are steps of
  the models, and the tests themselves. The programs in \<^verbatim>\<open>main\<close> for packages that the repository does not have.
\<close>

end
